(* ===== verification/Prelude.thy ===== *)
theory Prelude
  imports Main "HOL-Library.Multiset" "HOL-Library.Word"
begin

text \<open>
  What the components share: the errno values and return conventions of the C library, the
  outcome of code that may end the process, transition systems with their reachable states and
  the invariance rule as a locale, and generic facts about counting over lists of threads,
  chains of pointers in a heap, and decimal numbers.

  The collection \<open>seg_defs\<close> holds the definitions of the code segments that run between two blocking points.
\<close>

named_theorems seg_defs

section \<open>Return values of the C library\<close>

text \<open>
  The errno values of Linux, as the functions of the program return or store them.
\<close>

abbreviation ENOENT :: int where "ENOENT \<equiv> 2"
abbreviation ESRCH :: int where "ESRCH \<equiv> 3"
abbreviation EINTR :: int where "EINTR \<equiv> 4"
abbreviation EBADF :: int where "EBADF \<equiv> 9"
abbreviation EAGAIN :: int where "EAGAIN \<equiv> 11"
abbreviation ENOMEM :: int where "ENOMEM \<equiv> 12"
abbreviation EBUSY :: int where "EBUSY \<equiv> 16"
abbreviation EEXIST :: int where "EEXIST \<equiv> 17"
abbreviation EINVAL :: int where "EINVAL \<equiv> 22"
abbreviation ENOSPC :: int where "ENOSPC \<equiv> 28"
abbreviation EMSGSIZE :: int where "EMSGSIZE \<equiv> 90"
abbreviation EAFNOSUPPORT :: int where "EAFNOSUPPORT \<equiv> 97"
abbreviation ETIMEDOUT :: int where "ETIMEDOUT \<equiv> 110"

text \<open>
  A function that may call \<open>err_sys\<close>, \<open>err_quit\<close> or \<open>err_dump\<close> either returns or ends the
  process with a message.
\<close>

datatype 'a outcome = Returns 'a | Dies string

fun bind_outcome :: "'a outcome \<Rightarrow> ('a \<Rightarrow> 'b outcome) \<Rightarrow> 'b outcome" where
  "bind_outcome (Returns x) f = f x"
| "bind_outcome (Dies m) f = Dies m"

lemma bind_outcome_Returns_iff [simp]:
  "bind_outcome m f = Returns y \<longleftrightarrow> (\<exists>x. m = Returns x \<and> f x = Returns y)"
  by (cases m) auto

lemma bind_outcome_assoc:
  "bind_outcome (bind_outcome m f) g = bind_outcome m (\<lambda>x. bind_outcome (f x) g)"
  by (cases m) auto

section \<open>Transition systems\<close>

text \<open>The states a system reaches from its initial states.\<close>

inductive reach :: "('s \<Rightarrow> bool) \<Rightarrow> ('s \<Rightarrow> 's \<Rightarrow> bool) \<Rightarrow> 's \<Rightarrow> bool"
  for start :: "'s \<Rightarrow> bool" and step :: "'s \<Rightarrow> 's \<Rightarrow> bool"
where
  reach_start: "start s \<Longrightarrow> reach start step s"
| reach_step: "reach start step s \<Longrightarrow> step s t \<Longrightarrow> reach start step t"

text \<open>
  The contract of an inductive invariant: it holds at the start and every step keeps it. The
  components interpret the locale with their own steps.
\<close>

locale inductive_invariant =
  fixes start :: "'s \<Rightarrow> bool" and step :: "'s \<Rightarrow> 's \<Rightarrow> bool" and Inv :: "'s \<Rightarrow> bool"
  assumes Inv_start: "start s \<Longrightarrow> Inv s"
    and Inv_step: "Inv s \<Longrightarrow> step s t \<Longrightarrow> Inv t"
begin

lemma reach_Inv: "reach start step s \<Longrightarrow> Inv s"
  by (induction rule: reach.induct) (auto intro: Inv_start Inv_step)

end

text \<open>
  Runs of a system whose steps are a partial function of an event: \<open>None\<close> is an event that
  is not enabled.
\<close>

fun run_events :: "('s \<Rightarrow> 'e \<Rightarrow> 's option) \<Rightarrow> 's \<Rightarrow> 'e list \<Rightarrow> 's option" where
  "run_events f s [] = Some s"
| "run_events f s (e # es) = (case f s e of None \<Rightarrow> None | Some t \<Rightarrow> run_events f t es)"

lemma run_events_append:
  "run_events f s (es @ fs) =
     (case run_events f s es of None \<Rightarrow> None | Some t \<Rightarrow> run_events f t fs)"
  by (induction es arbitrary: s) (auto split: option.splits)

text \<open>A run evaluated on concrete events, for the witnesses.\<close>

definition run_ends :: "('s \<Rightarrow> 'e \<Rightarrow> 's option) \<Rightarrow> 's \<Rightarrow> 'e list \<Rightarrow> ('s \<Rightarrow> bool) \<Rightarrow> bool" where
  "run_ends f s es Q = (case run_events f s es of None \<Rightarrow> False | Some t \<Rightarrow> Q t)"

lemma run_events_ex: "run_ends f s es Q \<Longrightarrow> \<exists>t. run_events f s es = Some t \<and> Q t"
  by (auto simp: run_ends_def split: option.splits)

locale event_invariant =
  fixes exec :: "'s \<Rightarrow> 'e \<Rightarrow> 's option" and Inv :: "'s \<Rightarrow> bool"
  assumes Inv_exec: "Inv s \<Longrightarrow> exec s e = Some t \<Longrightarrow> Inv t"
begin

lemma run_Inv: "Inv s \<Longrightarrow> run_events exec s es = Some t \<Longrightarrow> Inv t"
  by (induction es arbitrary: s) (auto split: option.splits intro: Inv_exec)

end

text \<open>
  A system whose own steps use up a measure that only the events from outside raise: the number of its steps is bounded by
  the number of those events.
\<close>

locale measured_system = event_invariant +
  fixes left :: "'a \<Rightarrow> nat" and own :: "'b \<Rightarrow> bool" and k :: nat
  assumes own_step: "Inv s \<Longrightarrow> exec s e = Some t \<Longrightarrow> own e \<Longrightarrow> left t < left s"
    and outside: "Inv s \<Longrightarrow> exec s e = Some t \<Longrightarrow> \<not> own e \<Longrightarrow> left t \<le> left s + k"
begin

lemma run_bound:
  "Inv s \<Longrightarrow> run_events exec s es = Some t \<Longrightarrow>
    length (filter own es) + left t \<le> left s + k * length (filter (\<lambda>e. \<not> own e) es)"
proof (induction es arbitrary: s)
  case Nil
  then show ?case by simp
next
  case (Cons e es)
  then obtain u where u: "exec s e = Some u" "run_events exec u es = Some t" by (auto split: option.splits)
  note IH = Cons.IH [OF Inv_exec [OF Cons.prems(1) u(1)] u(2)]
  show ?case using IH own_step [OF Cons.prems(1) u(1)] outside [OF Cons.prems(1) u(1)]
    by (cases "own e") (auto simp: algebra_simps)
qed

end

section \<open>Counting threads\<close>

text \<open>
  Threads are the positions of a list of program points. The counters the code keeps are
  compared with the number of threads at a set of points.
\<close>

definition icount :: "('a \<Rightarrow> bool) \<Rightarrow> 'a list \<Rightarrow> int" where
  "icount P xs = int (length (filter P xs))"

lemma icount_Nil [simp]: "icount P [] = 0"
  by (simp add: icount_def)

lemma icount_Cons [simp]: "icount P (x # xs) = of_bool (P x) + icount P xs"
  by (simp add: icount_def)

lemma icount_append [simp]: "icount P (xs @ ys) = icount P xs + icount P ys"
  by (simp add: icount_def)

lemma icount_nonneg [simp]: "0 \<le> icount P xs"
  by (simp add: icount_def)

lemma icount_update [simp]:
  "i < length xs \<Longrightarrow> icount P (xs[i := y]) = icount P xs - of_bool (P (xs ! i)) + of_bool (P y)"
proof (induction xs arbitrary: i)
  case Nil
  then show ?case by simp
next
  case (Cons x xs)
  then show ?case by (cases i) auto
qed

lemma icount_zero_iff: "icount P xs = 0 \<longleftrightarrow> (\<forall>x\<in>set xs. \<not> P x)"
  by (auto simp: icount_def filter_empty_conv)

lemma icount_pos_iff: "0 < icount P xs \<longleftrightarrow> (\<exists>x\<in>set xs. P x)"
  using icount_zero_iff [of P xs] icount_nonneg [of P xs] by (metis order_less_le)

lemma icount_pos_nth: "i < length xs \<Longrightarrow> P (xs ! i) \<Longrightarrow> 1 \<le> icount P xs"
  using icount_pos_iff [of P xs] nth_mem [of i xs] by force

lemma icount_map: "icount P (map f xs) = icount (\<lambda>x. P (f x)) xs"
  by (induction xs) auto

lemma icount_cong: "(\<And>x. x \<in> set xs \<Longrightarrow> P x = Q x) \<Longrightarrow> icount P xs = icount Q xs"
  by (induction xs) auto

lemma icount_replicate [simp]: "icount P (replicate n x) = (if P x then int n else 0)"
  by (induction n) auto

lemma icount_one_unique:
  assumes "icount P xs \<le> 1" "i < length xs" "j < length xs" "P (xs ! i)" "P (xs ! j)"
  shows "i = j"
proof (rule ccontr)
  assume "i \<noteq> j"
  have "i \<in> {k. k < length xs \<and> P (xs ! k)}" "j \<in> {k. k < length xs \<and> P (xs ! k)}"
    using assms by auto
  moreover have "card {k. k < length xs \<and> P (xs ! k)} \<le> 1"
    using assms(1) by (simp add: icount_def length_filter_conv_card)
  ultimately show False
    using \<open>i \<noteq> j\<close> card_le_Suc0_iff_eq [of "{k. k < length xs \<and> P (xs ! k)}"] by auto
qed

lemma in_set_update_iff:
  "i < length xs \<Longrightarrow> xs ! i \<noteq> x \<Longrightarrow> x \<in> set (xs[i := y]) \<longleftrightarrow> x = y \<or> x \<in> set xs"
proof (induction xs arbitrary: i)
  case Nil
  then show ?case by simp
next
  case (Cons a xs)
  then show ?case by (cases i) auto
qed

lemma list_all_update: "list_all P xs \<Longrightarrow> P y \<Longrightarrow> list_all P (xs[i := y])"
  by (auto simp: list_all_iff dest!: set_update_subset_insert [THEN subsetD])

section \<open>Linked lists\<close>

text \<open>
  \<open>chain nxt p as\<close>: from the pointer \<open>p\<close> the links \<open>nxt\<close> lead through the cells \<open>as\<close>, in this
  order, to the null pointer.
\<close>

fun chain :: "('a \<Rightarrow> 'a option) \<Rightarrow> 'a option \<Rightarrow> 'a list \<Rightarrow> bool" where
  "chain nxt p [] = (p = None)"
| "chain nxt p (a # as) = (p = Some a \<and> chain nxt (nxt a) as)"

lemma chain_None [simp]: "chain nxt None as \<longleftrightarrow> as = []"
  by (cases as) auto

lemma chain_unique: "chain nxt p as \<Longrightarrow> chain nxt p bs \<Longrightarrow> as = bs"
proof (induction as arbitrary: p bs)
  case Nil
  then show ?case by (cases bs) auto
next
  case (Cons a as)
  then show ?case by (cases bs) auto
qed

lemma chain_cong:
  "(\<And>a. a \<in> set as \<Longrightarrow> f a = g a) \<Longrightarrow> chain f p as = chain g p as"
  by (induction as arbitrary: p) auto

lemma chain_update [simp]: "a \<notin> set as \<Longrightarrow> chain (nxt(a := x)) p as = chain nxt p as"
  by (rule chain_cong) auto

text \<open>The cells before and after a cut, and the pointer that leads across it.\<close>

fun cut_ptr :: "'a list \<Rightarrow> 'a option" where
  "cut_ptr [] = None"
| "cut_ptr (b # bs) = Some b"

fun chain_to :: "('a \<Rightarrow> 'a option) \<Rightarrow> 'a option \<Rightarrow> 'a list \<Rightarrow> 'a option \<Rightarrow> bool" where
  "chain_to nxt p [] q = (p = q)"
| "chain_to nxt p (a # as) q = (p = Some a \<and> chain_to nxt (nxt a) as q)"

lemma chain_append: "chain nxt p (as @ bs) \<longleftrightarrow> chain_to nxt p as (cut_ptr bs) \<and> chain nxt (cut_ptr bs) bs"
proof (induction as arbitrary: p)
  case Nil
  then show ?case by (cases bs) auto
next
  case (Cons a as)
  then show ?case by auto
qed

lemma chain_to_append:
  "chain_to nxt p (as @ [a]) q \<longleftrightarrow> chain_to nxt p as (Some a) \<and> nxt a = q"
  by (induction as arbitrary: p) auto

lemma chain_to_cong:
  "(\<And>a. a \<in> set as \<Longrightarrow> f a = g a) \<Longrightarrow> chain_to f p as q = chain_to g p as q"
  by (induction as arbitrary: p) auto

lemma chain_to_update [simp]:
  "a \<notin> set as \<Longrightarrow> chain_to (nxt(a := x)) p as q = chain_to nxt p as q"
  by (rule chain_to_cong) auto

lemma chain_hd: "chain nxt p as \<Longrightarrow> p = cut_ptr as"
  by (cases as) auto

text \<open>A chain that ends has no cell twice.\<close>

lemma chain_distinct: "chain nxt p as \<Longrightarrow> distinct as"
proof (induction as arbitrary: p)
  case Nil
  then show ?case by simp
next
  case (Cons a as)
  have "a \<notin> set as"
  proof
    assume "a \<in> set as"
    then obtain us vs where as: "as = us @ a # vs" by (auto simp: in_set_conv_decomp)
    with Cons.prems have "chain nxt (Some a) (a # vs)" "chain nxt (Some a) (a # as)"
      by (auto simp: chain_append)
    then show False using as chain_unique [of nxt "Some a" "a # vs" "a # as"] by auto
  qed
  with Cons show ?case by auto
qed

text \<open>A link stored as an index or an offset, where 0 is the null pointer.\<close>

definition ix :: "nat \<Rightarrow> nat option" where
  "ix n = (if n = 0 then None else Some n)"

lemma ix_simps [simp]: "ix 0 = None" "0 < n \<Longrightarrow> ix n = Some n" "ix n = None \<longleftrightarrow> n = 0"
  "ix n = Some m \<longleftrightarrow> n = m \<and> 0 < m"
  by (auto simp: ix_def)

end
