(* ===== verification/Rwlock.thy ===== *)
theory Rwlock
  imports Prelude
begin

text \<open>
  The read-write lock of \<open>unpv22e/my_rwlock\<close>, built from one mutex and two condition
  variables. A function of the source runs with the mutex held except while it is blocked in
  \<open>pthread_cond_wait\<close>, so each function is split at that call: the first segment runs from the
  call to a return or to the wait, the second (\<open>..._resume\<close>) from the return of the wait.
  What \<open>pthread_mutex_lock\<close>, \<open>pthread_cond_wait\<close> and the init functions return is an
  argument. The second half is the system of any number of threads that use one lock.
\<close>

section \<open>The lock and its operations\<close>

text \<open>
  The struct. Of the mutex and the condition variables only whether they are initialised is
  kept; who waits is kept by the thread system below.
\<close>

record rwlock =
  rw_mutex :: bool
  rw_condreaders :: bool
  rw_condwriters :: bool
  rw_magic :: int
  rw_nwaitreaders :: int
  rw_nwaitwriters :: int
  rw_refcount :: int

definition RW_MAGIC :: int where
  "RW_MAGIC = 0x19283746"

definition PTHREAD_RWLOCK_INITIALIZER :: rwlock where
  "PTHREAD_RWLOCK_INITIALIZER =
     \<lparr>rw_mutex = True, rw_condreaders = True, rw_condwriters = True, rw_magic = RW_MAGIC,
      rw_nwaitreaders = 0, rw_nwaitwriters = 0, rw_refcount = 0\<rparr>"

text \<open>
  How a segment ends: with a return value, blocked in \<open>pthread_cond_wait\<close>, or in
  \<open>err_dump\<close>; and which threads it wakes.
\<close>

datatype rw_end = RwReturn int | RwBlock | RwAbort
datatype rw_wake = WakeNone | WakeWriter | WakeReaders

text \<open>
  \<open>attr\<close> is the attribute pointer; \<open>m\<close>, \<open>r\<close> and \<open>w\<close> are what the three init calls return.
  A failed call leaves its object uninitialised and the error path destroys the earlier ones.
\<close>

definition pthread_rwlock_init ::
  "rwlock \<Rightarrow> int option \<Rightarrow> int \<Rightarrow> int \<Rightarrow> int \<Rightarrow> int \<times> rwlock" where
  "pthread_rwlock_init rw attr m r w =
     (if attr \<noteq> None then (EINVAL, rw)
      else if m \<noteq> 0 then (m, rw)
      else
        let rw1 = rw\<lparr>rw_mutex := True\<rparr> in
        if r \<noteq> 0 then (r, rw1\<lparr>rw_mutex := False\<rparr>)
        else
          let rw2 = rw1\<lparr>rw_condreaders := True\<rparr> in
          if w \<noteq> 0 then (w, rw2\<lparr>rw_condreaders := False, rw_mutex := False\<rparr>)
          else
            (0, rw2\<lparr>rw_condwriters := True, rw_nwaitreaders := 0, rw_nwaitwriters := 0,
                    rw_refcount := 0, rw_magic := RW_MAGIC\<rparr>))"

definition pthread_rwlock_destroy :: "rwlock \<Rightarrow> int \<times> rwlock" where
  "pthread_rwlock_destroy rw =
     (if rw_magic rw \<noteq> RW_MAGIC then (EINVAL, rw)
      else if rw_refcount rw \<noteq> 0 \<or> rw_nwaitreaders rw \<noteq> 0 \<or> rw_nwaitwriters rw \<noteq> 0
      then (EBUSY, rw)
      else (0, rw\<lparr>rw_mutex := False, rw_condreaders := False, rw_condwriters := False,
                  rw_magic := 0\<rparr>))"

text \<open>The head of the reader's loop: wait while a writer holds the lock or waits for it.\<close>

definition rdlock_test :: "rwlock \<Rightarrow> rw_end \<times> rwlock" where
  "rdlock_test rw =
     (if rw_refcount rw < 0 \<or> rw_nwaitwriters rw > 0
      then (RwBlock, rw\<lparr>rw_nwaitreaders := rw_nwaitreaders rw + 1\<rparr>)
      else (RwReturn 0, rw\<lparr>rw_refcount := rw_refcount rw + 1\<rparr>))"

definition pthread_rwlock_rdlock :: "rwlock \<Rightarrow> int \<Rightarrow> rw_end \<times> rwlock" where
  "pthread_rwlock_rdlock rw lock_rc =
     (if rw_magic rw \<noteq> RW_MAGIC then (RwReturn EINVAL, rw)
      else if lock_rc \<noteq> 0 then (RwReturn lock_rc, rw)
      else rdlock_test rw)"

definition rdlock_resume :: "rwlock \<Rightarrow> int \<Rightarrow> rw_end \<times> rwlock" where
  "rdlock_resume rw wait_rc =
     (let rw1 = rw\<lparr>rw_nwaitreaders := rw_nwaitreaders rw - 1\<rparr> in
      if wait_rc \<noteq> 0 then (RwReturn wait_rc, rw1) else rdlock_test rw1)"

definition pthread_rwlock_tryrdlock :: "rwlock \<Rightarrow> int \<Rightarrow> rw_end \<times> rwlock" where
  "pthread_rwlock_tryrdlock rw lock_rc =
     (if rw_magic rw \<noteq> RW_MAGIC then (RwReturn EINVAL, rw)
      else if lock_rc \<noteq> 0 then (RwReturn lock_rc, rw)
      else if rw_refcount rw < 0 \<or> rw_nwaitwriters rw > 0 then (RwReturn EBUSY, rw)
      else (RwReturn 0, rw\<lparr>rw_refcount := rw_refcount rw + 1\<rparr>))"

definition wrlock_test :: "rwlock \<Rightarrow> rw_end \<times> rwlock" where
  "wrlock_test rw =
     (if rw_refcount rw \<noteq> 0
      then (RwBlock, rw\<lparr>rw_nwaitwriters := rw_nwaitwriters rw + 1\<rparr>)
      else (RwReturn 0, rw\<lparr>rw_refcount := -1\<rparr>))"

definition pthread_rwlock_wrlock :: "rwlock \<Rightarrow> int \<Rightarrow> rw_end \<times> rwlock" where
  "pthread_rwlock_wrlock rw lock_rc =
     (if rw_magic rw \<noteq> RW_MAGIC then (RwReturn EINVAL, rw)
      else if lock_rc \<noteq> 0 then (RwReturn lock_rc, rw)
      else wrlock_test rw)"

definition wrlock_resume :: "rwlock \<Rightarrow> int \<Rightarrow> rw_end \<times> rwlock" where
  "wrlock_resume rw wait_rc =
     (let rw1 = rw\<lparr>rw_nwaitwriters := rw_nwaitwriters rw - 1\<rparr> in
      if wait_rc \<noteq> 0 then (RwReturn wait_rc, rw1) else wrlock_test rw1)"

definition pthread_rwlock_trywrlock :: "rwlock \<Rightarrow> int \<Rightarrow> rw_end \<times> rwlock" where
  "pthread_rwlock_trywrlock rw lock_rc =
     (if rw_magic rw \<noteq> RW_MAGIC then (RwReturn EINVAL, rw)
      else if lock_rc \<noteq> 0 then (RwReturn lock_rc, rw)
      else if rw_refcount rw \<noteq> 0 then (RwReturn EBUSY, rw)
      else (RwReturn 0, rw\<lparr>rw_refcount := -1\<rparr>))"

text \<open>The wake-up at the end of \<open>pthread_rwlock_unlock\<close>: writers before readers.\<close>

definition unlock_wake :: "rwlock \<Rightarrow> rw_wake" where
  "unlock_wake rw =
     (if rw_nwaitwriters rw > 0 then (if rw_refcount rw = 0 then WakeWriter else WakeNone)
      else if rw_nwaitreaders rw > 0 then WakeReaders
      else WakeNone)"

text \<open>\<open>sig_rc\<close> is what \<open>pthread_cond_signal\<close> or \<open>pthread_cond_broadcast\<close> returns.\<close>

definition pthread_rwlock_unlock ::
  "rwlock \<Rightarrow> int \<Rightarrow> int \<Rightarrow> rw_end \<times> rw_wake \<times> rwlock" where
  "pthread_rwlock_unlock rw lock_rc sig_rc =
     (if rw_magic rw \<noteq> RW_MAGIC then (RwReturn EINVAL, WakeNone, rw)
      else if lock_rc \<noteq> 0 then (RwReturn lock_rc, WakeNone, rw)
      else if rw_refcount rw > 0 \<or> rw_refcount rw = -1 then
        let rw1 = (if rw_refcount rw > 0 then rw\<lparr>rw_refcount := rw_refcount rw - 1\<rparr>
                   else rw\<lparr>rw_refcount := 0\<rparr>);
            k = unlock_wake rw1
        in (RwReturn (if k = WakeNone then 0 else sig_rc), k, rw1)
      else (RwAbort, WakeNone, rw))"

text \<open>
  The wrapper functions turn a nonzero return into the end of the process; a blocked call stays
  blocked.
\<close>

fun rw_checked :: "string \<Rightarrow> rw_end \<times> rwlock \<Rightarrow> (rw_end \<times> rwlock) outcome" where
  "rw_checked msg (RwReturn n, rw) = (if n = 0 then Returns (RwReturn 0, rw) else Dies msg)"
| "rw_checked msg (RwBlock, rw) = Returns (RwBlock, rw)"
| "rw_checked msg (RwAbort, rw) = Dies ''rw_refcount''"

definition Pthread_rwlock_init :: "rwlock \<Rightarrow> int option \<Rightarrow> int \<Rightarrow> int \<Rightarrow> int \<Rightarrow> rwlock outcome" where
  "Pthread_rwlock_init rw attr m r w =
     (case pthread_rwlock_init rw attr m r w of
        (n, rw') \<Rightarrow> if n = 0 then Returns rw' else Dies ''pthread_rwlock_init error'')"

definition Pthread_rwlock_destroy :: "rwlock \<Rightarrow> rwlock outcome" where
  "Pthread_rwlock_destroy rw =
     (case pthread_rwlock_destroy rw of
        (n, rw') \<Rightarrow> if n = 0 then Returns rw' else Dies ''pthread_rwlock_destroy error'')"

definition Pthread_rwlock_rdlock :: "rwlock \<Rightarrow> int \<Rightarrow> (rw_end \<times> rwlock) outcome" where
  "Pthread_rwlock_rdlock rw lock_rc =
     rw_checked ''pthread_rwlock_rdlock error'' (pthread_rwlock_rdlock rw lock_rc)"

definition Pthread_rwlock_tryrdlock :: "rwlock \<Rightarrow> int \<Rightarrow> (rw_end \<times> rwlock) outcome" where
  "Pthread_rwlock_tryrdlock rw lock_rc =
     rw_checked ''pthread_rwlock_tryrdlock error'' (pthread_rwlock_tryrdlock rw lock_rc)"

definition Pthread_rwlock_wrlock :: "rwlock \<Rightarrow> int \<Rightarrow> (rw_end \<times> rwlock) outcome" where
  "Pthread_rwlock_wrlock rw lock_rc =
     rw_checked ''pthread_rwlock_wrlock error'' (pthread_rwlock_wrlock rw lock_rc)"

definition Pthread_rwlock_trywrlock :: "rwlock \<Rightarrow> int \<Rightarrow> (rw_end \<times> rwlock) outcome" where
  "Pthread_rwlock_trywrlock rw lock_rc =
     rw_checked ''pthread_rwlock_trywrlock error'' (pthread_rwlock_trywrlock rw lock_rc)"

definition Pthread_rwlock_unlock ::
  "rwlock \<Rightarrow> int \<Rightarrow> int \<Rightarrow> (rw_wake \<times> rwlock) outcome" where
  "Pthread_rwlock_unlock rw lock_rc sig_rc =
     (case pthread_rwlock_unlock rw lock_rc sig_rc of
        (e, k, rw') \<Rightarrow> bind_outcome (rw_checked ''pthread_rwlock_unlock error'' (e, rw'))
                         (\<lambda>(_, r). Returns (k, r)))"

lemmas rw_defs [seg_defs] =
  pthread_rwlock_init_def pthread_rwlock_destroy_def rdlock_test_def pthread_rwlock_rdlock_def
  rdlock_resume_def pthread_rwlock_tryrdlock_def wrlock_test_def pthread_rwlock_wrlock_def
  wrlock_resume_def pthread_rwlock_trywrlock_def unlock_wake_def pthread_rwlock_unlock_def

section \<open>The threads that use a lock\<close>

text \<open>
  A thread is outside the lock, holds it as a reader or a writer, is blocked in
  \<open>pthread_cond_wait\<close>, or has ended; the flag of a blocked thread says that it has been woken
  and has yet to take the mutex again.
\<close>

datatype rw_thread = RwIdle | RdHeld | WrHeld | RdWait bool | WrWait bool | RwGone

record rw_sys =
  rw_lock :: rwlock
  rw_thr :: "rw_thread list"

fun is_rdwait :: "rw_thread \<Rightarrow> bool" where
  "is_rdwait (RdWait _) = True"
| "is_rdwait _ = False"

fun is_wrwait :: "rw_thread \<Rightarrow> bool" where
  "is_wrwait (WrWait _) = True"
| "is_wrwait _ = False"

text \<open>Where a thread goes when a segment of a lock call ends.\<close>

fun rd_next :: "rw_end \<Rightarrow> rw_thread" where
  "rd_next (RwReturn n) = (if n = 0 then RdHeld else RwIdle)"
| "rd_next RwBlock = RdWait False"
| "rd_next RwAbort = RwIdle"

fun wr_next :: "rw_end \<Rightarrow> rw_thread" where
  "wr_next (RwReturn n) = (if n = 0 then WrHeld else RwIdle)"
| "wr_next RwBlock = WrWait False"
| "wr_next RwAbort = RwIdle"

fun wake_reader :: "rw_thread \<Rightarrow> rw_thread" where
  "wake_reader (RdWait _) = RdWait True"
| "wake_reader t = t"

text \<open>
  \<open>pthread_cond_signal\<close> wakes one thread that waits, any of them; \<open>pthread_cond_broadcast\<close>
  wakes them all. With no waiter both do nothing.
\<close>

inductive rw_woken :: "rw_wake \<Rightarrow> rw_thread list \<Rightarrow> rw_thread list \<Rightarrow> bool" where
  woken_none: "rw_woken WakeNone ts ts"
| woken_readers: "rw_woken WakeReaders ts (map wake_reader ts)"
| woken_writer: "j < length ts \<Longrightarrow> ts ! j = WrWait False \<Longrightarrow>
    rw_woken WakeWriter ts (ts[j := WrWait True])"
| woken_nobody: "WrWait False \<notin> set ts \<Longrightarrow> rw_woken WakeWriter ts ts"

text \<open>
  One step of the system: a thread starts a call, takes the mutex again after a wait, or is
  woken with no signal (POSIX allows spurious wake-ups). A valid \<open>pthread_cond_wait\<close> returns 0.
\<close>

inductive rw_step :: "rw_sys \<Rightarrow> rw_sys \<Rightarrow> bool" where
  step_rdlock: "i < length (rw_thr s) \<Longrightarrow> rw_thr s ! i = RwIdle \<Longrightarrow>
    pthread_rwlock_rdlock (rw_lock s) rc = (e, rw') \<Longrightarrow>
    rw_step s \<lparr>rw_lock = rw', rw_thr = (rw_thr s)[i := rd_next e]\<rparr>"
| step_tryrdlock: "i < length (rw_thr s) \<Longrightarrow> rw_thr s ! i = RwIdle \<Longrightarrow>
    pthread_rwlock_tryrdlock (rw_lock s) rc = (e, rw') \<Longrightarrow>
    rw_step s \<lparr>rw_lock = rw', rw_thr = (rw_thr s)[i := rd_next e]\<rparr>"
| step_rdresume: "i < length (rw_thr s) \<Longrightarrow> rw_thr s ! i = RdWait True \<Longrightarrow>
    rdlock_resume (rw_lock s) 0 = (e, rw') \<Longrightarrow>
    rw_step s \<lparr>rw_lock = rw', rw_thr = (rw_thr s)[i := rd_next e]\<rparr>"
| step_wrlock: "i < length (rw_thr s) \<Longrightarrow> rw_thr s ! i = RwIdle \<Longrightarrow>
    pthread_rwlock_wrlock (rw_lock s) rc = (e, rw') \<Longrightarrow>
    rw_step s \<lparr>rw_lock = rw', rw_thr = (rw_thr s)[i := wr_next e]\<rparr>"
| step_trywrlock: "i < length (rw_thr s) \<Longrightarrow> rw_thr s ! i = RwIdle \<Longrightarrow>
    pthread_rwlock_trywrlock (rw_lock s) rc = (e, rw') \<Longrightarrow>
    rw_step s \<lparr>rw_lock = rw', rw_thr = (rw_thr s)[i := wr_next e]\<rparr>"
| step_wrresume: "i < length (rw_thr s) \<Longrightarrow> rw_thr s ! i = WrWait True \<Longrightarrow>
    wrlock_resume (rw_lock s) 0 = (e, rw') \<Longrightarrow>
    rw_step s \<lparr>rw_lock = rw', rw_thr = (rw_thr s)[i := wr_next e]\<rparr>"
| step_unlock: "i < length (rw_thr s) \<Longrightarrow> rw_thr s ! i = RdHeld \<or> rw_thr s ! i = WrHeld \<Longrightarrow>
    pthread_rwlock_unlock (rw_lock s) 0 rc = (RwReturn n, k, rw') \<Longrightarrow>
    rw_woken k ((rw_thr s)[i := RwIdle]) ts \<Longrightarrow>
    rw_step s \<lparr>rw_lock = rw', rw_thr = ts\<rparr>"
| step_spurious_rd: "i < length (rw_thr s) \<Longrightarrow> rw_thr s ! i = RdWait False \<Longrightarrow>
    rw_step s (s\<lparr>rw_thr := (rw_thr s)[i := RdWait True]\<rparr>)"
| step_spurious_wr: "i < length (rw_thr s) \<Longrightarrow> rw_thr s ! i = WrWait False \<Longrightarrow>
    rw_step s (s\<lparr>rw_thr := (rw_thr s)[i := WrWait True]\<rparr>)"

definition rw_start :: "rw_sys \<Rightarrow> bool" where
  "rw_start s \<longleftrightarrow> rw_lock s = PTHREAD_RWLOCK_INITIALIZER \<and> set (rw_thr s) \<subseteq> {RwIdle}"

inductive_cases woken_WakeNoneE [elim!]: "rw_woken WakeNone ts us"
inductive_cases woken_WakeReadersE [elim!]: "rw_woken WakeReaders ts us"
inductive_cases woken_WakeWriterE [elim!]: "rw_woken WakeWriter ts us"

section \<open>The counters agree with the threads\<close>

text \<open>
  The invariant of the safety proof: the reference count is the number of readers, or -1 with
  exactly one writer and no reader; the two wait counters count the blocked threads.
\<close>

definition rw_safe :: "rw_sys \<Rightarrow> bool" where
  "rw_safe s \<longleftrightarrow>
     rw_magic (rw_lock s) = RW_MAGIC \<and>
     rw_nwaitreaders (rw_lock s) = icount is_rdwait (rw_thr s) \<and>
     rw_nwaitwriters (rw_lock s) = icount is_wrwait (rw_thr s) \<and>
     (if rw_refcount (rw_lock s) = -1
      then icount ((=) WrHeld) (rw_thr s) = 1 \<and> icount ((=) RdHeld) (rw_thr s) = 0
      else rw_refcount (rw_lock s) = icount ((=) RdHeld) (rw_thr s) \<and>
           icount ((=) WrHeld) (rw_thr s) = 0)"

lemma wake_reader_kind [simp]:
  "is_rdwait (wake_reader t) = is_rdwait t"
  "is_wrwait (wake_reader t) = is_wrwait t"
  "WrHeld = wake_reader t \<longleftrightarrow> WrHeld = t"
  "RdHeld = wake_reader t \<longleftrightarrow> RdHeld = t"
  "wake_reader t = WrWait b \<longleftrightarrow> t = WrWait b"
  "wake_reader t \<noteq> RdWait False"
  "RdWait False \<noteq> wake_reader t"
  by (cases t; simp)+

text \<open>No wake-up changes the counts.\<close>

lemma rw_woken_counts:
  assumes "rw_woken k ts us"
  shows "icount is_rdwait us = icount is_rdwait ts \<and> icount is_wrwait us = icount is_wrwait ts \<and>
         icount ((=) WrHeld) us = icount ((=) WrHeld) ts \<and>
         icount ((=) RdHeld) us = icount ((=) RdHeld) ts \<and> length us = length ts"
  using assms by (cases rule: rw_woken.cases) (auto simp: icount_map)

text \<open>What a holder knows about the reference count.\<close>

lemma rw_safe_reader:
  assumes "rw_safe s" "i < length (rw_thr s)" "rw_thr s ! i = RdHeld"
  shows "0 < rw_refcount (rw_lock s)"
  using assms icount_pos_nth [of i "rw_thr s" "(=) RdHeld"]
  by (auto simp: rw_safe_def split: if_splits)

lemma rw_safe_writer:
  assumes "rw_safe s" "i < length (rw_thr s)" "rw_thr s ! i = WrHeld"
  shows "rw_refcount (rw_lock s) = -1"
  using assms icount_pos_nth [of i "rw_thr s" "(=) WrHeld"]
  by (auto simp: rw_safe_def split: if_splits)

lemma rw_safe_refcount_ge: "rw_safe s \<Longrightarrow> -1 \<le> rw_refcount (rw_lock s)"
  by (auto simp: rw_safe_def intro: order_trans [OF _ icount_nonneg] split: if_splits)

lemma rw_start_safe: "rw_start s \<Longrightarrow> rw_safe s"
  by (auto simp: rw_start_def rw_safe_def PTHREAD_RWLOCK_INITIALIZER_def icount_zero_iff)

text \<open>Each call keeps the invariant; the lock calls and the release are two lemmas.\<close>

lemma rw_unlock_safe:
  assumes safe: "rw_safe s" and i: "i < length (rw_thr s)"
    and held: "rw_thr s ! i = RdHeld \<or> rw_thr s ! i = WrHeld"
    and call: "pthread_rwlock_unlock (rw_lock s) 0 rc = (RwReturn n, k, rw')"
    and woken: "rw_woken k ((rw_thr s)[i := RwIdle]) ts"
  shows "rw_safe \<lparr>rw_lock = rw', rw_thr = ts\<rparr>"
  using held
proof
  assume h: "rw_thr s ! i = RdHeld"
  with safe i have "0 < rw_refcount (rw_lock s)" by (rule rw_safe_reader)
  with safe i h call rw_woken_counts [OF woken] show ?thesis
    by (auto simp: rw_safe_def pthread_rwlock_unlock_def Let_def split: if_splits)
next
  assume h: "rw_thr s ! i = WrHeld"
  with safe i have "rw_refcount (rw_lock s) = -1" by (rule rw_safe_writer)
  with safe i h call rw_woken_counts [OF woken] show ?thesis
    by (auto simp: rw_safe_def pthread_rwlock_unlock_def Let_def split: if_splits)
qed

text \<open>
  A lock call leaves the lock alone and its thread idle, takes the lock, or blocks: the three
  ways a segment of the reader's and of the writer's functions ends.
\<close>

lemma rd_call_cases:
  "pthread_rwlock_rdlock rw rc = (e, rw') \<or> pthread_rwlock_tryrdlock rw rc = (e, rw') \<Longrightarrow>
   (\<exists>n. n \<noteq> 0 \<and> (e, rw') = (RwReturn n, rw)) \<or> (e, rw') = rdlock_test rw"
  by (auto simp: pthread_rwlock_rdlock_def pthread_rwlock_tryrdlock_def rdlock_test_def
      split: if_splits)

lemma wr_call_cases:
  "pthread_rwlock_wrlock rw rc = (e, rw') \<or> pthread_rwlock_trywrlock rw rc = (e, rw') \<Longrightarrow>
   (\<exists>n. n \<noteq> 0 \<and> (e, rw') = (RwReturn n, rw)) \<or> (e, rw') = wrlock_test rw"
  by (auto simp: pthread_rwlock_wrlock_def pthread_rwlock_trywrlock_def wrlock_test_def
      split: if_splits)

lemma rw_rd_safe:
  assumes "rw_safe s" "i < length (rw_thr s)" "rw_thr s ! i = RwIdle"
    and "(\<exists>n. n \<noteq> 0 \<and> (e, rw') = (RwReturn n, rw_lock s)) \<or> (e, rw') = rdlock_test (rw_lock s)"
  shows "rw_safe \<lparr>rw_lock = rw', rw_thr = (rw_thr s)[i := rd_next e]\<rparr>"
  using assms rw_safe_refcount_ge [OF assms(1)]
  by (auto simp: rw_safe_def rdlock_test_def split: if_splits)

lemma rw_wr_safe:
  assumes "rw_safe s" "i < length (rw_thr s)" "rw_thr s ! i = RwIdle"
    and "(\<exists>n. n \<noteq> 0 \<and> (e, rw') = (RwReturn n, rw_lock s)) \<or> (e, rw') = wrlock_test (rw_lock s)"
  shows "rw_safe \<lparr>rw_lock = rw', rw_thr = (rw_thr s)[i := wr_next e]\<rparr>"
  using assms rw_safe_refcount_ge [OF assms(1)]
  by (auto simp: rw_safe_def wrlock_test_def split: if_splits)

text \<open>A thread that resumes is, for the invariant, an idle thread that calls again.\<close>

lemma rw_safe_rd_unwait:
  assumes "rw_safe s" "i < length (rw_thr s)" "rw_thr s ! i = RdWait b"
  shows "rw_safe \<lparr>rw_lock = (rw_lock s)\<lparr>rw_nwaitreaders := rw_nwaitreaders (rw_lock s) - 1\<rparr>,
                  rw_thr = (rw_thr s)[i := RwIdle]\<rparr>"
  using assms by (simp add: rw_safe_def)

lemma rw_safe_wr_unwait:
  assumes "rw_safe s" "i < length (rw_thr s)" "rw_thr s ! i = WrWait b"
  shows "rw_safe \<lparr>rw_lock = (rw_lock s)\<lparr>rw_nwaitwriters := rw_nwaitwriters (rw_lock s) - 1\<rparr>,
                  rw_thr = (rw_thr s)[i := RwIdle]\<rparr>"
  using assms by (simp add: rw_safe_def)

lemma rw_step_safe:
  assumes "rw_step s t" "rw_safe s"
  shows "rw_safe t"
  using assms(1)
proof (cases rule: rw_step.cases)
  case (step_rdlock i rc e rw')
  show ?thesis unfolding step_rdlock(1)
    by (rule rw_rd_safe [OF assms(2) step_rdlock(2,3) rd_call_cases [OF disjI1 [OF step_rdlock(4)]]])
next
  case (step_tryrdlock i rc e rw')
  show ?thesis unfolding step_tryrdlock(1)
    by (rule rw_rd_safe [OF assms(2) step_tryrdlock(2,3) rd_call_cases [OF disjI2 [OF step_tryrdlock(4)]]])
next
  case (step_rdresume i e rw')
  with rw_rd_safe [OF rw_safe_rd_unwait [OF assms(2)], of i True i e rw'] show ?thesis
    by (simp add: rdlock_resume_def)
next
  case (step_wrlock i rc e rw')
  show ?thesis unfolding step_wrlock(1)
    by (rule rw_wr_safe [OF assms(2) step_wrlock(2,3) wr_call_cases [OF disjI1 [OF step_wrlock(4)]]])
next
  case (step_trywrlock i rc e rw')
  show ?thesis unfolding step_trywrlock(1)
    by (rule rw_wr_safe [OF assms(2) step_trywrlock(2,3) wr_call_cases [OF disjI2 [OF step_trywrlock(4)]]])
next
  case (step_wrresume i e rw')
  with rw_wr_safe [OF rw_safe_wr_unwait [OF assms(2)], of i True i e rw'] show ?thesis
    by (simp add: wrlock_resume_def)
next
  case step_unlock
  with assms(2) show ?thesis by (auto intro: rw_unlock_safe)
next
  case step_spurious_rd
  with assms(2) show ?thesis by (simp add: rw_safe_def)
next
  case step_spurious_wr
  with assms(2) show ?thesis by (simp add: rw_safe_def)
qed

interpretation rwsafe: inductive_invariant rw_start rw_step rw_safe
  by unfold_locales (auto intro: rw_start_safe rw_step_safe)

section \<open>No wake-up is lost\<close>

text \<open>
  With the lock free and a writer waiting, some waiting writer is already woken; with the lock
  open to readers, every waiting reader is.
\<close>

definition rw_live :: "rw_sys \<Rightarrow> bool" where
  "rw_live s \<longleftrightarrow>
     (rw_refcount (rw_lock s) = 0 \<longrightarrow> 0 < rw_nwaitwriters (rw_lock s) \<longrightarrow>
        WrWait True \<in> set (rw_thr s)) \<and>
     (0 \<le> rw_refcount (rw_lock s) \<longrightarrow> rw_nwaitwriters (rw_lock s) = 0 \<longrightarrow>
        RdWait False \<notin> set (rw_thr s))"

definition rw_inv :: "rw_sys \<Rightarrow> bool" where
  "rw_inv s \<longleftrightarrow> rw_safe s \<and> rw_live s"

lemma rw_live_rd:
  assumes "rw_live s" "i < length (rw_thr s)" "rw_thr s ! i = RwIdle"
    and "(\<exists>n. n \<noteq> 0 \<and> (e, rw') = (RwReturn n, rw_lock s)) \<or> (e, rw') = rdlock_test (rw_lock s)"
  shows "rw_live \<lparr>rw_lock = rw', rw_thr = (rw_thr s)[i := rd_next e]\<rparr>"
  using assms(4)
proof
  assume "\<exists>n. n \<noteq> 0 \<and> (e, rw') = (RwReturn n, rw_lock s)"
  with assms(1-3) show ?thesis by (auto simp: rw_live_def in_set_update_iff)
next
  assume "(e, rw') = rdlock_test (rw_lock s)"
  with assms(1-3) show ?thesis
    by (auto simp: rw_live_def rdlock_test_def in_set_update_iff split: if_splits)
qed

lemma rw_live_wr:
  assumes "rw_live s" "rw_safe s" "i < length (rw_thr s)" "rw_thr s ! i = RwIdle"
    and "(\<exists>n. n \<noteq> 0 \<and> (e, rw') = (RwReturn n, rw_lock s)) \<or> (e, rw') = wrlock_test (rw_lock s)"
  shows "rw_live \<lparr>rw_lock = rw', rw_thr = (rw_thr s)[i := wr_next e]\<rparr>"
  using assms(5)
proof
  assume "\<exists>n. n \<noteq> 0 \<and> (e, rw') = (RwReturn n, rw_lock s)"
  with assms(1-4) show ?thesis by (auto simp: rw_live_def in_set_update_iff)
next
  assume "(e, rw') = wrlock_test (rw_lock s)"
  moreover have "0 \<le> rw_nwaitwriters (rw_lock s)"
    using assms(2) by (simp add: rw_safe_def)
  ultimately show ?thesis
    using assms(1,3,4) by (auto simp: rw_live_def wrlock_test_def in_set_update_iff split: if_splits)
qed

lemma icount_wrwait_witness:
  assumes "0 < icount is_wrwait ts"
  obtains b where "WrWait b \<in> set ts"
  using assms by (auto simp: icount_pos_iff elim: is_wrwait.elims)

text \<open>The release wakes a writer when the last holder leaves, and every reader otherwise.\<close>

lemma rw_live_unlock:
  assumes safe: "rw_safe s" and i: "i < length (rw_thr s)"
    and held: "rw_thr s ! i = RdHeld \<or> rw_thr s ! i = WrHeld"
    and call: "pthread_rwlock_unlock (rw_lock s) 0 rc = (RwReturn n, k, rw')"
    and woken: "rw_woken k ((rw_thr s)[i := RwIdle]) ts"
  shows "rw_live \<lparr>rw_lock = rw', rw_thr = ts\<rparr>"
proof -
  have after: "rw_safe \<lparr>rw_lock = rw', rw_thr = ts\<rparr>"
    using assms by (rule rw_unlock_safe)
  have k: "k = unlock_wake rw'"
    using call safe by (auto simp: pthread_rwlock_unlock_def rw_safe_def Let_def split: if_splits)
  show ?thesis
  proof (cases "0 < rw_nwaitwriters rw'")
    case True
    with k have "rw_refcount rw' = 0 \<Longrightarrow> k = WakeWriter" by (simp add: unlock_wake_def)
    moreover obtain b where "WrWait b \<in> set ts"
      using True after icount_wrwait_witness by (auto simp: rw_safe_def)
    ultimately show ?thesis
      using True woken by (cases b) (auto simp: rw_live_def set_update_memI)
  next
    case False
    show ?thesis
    proof (cases "0 < rw_nwaitreaders rw'")
      case True
      with False k have "k = WakeReaders" by (simp add: unlock_wake_def)
      with woken False show ?thesis by (auto simp: rw_live_def)
    next
      case False: False
      with after have "RdWait False \<notin> set ts"
        by (force simp: rw_safe_def icount_pos_iff)
      with \<open>\<not> 0 < rw_nwaitwriters rw'\<close> show ?thesis by (simp add: rw_live_def)
    qed
  qed
qed

lemma rw_live_rdresume:
  assumes "rw_live s" "i < length (rw_thr s)" "rw_thr s ! i = RdWait True"
    and "rdlock_resume (rw_lock s) 0 = (e, rw')"
  shows "rw_live \<lparr>rw_lock = rw', rw_thr = (rw_thr s)[i := rd_next e]\<rparr>"
proof -
  let ?u = "\<lparr>rw_lock = (rw_lock s)\<lparr>rw_nwaitreaders := rw_nwaitreaders (rw_lock s) - 1\<rparr>,
             rw_thr = (rw_thr s)[i := RwIdle]\<rparr>"
  have "rw_live ?u" using assms(1-3) by (auto simp: rw_live_def in_set_update_iff)
  from rw_live_rd [OF this, of i e rw'] assms(2,4) show ?thesis
    by (simp add: rdlock_resume_def)
qed

text \<open>A woken writer takes the lock or waits again while another thread holds it.\<close>

lemma rw_live_wrresume:
  assumes "rw_safe s" "i < length (rw_thr s)" "rw_thr s ! i = WrWait True"
    and "wrlock_resume (rw_lock s) 0 = (e, rw')"
  shows "rw_live \<lparr>rw_lock = rw', rw_thr = (rw_thr s)[i := wr_next e]\<rparr>"
proof -
  have "1 \<le> rw_nwaitwriters (rw_lock s)"
    using assms(1-3) icount_pos_nth [of i "rw_thr s" is_wrwait] by (simp add: rw_safe_def)
  with assms(4) show ?thesis
    by (auto simp: rw_live_def wrlock_resume_def wrlock_test_def Let_def split: if_splits)
qed

lemma rw_step_inv:
  assumes "rw_step s t" "rw_inv s"
  shows "rw_inv t"
proof -
  have safe: "rw_safe s" and live: "rw_live s"
    using assms(2) by (auto simp: rw_inv_def)
  have "rw_live t"
    using assms(1)
  proof (cases rule: rw_step.cases)
    case (step_rdlock i rc e rw')
    show ?thesis unfolding step_rdlock(1)
      by (rule rw_live_rd [OF live step_rdlock(2,3) rd_call_cases [OF disjI1 [OF step_rdlock(4)]]])
  next
    case (step_tryrdlock i rc e rw')
    show ?thesis unfolding step_tryrdlock(1)
      by (rule rw_live_rd [OF live step_tryrdlock(2,3)
            rd_call_cases [OF disjI2 [OF step_tryrdlock(4)]]])
  next
    case (step_wrlock i rc e rw')
    show ?thesis unfolding step_wrlock(1)
      by (rule rw_live_wr [OF live safe step_wrlock(2,3)
            wr_call_cases [OF disjI1 [OF step_wrlock(4)]]])
  next
    case (step_trywrlock i rc e rw')
    show ?thesis unfolding step_trywrlock(1)
      by (rule rw_live_wr [OF live safe step_trywrlock(2,3)
            wr_call_cases [OF disjI2 [OF step_trywrlock(4)]]])
  next
    case (step_rdresume i e rw')
    with live show ?thesis by (simp add: rw_live_rdresume)
  next
    case (step_wrresume i e rw')
    with safe show ?thesis by (simp add: rw_live_wrresume)
  next
    case (step_unlock i rc n k rw' ts)
    with safe show ?thesis by (auto intro: rw_live_unlock)
  next
    case (step_spurious_rd i)
    with live show ?thesis
      by (auto simp: rw_live_def in_set_update_iff dest: set_update_subset_insert [THEN subsetD])
  next
    case (step_spurious_wr i)
    with live show ?thesis by (auto simp: rw_live_def in_set_update_iff)
  qed
  with rw_step_safe [OF assms(1) safe] show ?thesis by (simp add: rw_inv_def)
qed

lemma rw_start_inv: "rw_start s \<Longrightarrow> rw_inv s"
  by (auto simp: rw_inv_def rw_live_def rw_start_safe)
     (auto simp: rw_start_def PTHREAD_RWLOCK_INITIALIZER_def)

interpretation rwinv: inductive_invariant rw_start rw_step rw_inv
  by unfold_locales (auto intro: rw_start_inv rw_step_inv)

section \<open>Properties\<close>

text \<open>
  C4. Mutual exclusion: in every state that any number of threads can reach with the functions
  of the lock, a thread that holds it as a writer holds it alone.
\<close>

theorem rw_writer_excludes:
  assumes "reach rw_start rw_step s"
    and "i < length (rw_thr s)" "rw_thr s ! i = WrHeld"
    and "j < length (rw_thr s)" "j \<noteq> i"
  shows "rw_thr s ! j \<noteq> WrHeld \<and> rw_thr s ! j \<noteq> RdHeld"
proof -
  have safe: "rw_safe s" using assms(1) by (rule rwsafe.reach_Inv)
  have "rw_refcount (rw_lock s) = -1" using safe assms(2,3) by (rule rw_safe_writer)
  with rw_safe_reader [OF safe assms(4)] have "rw_thr s ! j \<noteq> RdHeld" by auto
  moreover have "icount ((=) WrHeld) (rw_thr s) \<le> 1"
    using safe by (auto simp: rw_safe_def split: if_splits)
  ultimately show ?thesis
    using assms(2-5) icount_one_unique [of "(=) WrHeld" "rw_thr s" j i] by auto
qed

text \<open>A run for the witnesses: thread 0 takes the lock as a writer, thread 1 waits to read.\<close>

definition rw_demo0 :: rw_sys where
  "rw_demo0 = \<lparr>rw_lock = PTHREAD_RWLOCK_INITIALIZER, rw_thr = [RwIdle, RwIdle]\<rparr>"

definition rw_demo1 :: rw_sys where
  "rw_demo1 = \<lparr>rw_lock = PTHREAD_RWLOCK_INITIALIZER\<lparr>rw_refcount := -1\<rparr>,
               rw_thr = [WrHeld, RwIdle]\<rparr>"

definition rw_demo2 :: rw_sys where
  "rw_demo2 = \<lparr>rw_lock = PTHREAD_RWLOCK_INITIALIZER\<lparr>rw_refcount := -1, rw_nwaitreaders := 1\<rparr>,
               rw_thr = [WrHeld, RdWait False]\<rparr>"

definition rw_demo3 :: rw_sys where
  "rw_demo3 = \<lparr>rw_lock = PTHREAD_RWLOCK_INITIALIZER\<lparr>rw_nwaitreaders := 1\<rparr>,
               rw_thr = [RwIdle, RdWait True]\<rparr>"

lemmas rw_demo_defs = rw_demo0_def rw_demo1_def rw_demo2_def rw_demo3_def
  PTHREAD_RWLOCK_INITIALIZER_def

lemma reach_rw_demo1: "reach rw_start rw_step rw_demo1"
proof (rule reach_step)
  show "reach rw_start rw_step rw_demo0"
    by (rule reach_start) (simp add: rw_start_def rw_demo_defs)
  show "rw_step rw_demo0 rw_demo1"
    using step_wrlock [of 0 rw_demo0 0 "RwReturn 0" "rw_lock rw_demo1"]
    by (simp add: rw_demo_defs rw_defs)
qed

lemma reach_rw_demo3: "reach rw_start rw_step rw_demo3"
proof (rule reach_step, rule reach_step)
  show "reach rw_start rw_step rw_demo1" by (rule reach_rw_demo1)
  show "rw_step rw_demo1 rw_demo2"
    using step_rdlock [of 1 rw_demo1 0 RwBlock "rw_lock rw_demo2"]
    by (simp add: rw_demo_defs rw_defs)
  show "rw_step rw_demo2 rw_demo3"
    using step_unlock [of 0 rw_demo2 0 0 WakeReaders "rw_lock rw_demo3" "rw_thr rw_demo3"]
      woken_readers [of "[RwIdle, RdWait False]"]
    by (simp add: rw_demo_defs rw_defs)
qed

theorem rw_writer_excludes_witness:
  "rw_thr rw_demo1 ! 0 = WrHeld \<and> rw_thr rw_demo1 ! 1 \<noteq> WrHeld \<and> rw_thr rw_demo1 ! 1 \<noteq> RdHeld"
  using rw_writer_excludes [OF reach_rw_demo1, of 0 1] by (simp add: rw_demo_defs)

text \<open>
  C23. No lost wake-up: when no thread holds the lock and a thread is blocked in a lock call,
  some blocked thread has been woken and takes the lock in one step.
\<close>

theorem rw_waiters_progress:
  assumes "reach rw_start rw_step s"
    and "RdHeld \<notin> set (rw_thr s)" "WrHeld \<notin> set (rw_thr s)"
    and "\<exists>x\<in>set (rw_thr s). is_rdwait x \<or> is_wrwait x"
  shows "\<exists>t i. rw_step s t \<and> i < length (rw_thr s) \<and>
     (rw_thr s ! i = RdWait True \<and> rw_thr t ! i = RdHeld \<or>
      rw_thr s ! i = WrWait True \<and> rw_thr t ! i = WrHeld)"
proof -
  have safe: "rw_safe s" and live: "rw_live s"
    using rwinv.reach_Inv [OF assms(1)] by (auto simp: rw_inv_def)
  have free: "rw_refcount (rw_lock s) = 0"
    using safe assms(2,3) icount_zero_iff [of "(=) RdHeld" "rw_thr s"]
      icount_zero_iff [of "(=) WrHeld" "rw_thr s"]
    by (auto simp: rw_safe_def split: if_splits)
  show ?thesis
  proof (cases "0 < rw_nwaitwriters (rw_lock s)")
    case True
    with live free obtain i where i: "i < length (rw_thr s)" "rw_thr s ! i = WrWait True"
      by (auto simp: rw_live_def in_set_conv_nth)
    from step_wrresume [OF i] i free show ?thesis
      by (force simp: wrlock_resume_def wrlock_test_def)
  next
    case False
    with safe have none: "rw_nwaitwriters (rw_lock s) = 0"
      using icount_nonneg [of is_wrwait "rw_thr s"] by (simp add: rw_safe_def)
    with safe assms(4) obtain b where "RdWait b \<in> set (rw_thr s)"
      by (auto simp: rw_safe_def icount_zero_iff elim: is_rdwait.elims)
    with live free none obtain i where i: "i < length (rw_thr s)" "rw_thr s ! i = RdWait True"
      by (cases b) (auto simp: rw_live_def in_set_conv_nth)
    from step_rdresume [OF i] i free none show ?thesis
      by (force simp: rdlock_resume_def rdlock_test_def)
  qed
qed

theorem rw_waiters_progress_witness:
  "\<exists>t i. rw_step rw_demo3 t \<and> i < length (rw_thr rw_demo3) \<and>
     (rw_thr rw_demo3 ! i = RdWait True \<and> rw_thr t ! i = RdHeld \<or>
      rw_thr rw_demo3 ! i = WrWait True \<and> rw_thr t ! i = WrHeld)"
  using rw_waiters_progress [OF reach_rw_demo3] by (simp add: rw_demo_defs)

text \<open>
  A thread that holds the lock releases it without reaching the \<open>err_dump\<close> of
  \<open>pthread_rwlock_unlock\<close>: the call returns and the lock has one holder less.
\<close>

theorem rw_unlock_returns:
  assumes "reach rw_start rw_step s" "i < length (rw_thr s)"
    and "rw_thr s ! i = RdHeld \<or> rw_thr s ! i = WrHeld"
  shows "\<exists>n k rw'. pthread_rwlock_unlock (rw_lock s) 0 rc = (RwReturn n, k, rw') \<and>
     rw_refcount rw' =
       (if rw_thr s ! i = RdHeld then rw_refcount (rw_lock s) - 1 else 0)"
proof -
  have safe: "rw_safe s" using assms(1) by (rule rwsafe.reach_Inv)
  then have "rw_magic (rw_lock s) = RW_MAGIC" by (simp add: rw_safe_def)
  with assms(3) rw_safe_reader [OF safe assms(2)] rw_safe_writer [OF safe assms(2)]
  show ?thesis by (auto simp: pthread_rwlock_unlock_def Let_def)
qed

theorem rw_unlock_returns_witness:
  "\<exists>n k rw'. pthread_rwlock_unlock (rw_lock rw_demo1) 0 0 = (RwReturn n, k, rw') \<and>
     rw_refcount rw' = 0"
  using rw_unlock_returns [OF reach_rw_demo1, of 0 0] by (simp add: rw_demo_defs)

text \<open>
  Initialisation that fails part-way leaves no object initialised that was not so before, and
  reports the error of the call that failed.
\<close>

lemma rw_init_failure:
  assumes "pthread_rwlock_init rw None m r w = (n, rw')" "n \<noteq> 0"
    and "\<not> rw_mutex rw" "\<not> rw_condreaders rw" "\<not> rw_condwriters rw"
  shows "rw' = rw \<and> n \<in> {m, r, w}"
  using assms by (auto simp: pthread_rwlock_init_def Let_def split: if_splits)

text \<open>
  The wrappers of the two \<open>try\<close> calls end the process when the lock is merely busy, which the
  functions they wrap report as an ordinary result.
\<close>

lemma rw_try_wrapper_dies_when_busy:
  assumes "rw_magic rw = RW_MAGIC" "rw_refcount rw = -1"
  shows "pthread_rwlock_tryrdlock rw 0 = (RwReturn EBUSY, rw)
    \<and> Pthread_rwlock_tryrdlock rw 0 = Dies ''pthread_rwlock_tryrdlock error''
    \<and> Pthread_rwlock_trywrlock rw 0 = Dies ''pthread_rwlock_trywrlock error''"
  using assms
  by (simp add: Pthread_rwlock_tryrdlock_def Pthread_rwlock_trywrlock_def
      pthread_rwlock_tryrdlock_def pthread_rwlock_trywrlock_def)

lemma rw_init_success:
  "fst (pthread_rwlock_init rw None 0 0 0) = 0 \<and>
   snd (pthread_rwlock_init rw None 0 0 0) = PTHREAD_RWLOCK_INITIALIZER"
  by (simp add: pthread_rwlock_init_def PTHREAD_RWLOCK_INITIALIZER_def Let_def)

end
