(* ===== verification/Rwlock_Cancel.thy ===== *)
theory Rwlock_Cancel
  imports Rwlock
begin

text \<open>
  The second read-write lock, \<open>unpv22e/my_rwlock_cancel\<close>: the waits install a cleanup handler,
  so that a thread cancelled while it is blocked takes itself out of the wait counters. The
  struct and the initialiser are those of \<open>Rwlock\<close>; the definitions here are the functions
  whose text differs. Two results are about behaviour the handlers miss: the lock calls return
  0 after a wait that failed, and the cancellation of a woken writer leaves readers asleep.
\<close>

section \<open>The operations\<close>

text \<open>The cleanup handlers, run with the mutex held.\<close>

definition rwlock_cancelrdwait :: "rwlock \<Rightarrow> rwlock" where
  "rwlock_cancelrdwait rw = rw\<lparr>rw_nwaitreaders := rw_nwaitreaders rw - 1\<rparr>"

definition rwlock_cancelwrwait :: "rwlock \<Rightarrow> rwlock" where
  "rwlock_cancelwrwait rw = rw\<lparr>rw_nwaitwriters := rw_nwaitwriters rw - 1\<rparr>"

text \<open>\<open>pthread_rwlock_rdlock\<close>: whatever the wait returned, the function returns 0.\<close>

definition cancel_rdlock :: "rwlock \<Rightarrow> int \<Rightarrow> rw_end \<times> rwlock" where
  "cancel_rdlock rw lock_rc =
     (if rw_magic rw \<noteq> RW_MAGIC then (RwReturn EINVAL, rw)
      else if lock_rc \<noteq> 0 then (RwReturn lock_rc, rw)
      else rdlock_test rw)"

definition cancel_rdlock_resume :: "rwlock \<Rightarrow> int \<Rightarrow> rw_end \<times> rwlock" where
  "cancel_rdlock_resume rw wait_rc =
     (let rw1 = rw\<lparr>rw_nwaitreaders := rw_nwaitreaders rw - 1\<rparr> in
      if wait_rc \<noteq> 0 then (RwReturn 0, rw1) else rdlock_test rw1)"

text \<open>
  \<open>pthread_rwlock_wrlock\<close>: the mutex call is tested against -1, so any error it returns
  runs on into the loop, and only keeps the lock from being taken at the end.
\<close>

definition cancel_wrlock :: "rwlock \<Rightarrow> int \<Rightarrow> rw_end \<times> rwlock" where
  "cancel_wrlock rw lock_rc =
     (if rw_magic rw \<noteq> RW_MAGIC then (RwReturn EINVAL, rw)
      else if lock_rc = -1 then (RwReturn lock_rc, rw)
      else if rw_refcount rw \<noteq> 0
      then (RwBlock, rw\<lparr>rw_nwaitwriters := rw_nwaitwriters rw + 1\<rparr>)
      else if lock_rc = 0 then (RwReturn 0, rw\<lparr>rw_refcount := -1\<rparr>)
      else (RwReturn 0, rw))"

definition cancel_wrlock_resume :: "rwlock \<Rightarrow> int \<Rightarrow> rw_end \<times> rwlock" where
  "cancel_wrlock_resume rw wait_rc =
     (let rw1 = rw\<lparr>rw_nwaitwriters := rw_nwaitwriters rw - 1\<rparr> in
      if wait_rc \<noteq> 0 then (RwReturn 0, rw1) else wrlock_test rw1)"

definition cancel_tryrdlock :: "rwlock \<Rightarrow> int \<Rightarrow> rw_end \<times> rwlock" where
  "cancel_tryrdlock rw lock_rc =
     (if rw_magic rw \<noteq> RW_MAGIC then (RwReturn EINVAL, rw)
      else if lock_rc \<noteq> 0 then (RwReturn lock_rc, rw)
      else if rw_refcount rw = -1 \<or> rw_nwaitwriters rw > 0 then (RwReturn EBUSY, rw)
      else (RwReturn 0, rw\<lparr>rw_refcount := rw_refcount rw + 1\<rparr>))"

definition cancel_trywrlock :: "rwlock \<Rightarrow> int \<Rightarrow> rw_end \<times> rwlock" where
  "cancel_trywrlock rw lock_rc =
     (if rw_magic rw \<noteq> RW_MAGIC then (RwReturn EINVAL, rw)
      else if lock_rc \<noteq> 0 then (RwReturn lock_rc, rw)
      else if rw_refcount rw \<noteq> 0 then (RwReturn EBUSY, rw)
      else (RwReturn 0, rw\<lparr>rw_refcount := -1\<rparr>))"

text \<open>The release signals a writer whenever one waits, also while readers remain.\<close>

definition cancel_unlock :: "rwlock \<Rightarrow> int \<Rightarrow> int \<Rightarrow> rw_end \<times> rw_wake \<times> rwlock" where
  "cancel_unlock rw lock_rc sig_rc =
     (if rw_magic rw \<noteq> RW_MAGIC then (RwReturn EINVAL, WakeNone, rw)
      else if lock_rc \<noteq> 0 then (RwReturn lock_rc, WakeNone, rw)
      else if rw_refcount rw > 0 \<or> rw_refcount rw = -1 then
        let rw1 = (if rw_refcount rw > 0 then rw\<lparr>rw_refcount := rw_refcount rw - 1\<rparr>
                   else rw\<lparr>rw_refcount := 0\<rparr>);
            k = (if rw_nwaitwriters rw1 > 0 then WakeWriter
                 else if rw_nwaitreaders rw1 > 0 then WakeReaders else WakeNone)
        in (RwReturn (if k = WakeNone then 0 else sig_rc), k, rw1)
      else (RwAbort, WakeNone, rw))"

definition cancel_init ::
  "rwlock \<Rightarrow> int option \<Rightarrow> int \<Rightarrow> int \<Rightarrow> int \<Rightarrow> int \<times> rwlock" where
  "cancel_init rw attr m r w =
     (if attr \<noteq> None then (EINVAL, rw)
      else if m \<noteq> 0 then (m, rw)
      else
        let rw1 = rw\<lparr>rw_mutex := True\<rparr> in
        if r \<noteq> 0 then (r, rw1\<lparr>rw_mutex := False\<rparr>)
        else
          let rw2 = rw1\<lparr>rw_condreaders := True\<rparr> in
          if w \<noteq> 0 then (w, rw2\<lparr>rw_condreaders := False, rw_mutex := False\<rparr>)
          else
            (0, rw2\<lparr>rw_condwriters := True, rw_nwaitreaders := 0, rw_nwaitwriters := 0,
                    rw_refcount := 0, rw_magic := RW_MAGIC\<rparr>))"

definition cancel_destroy :: "rwlock \<Rightarrow> int \<times> rwlock" where
  "cancel_destroy rw =
     (if rw_magic rw \<noteq> RW_MAGIC then (EINVAL, rw)
      else if rw_refcount rw \<noteq> 0 \<or> rw_nwaitreaders rw \<noteq> 0 \<or> rw_nwaitwriters rw \<noteq> 0
      then (EBUSY, rw)
      else (0, rw\<lparr>rw_mutex := False, rw_condreaders := False, rw_condwriters := False,
                  rw_magic := 0\<rparr>))"

lemmas rwc_defs [seg_defs] =
  rwlock_cancelrdwait_def rwlock_cancelwrwait_def cancel_rdlock_def cancel_rdlock_resume_def
  cancel_wrlock_def cancel_wrlock_resume_def cancel_tryrdlock_def cancel_trywrlock_def
  cancel_unlock_def

section \<open>Threads that can be cancelled\<close>

text \<open>
  The steps of \<open>Rwlock\<close> with the functions above, and two more: a thread blocked in either
  wait is cancelled, runs its handler and ends. The mutex calls succeed.
\<close>

inductive rwc_step :: "rw_sys \<Rightarrow> rw_sys \<Rightarrow> bool" where
  cstep_rd: "i < length (rw_thr s) \<Longrightarrow>
    rw_thr s ! i = RwIdle \<and> (cancel_rdlock (rw_lock s) 0 = (e, rw') \<or>
                             cancel_tryrdlock (rw_lock s) 0 = (e, rw')) \<or>
    rw_thr s ! i = RdWait True \<and> cancel_rdlock_resume (rw_lock s) 0 = (e, rw') \<Longrightarrow>
    rwc_step s \<lparr>rw_lock = rw', rw_thr = (rw_thr s)[i := rd_next e]\<rparr>"
| cstep_wr: "i < length (rw_thr s) \<Longrightarrow>
    rw_thr s ! i = RwIdle \<and> (cancel_wrlock (rw_lock s) 0 = (e, rw') \<or>
                             cancel_trywrlock (rw_lock s) 0 = (e, rw')) \<or>
    rw_thr s ! i = WrWait True \<and> cancel_wrlock_resume (rw_lock s) 0 = (e, rw') \<Longrightarrow>
    rwc_step s \<lparr>rw_lock = rw', rw_thr = (rw_thr s)[i := wr_next e]\<rparr>"
| cstep_unlock: "i < length (rw_thr s) \<Longrightarrow> rw_thr s ! i = RdHeld \<or> rw_thr s ! i = WrHeld \<Longrightarrow>
    cancel_unlock (rw_lock s) 0 rc = (RwReturn n, k, rw') \<Longrightarrow>
    rw_woken k ((rw_thr s)[i := RwIdle]) ts \<Longrightarrow>
    rwc_step s \<lparr>rw_lock = rw', rw_thr = ts\<rparr>"
| cstep_cancel_rd: "i < length (rw_thr s) \<Longrightarrow> rw_thr s ! i = RdWait b \<Longrightarrow>
    rwc_step s \<lparr>rw_lock = rwlock_cancelrdwait (rw_lock s), rw_thr = (rw_thr s)[i := RwGone]\<rparr>"
| cstep_cancel_wr: "i < length (rw_thr s) \<Longrightarrow> rw_thr s ! i = WrWait b \<Longrightarrow>
    rwc_step s \<lparr>rw_lock = rwlock_cancelwrwait (rw_lock s), rw_thr = (rw_thr s)[i := RwGone]\<rparr>"
| cstep_spurious: "i < length (rw_thr s) \<Longrightarrow>
    rw_thr s ! i = RdWait False \<and> x = RdWait True \<or> rw_thr s ! i = WrWait False \<and> x = WrWait True \<Longrightarrow>
    rwc_step s (s\<lparr>rw_thr := (rw_thr s)[i := x]\<rparr>)"

section \<open>Cancellation keeps the counters right\<close>

lemma rwc_unlock_safe:
  assumes safe: "rw_safe s" and i: "i < length (rw_thr s)"
    and held: "rw_thr s ! i = RdHeld \<or> rw_thr s ! i = WrHeld"
    and call: "cancel_unlock (rw_lock s) 0 rc = (RwReturn n, k, rw')"
    and woken: "rw_woken k ((rw_thr s)[i := RwIdle]) ts"
  shows "rw_safe \<lparr>rw_lock = rw', rw_thr = ts\<rparr>"
  using held
proof
  assume h: "rw_thr s ! i = RdHeld"
  with safe i have "0 < rw_refcount (rw_lock s)" by (rule rw_safe_reader)
  with safe i h call rw_woken_counts [OF woken] show ?thesis
    by (auto simp: rw_safe_def cancel_unlock_def Let_def split: if_splits)
next
  assume h: "rw_thr s ! i = WrHeld"
  with safe i have "rw_refcount (rw_lock s) = -1" by (rule rw_safe_writer)
  with safe i h call rw_woken_counts [OF woken] show ?thesis
    by (auto simp: rw_safe_def cancel_unlock_def Let_def split: if_splits)
qed

lemma rwc_rd_safe:
  assumes "rw_safe s" "i < length (rw_thr s)" "rw_thr s ! i = RwIdle"
    and call: "cancel_rdlock (rw_lock s) 0 = (e, rw') \<or> cancel_tryrdlock (rw_lock s) 0 = (e, rw')"
  shows "rw_safe \<lparr>rw_lock = rw', rw_thr = (rw_thr s)[i := rd_next e]\<rparr>"
proof (rule rw_rd_safe [OF assms(1-3)])
  show "(\<exists>n. n \<noteq> 0 \<and> (e, rw') = (RwReturn n, rw_lock s)) \<or> (e, rw') = rdlock_test (rw_lock s)"
    using call rw_safe_refcount_ge [OF assms(1)]
    by (auto simp: cancel_rdlock_def cancel_tryrdlock_def rdlock_test_def split: if_splits)
qed

lemma rwc_wr_safe:
  assumes "rw_safe s" "i < length (rw_thr s)" "rw_thr s ! i = RwIdle"
    and call: "cancel_wrlock (rw_lock s) 0 = (e, rw') \<or> cancel_trywrlock (rw_lock s) 0 = (e, rw')"
  shows "rw_safe \<lparr>rw_lock = rw', rw_thr = (rw_thr s)[i := wr_next e]\<rparr>"
proof (rule rw_wr_safe [OF assms(1-3)])
  show "(\<exists>n. n \<noteq> 0 \<and> (e, rw') = (RwReturn n, rw_lock s)) \<or> (e, rw') = wrlock_test (rw_lock s)"
    using call by (auto simp: cancel_wrlock_def cancel_trywrlock_def wrlock_test_def split: if_splits)
qed

lemma rwc_step_safe:
  assumes "rwc_step s t" "rw_safe s"
  shows "rw_safe t"
  using assms(1)
proof (cases rule: rwc_step.cases)
  case (cstep_rd i e rw')
  then show ?thesis
    using rwc_rd_safe [OF assms(2)] rw_rd_safe [OF rw_safe_rd_unwait [OF assms(2)], of i True i e rw']
    by (auto simp: cancel_rdlock_resume_def)
next
  case (cstep_wr i e rw')
  then show ?thesis
    using rwc_wr_safe [OF assms(2)] rw_wr_safe [OF rw_safe_wr_unwait [OF assms(2)], of i True i e rw']
    by (auto simp: cancel_wrlock_resume_def)
next
  case cstep_unlock
  with assms(2) show ?thesis by (auto intro: rwc_unlock_safe)
next
  case cstep_cancel_rd
  with assms(2) show ?thesis by (simp add: rw_safe_def rwlock_cancelrdwait_def)
next
  case cstep_cancel_wr
  with assms(2) show ?thesis by (simp add: rw_safe_def rwlock_cancelwrwait_def)
next
  case cstep_spurious
  with assms(2) show ?thesis by (auto simp: rw_safe_def)
qed

interpretation rwcsafe: inductive_invariant rw_start rwc_step rw_safe
  by unfold_locales (auto intro: rw_start_safe rwc_step_safe)

section \<open>Properties\<close>

text \<open>
  With cancellation the counters still agree with the threads in every reachable state: the
  wait counters count exactly the threads that are blocked (cancelled threads are not among
  them), and a writer excludes every other holder.
\<close>

theorem rwc_counters_exact:
  assumes "reach rw_start rwc_step s"
  shows "rw_nwaitreaders (rw_lock s) = icount is_rdwait (rw_thr s)
    \<and> rw_nwaitwriters (rw_lock s) = icount is_wrwait (rw_thr s)
    \<and> icount ((=) WrHeld) (rw_thr s) \<le> 1
    \<and> (if WrHeld \<in> set (rw_thr s) then RdHeld \<notin> set (rw_thr s) \<and> rw_refcount (rw_lock s) = -1
       else rw_refcount (rw_lock s) = icount ((=) RdHeld) (rw_thr s))"
  using rwcsafe.reach_Inv [OF assms] icount_zero_iff [of "(=) WrHeld" "rw_thr s"]
    icount_zero_iff [of "(=) RdHeld" "rw_thr s"]
  by (auto simp: rw_safe_def split: if_splits)

text \<open>
  The run behind the lost wake-up. Thread 0 holds the lock for reading, thread 1 waits to
  write, thread 2 waits to read behind the writer; thread 0 releases, which wakes the writer,
  and the writer is cancelled before it takes the mutex.
\<close>

definition rwc_demo :: "nat \<Rightarrow> rw_sys" where
  "rwc_demo n =
     (if n = 0 then \<lparr>rw_lock = PTHREAD_RWLOCK_INITIALIZER, rw_thr = [RwIdle, RwIdle, RwIdle]\<rparr>
      else if n = 1 then \<lparr>rw_lock = PTHREAD_RWLOCK_INITIALIZER\<lparr>rw_refcount := 1\<rparr>,
                          rw_thr = [RdHeld, RwIdle, RwIdle]\<rparr>
      else if n = 2 then \<lparr>rw_lock = PTHREAD_RWLOCK_INITIALIZER\<lparr>rw_refcount := 1,
                                       rw_nwaitwriters := 1\<rparr>,
                          rw_thr = [RdHeld, WrWait False, RwIdle]\<rparr>
      else if n = 3 then \<lparr>rw_lock = PTHREAD_RWLOCK_INITIALIZER\<lparr>rw_refcount := 1,
                                       rw_nwaitwriters := 1, rw_nwaitreaders := 1\<rparr>,
                          rw_thr = [RdHeld, WrWait False, RdWait False]\<rparr>
      else if n = 4 then \<lparr>rw_lock = PTHREAD_RWLOCK_INITIALIZER\<lparr>
                                       rw_nwaitwriters := 1, rw_nwaitreaders := 1\<rparr>,
                          rw_thr = [RwIdle, WrWait True, RdWait False]\<rparr>
      else \<lparr>rw_lock = PTHREAD_RWLOCK_INITIALIZER\<lparr>rw_nwaitreaders := 1\<rparr>,
            rw_thr = [RwIdle, RwGone, RdWait False]\<rparr>)"

lemmas rwc_demo_defs = rwc_demo_def PTHREAD_RWLOCK_INITIALIZER_def rwc_defs rdlock_test_def
  wrlock_test_def

lemma rwc_demo_steps:
  "rwc_step (rwc_demo 0) (rwc_demo 1)" "rwc_step (rwc_demo 1) (rwc_demo 2)"
  "rwc_step (rwc_demo 2) (rwc_demo 3)" "rwc_step (rwc_demo 3) (rwc_demo 4)"
  "rwc_step (rwc_demo 4) (rwc_demo 5)"
proof -
  show "rwc_step (rwc_demo 0) (rwc_demo 1)"
    using cstep_rd [of 0 "rwc_demo 0" "RwReturn 0" "rw_lock (rwc_demo 1)"]
    by (simp add: rwc_demo_defs)
  show "rwc_step (rwc_demo 1) (rwc_demo 2)"
    using cstep_wr [of 1 "rwc_demo 1" RwBlock "rw_lock (rwc_demo 2)"]
    by (simp add: rwc_demo_defs)
  show "rwc_step (rwc_demo 2) (rwc_demo 3)"
    using cstep_rd [of 2 "rwc_demo 2" RwBlock "rw_lock (rwc_demo 3)"]
    by (simp add: rwc_demo_defs)
  show "rwc_step (rwc_demo 3) (rwc_demo 4)"
    using cstep_unlock [of 0 "rwc_demo 3" 0 0 WakeWriter "rw_lock (rwc_demo 4)"
        "rw_thr (rwc_demo 4)"] woken_writer [of 1 "[RwIdle, WrWait False, RdWait False]"]
    by (simp add: rwc_demo_defs)
  show "rwc_step (rwc_demo 4) (rwc_demo 5)"
    using cstep_cancel_wr [of 1 "rwc_demo 4" True] by (simp add: rwc_demo_defs)
qed

lemma reach_rwc_demo5: "reach rw_start rwc_step (rwc_demo 5)"
proof -
  have 0: "reach rw_start rwc_step (rwc_demo 0)"
    by (rule reach_start) (simp add: rw_start_def rwc_demo_defs)
  note 1 = reach_step [OF 0 rwc_demo_steps(1)]
  note 2 = reach_step [OF 1 rwc_demo_steps(2)]
  note 3 = reach_step [OF 2 rwc_demo_steps(3)]
  note 4 = reach_step [OF 3 rwc_demo_steps(4)]
  show ?thesis by (rule reach_step [OF 4 rwc_demo_steps(5)])
qed

theorem rwc_counters_exact_witness:
  "rw_nwaitwriters (rw_lock (rwc_demo 5)) = icount is_wrwait (rw_thr (rwc_demo 5)) \<and>
   rw_nwaitreaders (rw_lock (rwc_demo 5)) = 1"
  using rwc_counters_exact [OF reach_rwc_demo5] by (simp add: rwc_demo_defs)

text \<open>
  The cancellation of a woken writer loses the wake-up: a state is reachable in which the
  lock is free, no writer waits, a reader is blocked, no blocked thread is woken and no thread
  holds the lock whose release could wake the reader: it sleeps on a free lock.
\<close>

theorem rwc_cancel_loses_wakeup:
  "\<exists>s. reach rw_start rwc_step s \<and> rw_refcount (rw_lock s) = 0 \<and> rw_nwaitwriters (rw_lock s) = 0
     \<and> RdWait False \<in> set (rw_thr s) \<and> RdWait True \<notin> set (rw_thr s)
     \<and> WrWait True \<notin> set (rw_thr s) \<and> RdHeld \<notin> set (rw_thr s) \<and> WrHeld \<notin> set (rw_thr s)"
  using reach_rwc_demo5 by (intro exI conjI, assumption) (simp_all add: rwc_demo_defs)

text \<open>
  After a wait that fails with an error the lock calls return 0, success, although the
  lock has not been taken: the reference count is unchanged. The first version of the lock
  returns the error.
\<close>

theorem rwc_wait_error_swallowed:
  assumes "rc \<noteq> 0"
  shows "fst (cancel_rdlock_resume rw rc) = RwReturn 0
    \<and> rw_refcount (snd (cancel_rdlock_resume rw rc)) = rw_refcount rw
    \<and> fst (cancel_wrlock_resume rw rc) = RwReturn 0
    \<and> rw_refcount (snd (cancel_wrlock_resume rw rc)) = rw_refcount rw
    \<and> fst (rdlock_resume rw rc) = RwReturn rc \<and> fst (wrlock_resume rw rc) = RwReturn rc"
  using assms
  by (simp add: cancel_rdlock_resume_def cancel_wrlock_resume_def rdlock_resume_def
      wrlock_resume_def Let_def)

theorem rwc_wait_error_swallowed_witness:
  "fst (cancel_rdlock_resume (rw_lock (rwc_demo 3)) EINVAL) = RwReturn 0 \<and>
   fst (rdlock_resume (rw_lock (rwc_demo 3)) EINVAL) = RwReturn EINVAL"
  using rwc_wait_error_swallowed [of EINVAL "rw_lock (rwc_demo 3)"] by simp

text \<open>Initialisation and destruction are those of the first version.\<close>

lemma cancel_init_eq: "cancel_init = pthread_rwlock_init"
  by (simp add: fun_eq_iff cancel_init_def pthread_rwlock_init_def)

lemma cancel_destroy_eq: "cancel_destroy = pthread_rwlock_destroy"
  by (simp add: fun_eq_iff cancel_destroy_def pthread_rwlock_destroy_def)

end
