(* ===== verification/Pxsem.thy ===== *)
theory Pxsem
  imports Prelude
begin

text \<open>
  The contract of a counting semaphore, which three components implement: over shared memory
  (\<open>unpv22e/my_pxsem_mmap\<close>, theory \<open>Pxsem_Mmap\<close>), over a FIFO (\<open>my_pxsem_fifo\<close>, \<open>Pxsem_Fifo\<close>) and over a
  System V semaphore (\<open>my_pxsem_svsem\<close>, \<open>Pxsem_Svsem\<close>).
\<close>

text \<open>
  A sequence of waits (\<open>True\<close>) and posts (\<open>False\<close>): \<open>None\<close> where one of them blocks or fails.
\<close>

fun sem_run :: "('s \<Rightarrow> 's option) \<Rightarrow> ('s \<Rightarrow> 's option) \<Rightarrow> 's \<Rightarrow> bool list \<Rightarrow> 's option" where
  "sem_run down up s [] = Some s"
| "sem_run down up s (True # bs) =
     (case down s of None \<Rightarrow> None | Some t \<Rightarrow> sem_run down up t bs)"
| "sem_run down up s (False # bs) =
     (case up s of None \<Rightarrow> None | Some t \<Rightarrow> sem_run down up t bs)"

text \<open>
  \<open>valid\<close> is the state an open semaphore is in, \<open>count\<close> its value, \<open>down s = None\<close> a wait
  that blocks and \<open>up s = None\<close> a post that fails.
\<close>

locale counting_semaphore =
  fixes valid :: "'s \<Rightarrow> bool" and count :: "'s \<Rightarrow> nat" and room :: "'s \<Rightarrow> bool"
    and down :: "'s \<Rightarrow> 's option" and up :: "'s \<Rightarrow> 's option"
  assumes down_blocks: "valid s \<Longrightarrow> count s = 0 \<Longrightarrow> down s = None"
    and down_takes: "valid s \<Longrightarrow> 0 < count s \<Longrightarrow>
      \<exists>t. down s = Some t \<and> valid t \<and> count s = Suc (count t)"
    and up_gives: "valid s \<Longrightarrow> room s \<Longrightarrow>
      \<exists>t. up s = Some t \<and> valid t \<and> count t = Suc (count s)"
    and up_full: "valid s \<Longrightarrow> \<not> room s \<Longrightarrow> up s = None"
begin

lemma down_valid:
  assumes "valid s" "down s = Some t"
  shows "valid t \<and> count s = Suc (count t)"
  using assms down_blocks [of s] down_takes [of s] by (cases "count s") auto

lemma up_valid:
  assumes "valid s" "up s = Some t"
  shows "valid t \<and> count t = Suc (count s)"
  using assms up_gives [of s] up_full [of s] by (cases "room s") auto

text \<open>The conservation law: the value is the initial value plus the posts less the waits.\<close>

lemma conservation:
  assumes "valid s" "sem_run down up s bs = Some t"
  shows "valid t \<and> count t + length (filter (\<lambda>b. b) bs) =
    count s + length (filter Not bs)"
  using assms
proof (induction bs arbitrary: s)
  case Nil
  then show ?case by simp
next
  case (Cons b bs)
  then show ?case by (cases b) (force split: option.splits dest: down_valid up_valid)+
qed

text \<open>A post enables a wait, and the pair leaves the value unchanged.\<close>

lemma up_down:
  assumes "valid s" "up s = Some t"
  shows "\<exists>u. down t = Some u \<and> valid u \<and> count u = count s"
  using up_valid [OF assms] down_takes [of t] by auto

end

section \<open>Opening a semaphore that another process may be initialising\<close>

text \<open>
  The open functions over a mapped file create the file with the user-execute bit set and clear
  the bit when the contents are initialised; the other processes poll the bit, at most
  \<open>MAX_TRIES\<close> times. \<open>st i\<close> is the \<open>i\<close>-th call of \<open>stat\<close>: an errno or the bit.
\<close>

definition MAX_TRIES :: nat where
  "MAX_TRIES = 10"

datatype poll_result = PollReady | PollAgain | PollErr int

fun poll_init :: "(nat \<Rightarrow> int + bool) \<Rightarrow> bool \<Rightarrow> nat \<Rightarrow> nat \<Rightarrow> poll_result" where
  "poll_init st creat i 0 = PollErr ETIMEDOUT"
| "poll_init st creat i (Suc n) =
     (case st i of
        Inl e \<Rightarrow> if e = ENOENT \<and> creat then PollAgain else PollErr e
      | Inr x \<Rightarrow> if \<not> x then PollReady else poll_init st creat (Suc i) n)"

lemma poll_init_ready:
  "poll_init st creat i n = PollReady \<longleftrightarrow>
     (\<exists>k<n. st (i + k) = Inr False \<and> (\<forall>j<k. st (i + j) = Inr True))"
proof (induction n arbitrary: i)
  case 0
  then show ?case by simp
next
  case (Suc n)
  show ?case
  proof (cases "st i")
    case (Inl e)
    then have "\<not> (\<exists>k<Suc n. st (i + k) = Inr False \<and> (\<forall>j<k. st (i + j) = Inr True))"
      by (metis Nat.add_0_right gr0I sum.distinct(1))
    with Inl show ?thesis by simp
  next
    case (Inr x)
    show ?thesis
    proof (cases x)
      case True
      with Inr Suc show ?thesis
        by (simp add: Ex_less_Suc2 All_less_Suc2)
    next
      case False
      with Inr show ?thesis by force
    qed
  qed
qed

lemma poll_init_again: "poll_init st creat i n = PollAgain \<Longrightarrow> creat"
  by (induction n arbitrary: i) (auto split: sum.splits if_splits)

end
