(* ===== verification/Pxsem_Mmap.thy ===== *)
theory Pxsem_Mmap
  imports Pxsem
begin

text \<open>
  The semaphore of \<open>unpv22e/my_pxsem_mmap\<close>: a mutex, a condition variable and a counter in a
  memory-mapped file. The operations are segments between blocking points, as in the
  read-write lock; \<open>mysem_open\<close> takes the results of its system calls from an environment.
\<close>

section \<open>The operations on an open semaphore\<close>

record mysem =
  sem_mutex :: bool
  sem_cond :: bool
  sem_count :: "32 word"
  sem_magic :: int

definition SEM_MAGIC :: int where
  "SEM_MAGIC = 0x67458923"

datatype sem_end = SemOk | SemErr int | SemBlock

text \<open>\<open>lock_rc\<close> is what \<open>pthread_mutex_lock\<close> returns.\<close>

definition mysem_wait_test :: "mysem \<Rightarrow> sem_end \<times> mysem" where
  "mysem_wait_test sem =
     (if sem_count sem = 0 then (SemBlock, sem)
      else (SemOk, sem\<lparr>sem_count := sem_count sem - 1\<rparr>))"

definition mysem_wait :: "mysem \<Rightarrow> int \<Rightarrow> sem_end \<times> mysem" where
  "mysem_wait sem lock_rc =
     (if sem_magic sem \<noteq> SEM_MAGIC then (SemErr EINVAL, sem)
      else if lock_rc \<noteq> 0 then (SemErr lock_rc, sem)
      else mysem_wait_test sem)"

definition mysem_trywait :: "mysem \<Rightarrow> int \<Rightarrow> sem_end \<times> mysem" where
  "mysem_trywait sem lock_rc =
     (if sem_magic sem \<noteq> SEM_MAGIC then (SemErr EINVAL, sem)
      else if lock_rc \<noteq> 0 then (SemErr lock_rc, sem)
      else if sem_count sem > 0 then (SemOk, sem\<lparr>sem_count := sem_count sem - 1\<rparr>)
      else (SemErr EAGAIN, sem))"

text \<open>The second component says whether the condition variable is signalled.\<close>

definition mysem_post :: "mysem \<Rightarrow> int \<Rightarrow> sem_end \<times> bool \<times> mysem" where
  "mysem_post sem lock_rc =
     (if sem_magic sem \<noteq> SEM_MAGIC then (SemErr EINVAL, False, sem)
      else if lock_rc \<noteq> 0 then (SemErr lock_rc, False, sem)
      else (SemOk, sem_count sem = 0, sem\<lparr>sem_count := sem_count sem + 1\<rparr>))"

text \<open>\<open>*pvalue\<close> is an \<open>int\<close>: the value is the counter read as a signed number.\<close>

definition mysem_getvalue :: "mysem \<Rightarrow> int \<Rightarrow> int + int" where
  "mysem_getvalue sem lock_rc =
     (if sem_magic sem \<noteq> SEM_MAGIC then Inl EINVAL
      else if lock_rc \<noteq> 0 then Inl lock_rc
      else Inr (sint (sem_count sem)))"

text \<open>\<open>unmap_rc\<close> is the errno of \<open>munmap\<close>, or 0.\<close>

definition mysem_close :: "mysem \<Rightarrow> int \<Rightarrow> int + unit" where
  "mysem_close sem unmap_rc =
     (if sem_magic sem \<noteq> SEM_MAGIC then Inl EINVAL
      else if unmap_rc \<noteq> 0 then Inl unmap_rc
      else Inr ())"

definition mysem_unlink :: "int \<Rightarrow> int + unit" where
  "mysem_unlink unlink_rc = (if unlink_rc \<noteq> 0 then Inl unlink_rc else Inr ())"

text \<open>The wrappers end the process on an error; that of \<open>mysem_trywait\<close> lets \<open>EAGAIN\<close> pass.\<close>

fun sem_checked :: "string \<Rightarrow> sem_end \<Rightarrow> sem_end outcome" where
  "sem_checked msg (SemErr e) = Dies msg"
| "sem_checked msg e = Returns e"

definition Mysem_wait :: "mysem \<Rightarrow> int \<Rightarrow> (sem_end \<times> mysem) outcome" where
  "Mysem_wait sem lock_rc =
     (case mysem_wait sem lock_rc of
        (e, sem') \<Rightarrow> bind_outcome (sem_checked ''mysem_wait error'' e) (\<lambda>r. Returns (r, sem')))"

definition Mysem_post :: "mysem \<Rightarrow> int \<Rightarrow> (bool \<times> mysem) outcome" where
  "Mysem_post sem lock_rc =
     (case mysem_post sem lock_rc of
        (e, w, sem') \<Rightarrow> bind_outcome (sem_checked ''mysem_post error'' e) (\<lambda>r. Returns (w, sem')))"

definition Mysem_trywait :: "mysem \<Rightarrow> int \<Rightarrow> (sem_end \<times> mysem) outcome" where
  "Mysem_trywait sem lock_rc =
     (case mysem_trywait sem lock_rc of
        (SemErr e, sem') \<Rightarrow>
          if e \<noteq> EAGAIN then Dies ''mysem_trywait error'' else Returns (SemErr e, sem')
      | (r, sem') \<Rightarrow> Returns (r, sem'))"

lemmas sem_defs [seg_defs] =
  mysem_wait_test_def mysem_wait_def mysem_trywait_def mysem_post_def

section \<open>The contract\<close>

text \<open>The semaphore as the contract sees it: a wait that blocks is \<open>None\<close>.\<close>

definition mmap_valid :: "mysem \<Rightarrow> bool" where
  "mmap_valid sem \<longleftrightarrow> sem_magic sem = SEM_MAGIC"

definition mmap_down :: "mysem \<Rightarrow> mysem option" where
  "mmap_down sem = (case mysem_wait sem 0 of (SemOk, sem') \<Rightarrow> Some sem' | _ \<Rightarrow> None)"

text \<open>A post of a semaphore at its largest value succeeds in the code and wraps to 0.\<close>

definition mmap_up :: "mysem \<Rightarrow> mysem option" where
  "mmap_up sem =
     (if sem_count sem = -1 then None
      else case mysem_post sem 0 of (SemOk, _, sem') \<Rightarrow> Some sem' | _ \<Rightarrow> None)"

lemma unat_pred32: "(w :: 32 word) \<noteq> 0 \<Longrightarrow> unat w = Suc (unat (w - 1))"
  by (metis add.commute diff_add_cancel unatSuc)

lemma unat_succ32: "(w :: 32 word) \<noteq> -1 \<Longrightarrow> unat (w + 1) = Suc (unat w)"
  by (metis add.commute add_eq_0_iff2 unatSuc)

interpretation mmap_sem: counting_semaphore
  mmap_valid "\<lambda>s. unat (sem_count s)" "\<lambda>s. sem_count s \<noteq> -1" mmap_down mmap_up
proof unfold_locales
  fix s
  assume "mmap_valid s"
  note v = this [unfolded mmap_valid_def]
  show "unat (sem_count s) = 0 \<Longrightarrow> mmap_down s = None"
    using v by (simp add: mmap_down_def sem_defs unat_eq_0)
  show "0 < unat (sem_count s) \<Longrightarrow> \<exists>t. mmap_down s = Some t \<and> mmap_valid t \<and>
      unat (sem_count s) = Suc (unat (sem_count t))"
    using v by (auto simp: mmap_down_def sem_defs mmap_valid_def unat_gt_0 unat_pred32)
  show "sem_count s \<noteq> -1 \<Longrightarrow> \<exists>t. mmap_up s = Some t \<and> mmap_valid t \<and>
      unat (sem_count t) = Suc (unat (sem_count s))"
    using v by (simp add: mmap_up_def sem_defs mmap_valid_def unat_succ32)
  show "\<not> sem_count s \<noteq> -1 \<Longrightarrow> mmap_up s = None"
    by (simp add: mmap_up_def)
qed

section \<open>Threads that wait\<close>

text \<open>
  The threads that use a semaphore: running, or blocked in \<open>pthread_cond_wait\<close>, woken or not.
  The two counters record the waits that returned and the posts.
\<close>

datatype sem_thread = SemRun | SemWait bool

record sem_sys =
  ss_sem :: mysem
  ss_thr :: "sem_thread list"
  ss_taken :: nat
  ss_posted :: nat

text \<open>
  The events: thread \<open>i\<close> calls \<open>mysem_wait\<close>, or takes the mutex again after it was woken; a
  post, with the thread its signal wakes; a wake-up with no signal.
\<close>

datatype sem_event = SeWait nat | SeResume nat | SePost "nat option" | SeSpurious nat

definition sem_enter :: "sem_sys \<Rightarrow> nat \<Rightarrow> sem_end \<times> mysem \<Rightarrow> sem_sys" where
  "sem_enter s i r =
     (case r of
        (SemOk, sem') \<Rightarrow> s\<lparr>ss_sem := sem', ss_thr := (ss_thr s)[i := SemRun],
                          ss_taken := Suc (ss_taken s)\<rparr>
      | (SemErr _, sem') \<Rightarrow> s\<lparr>ss_sem := sem', ss_thr := (ss_thr s)[i := SemRun]\<rparr>
      | (SemBlock, sem') \<Rightarrow> s\<lparr>ss_sem := sem', ss_thr := (ss_thr s)[i := SemWait False]\<rparr>)"

fun sem_exec :: "sem_sys \<Rightarrow> sem_event \<Rightarrow> sem_sys option" where
  "sem_exec s (SeWait i) =
     (if i < length (ss_thr s) \<and> ss_thr s ! i = SemRun
      then Some (sem_enter s i (mysem_wait (ss_sem s) 0)) else None)"
| "sem_exec s (SeResume i) =
     (if i < length (ss_thr s) \<and> ss_thr s ! i = SemWait True
      then Some (sem_enter s i (mysem_wait_test (ss_sem s))) else None)"
| "sem_exec s (SePost w) =
     (case mysem_post (ss_sem s) 0 of
        (SemOk, signal, sem') \<Rightarrow>
          let s1 = s\<lparr>ss_sem := sem', ss_posted := Suc (ss_posted s)\<rparr> in
          (case w of
             None \<Rightarrow> if signal \<and> SemWait False \<in> set (ss_thr s) then None else Some s1
           | Some j \<Rightarrow> if signal \<and> j < length (ss_thr s) \<and> ss_thr s ! j = SemWait False
                       then Some (s1\<lparr>ss_thr := (ss_thr s)[j := SemWait True]\<rparr>) else None)
      | _ \<Rightarrow> None)"
| "sem_exec s (SeSpurious i) =
     (if i < length (ss_thr s) \<and> ss_thr s ! i = SemWait False
      then Some (s\<lparr>ss_thr := (ss_thr s)[i := SemWait True]\<rparr>) else None)"

definition sem_init :: "nat \<Rightarrow> 32 word \<Rightarrow> sem_sys" where
  "sem_init n v =
     \<lparr>ss_sem = \<lparr>sem_mutex = True, sem_cond = True, sem_count = v, sem_magic = SEM_MAGIC\<rparr>,
      ss_thr = replicate n SemRun, ss_taken = 0, ss_posted = 0\<rparr>"

subsection \<open>Every unit is accounted for\<close>

text \<open>As long as the posts do not overflow the counter.\<close>

definition sem_account :: "nat \<Rightarrow> sem_sys \<Rightarrow> bool" where
  "sem_account v s \<longleftrightarrow>
     sem_magic (ss_sem s) = SEM_MAGIC \<and>
     (v + ss_posted s < 2 ^ 32 \<longrightarrow>
        unat (sem_count (ss_sem s)) + ss_taken s = v + ss_posted s)"

lemma sem_enter_account:
  "sem_account v s \<Longrightarrow> sem_account v (sem_enter s i (mysem_wait_test (ss_sem s)))"
  by (auto simp: sem_account_def sem_enter_def mysem_wait_test_def unat_pred32)

lemma sem_post_account:
  assumes "sem_account v s"
  shows "sem_account v (s\<lparr>ss_sem := (ss_sem s)\<lparr>sem_count := sem_count (ss_sem s) + 1\<rparr>,
                         ss_posted := Suc (ss_posted s)\<rparr>)"
proof (cases "sem_count (ss_sem s) = -1")
  case True
  then have "unat (sem_count (ss_sem s)) = 2 ^ 32 - 1"
    by (simp add: unsigned_minus_1_eq_mask mask_eq_exp_minus_1)
  with assms show ?thesis by (auto simp: sem_account_def)
next
  case False
  with assms show ?thesis by (auto simp: sem_account_def unat_succ32)
qed

lemma sem_account_thr [simp]: "sem_account v (s\<lparr>ss_thr := ts\<rparr>) = sem_account v s"
  by (simp add: sem_account_def)

lemma sem_exec_account:
  assumes "sem_account v s" "sem_exec s e = Some t"
  shows "sem_account v t"
proof (cases e)
  case (SeWait i)
  with assms sem_enter_account [OF assms(1)] show ?thesis
    by (auto simp: mysem_wait_def sem_account_def split: if_splits)
next
  case (SeResume i)
  with assms sem_enter_account [OF assms(1)] show ?thesis by (auto split: if_splits)
next
  case (SePost w)
  with assms sem_post_account [OF assms(1)] show ?thesis
    by (auto simp: mysem_post_def Let_def split: if_splits option.splits)
next
  case (SeSpurious i)
  with assms show ?thesis by (auto split: if_splits)
qed

interpretation semacc: event_invariant sem_exec "sem_account v" for v
  by unfold_locales (rule sem_exec_account)

subsection \<open>One waiting thread is always woken\<close>

definition sem_single :: "sem_sys \<Rightarrow> bool" where
  "sem_single s \<longleftrightarrow>
     sem_magic (ss_sem s) = SEM_MAGIC \<and> length (ss_thr s) = 1 \<and>
     (ss_thr s = [SemWait False] \<longrightarrow> sem_count (ss_sem s) = 0)"

lemma length_1_update [simp]: "length xs = Suc 0 \<Longrightarrow> xs[0 := x] = [x]"
  by (cases xs) auto

lemma sem_exec_single:
  assumes "sem_single s" "sem_exec s e = Some t"
  shows "sem_single t"
  using assms
  by (cases e)
     (auto simp: sem_single_def sem_enter_def sem_defs Let_def length_Suc_conv
           split: if_splits option.splits)

interpretation semone: event_invariant sem_exec sem_single
  by unfold_locales (rule sem_exec_single)

section \<open>Properties\<close>

text \<open>
  C24. Conservation: after any sequence of waits, posts and wake-ups of any number of threads,
  the counter plus the waits that returned is the initial value plus the posts, as long as the
  posts do not overflow the 32-bit counter. So no more waits return than units were provided.
\<close>

theorem mysem_conservation:
  assumes "run_events sem_exec (sem_init n v) es = Some t" "unat v + ss_posted t < 2 ^ 32"
  shows "unat (sem_count (ss_sem t)) + ss_taken t = unat v + ss_posted t"
proof -
  have "sem_account (unat v) (sem_init n v)" by (simp add: sem_account_def sem_init_def)
  from semacc.run_Inv [OF this assms(1)] assms(2) show ?thesis by (simp add: sem_account_def)
qed

theorem mysem_conservation_witness:
  "\<exists>t. run_events sem_exec (sem_init 2 1) [SeWait 0, SeWait 1, SePost (Some 1), SeResume 1] = Some t
     \<and> unat (sem_count (ss_sem t)) + ss_taken t = 2"
proof -
  let ?es = "[SeWait 0, SeWait 1, SePost (Some 1), SeResume 1]"
  obtain t where t: "run_events sem_exec (sem_init 2 1) ?es = Some t" "ss_posted t = 1"
    by (simp add: sem_init_def sem_enter_def sem_defs numeral_2_eq_2)
  with mysem_conservation [of 2 1 ?es t] show ?thesis by auto
qed

text \<open>
  Lost wake-up: with two threads blocked in \<open>mysem_wait\<close>, two posts wake only one of them,
  because \<open>mysem_post\<close> signals the condition variable only when the counter is 0. A run ends
  with the counter positive while a thread stays blocked and no thread is woken.
\<close>

theorem mysem_post_loses_wakeup:
  "\<exists>es t. run_events sem_exec (sem_init 2 0) es = Some t \<and> 0 < sem_count (ss_sem t)
     \<and> SemWait False \<in> set (ss_thr t) \<and> SemWait True \<notin> set (ss_thr t)"
  by (rule exI [of _ "[SeWait 0, SeWait 1, SePost (Some 0), SePost None, SeResume 0]"])
     (simp add: sem_init_def sem_enter_def sem_defs numeral_2_eq_2)

text \<open>
  With one thread that waits no wake-up is lost: whenever it is blocked and has not been
  woken, the counter is 0.
\<close>

theorem mysem_single_waiter:
  assumes "run_events sem_exec (sem_init 1 v) es = Some t" "ss_thr t = [SemWait False]"
  shows "sem_count (ss_sem t) = 0"
proof -
  have "sem_single (sem_init 1 v)" by (simp add: sem_single_def sem_init_def)
  from semone.run_Inv [OF this assms(1)] assms(2) show ?thesis by (simp add: sem_single_def)
qed

theorem mysem_single_waiter_witness:
  "\<exists>t. run_events sem_exec (sem_init 1 1) [SeWait 0, SeWait 0] = Some t
     \<and> ss_thr t = [SemWait False] \<and> sem_count (ss_sem t) = 0"
proof -
  let ?es = "[SeWait 0, SeWait 0]"
  obtain t where t: "run_events sem_exec (sem_init 1 1) ?es = Some t" "ss_thr t = [SemWait False]"
    by (simp add: sem_init_def sem_enter_def sem_defs)
  with mysem_single_waiter [of 1 ?es t] show ?thesis by auto
qed

text \<open>At its largest value the counter wraps: the post succeeds and the units are gone.\<close>

lemma mysem_post_wraps:
  "sem_magic s = SEM_MAGIC \<Longrightarrow> sem_count s = -1 \<Longrightarrow>
   mysem_post s 0 = (SemOk, False, s\<lparr>sem_count := 0\<rparr>)"
  by (simp add: mysem_post_def)

section \<open>Opening a semaphore\<close>

text \<open>
  The results of the system calls of \<open>mysem_open\<close>: an errno, or 0 for success. The calls that
  \<open>goto again\<close> repeats take the number of the attempt.
\<close>

record sem_open_env =
  oe_open_excl :: "nat \<Rightarrow> int"
  oe_write :: int
  oe_mmap :: int
  oe_mutexattr :: int
  oe_mutex :: int
  oe_condattr :: int
  oe_cond :: int
  oe_value_max :: nat
  oe_fchmod :: int
  oe_open_rdwr :: "nat \<Rightarrow> int"
  oe_mmap_rdwr :: "nat \<Rightarrow> int"
  oe_stat :: "nat \<Rightarrow> nat \<Rightarrow> int + bool"

text \<open>
  What the process holds: the descriptor, the number of mappings of the file, whether \<open>sem\<close>
  points to one of them, whether it created the file or removed it, the user-execute bit of the
  file it created, and the contents of the mapped memory as it left them.
\<close>

record sem_proc =
  sp_fd :: bool
  sp_maps :: nat
  sp_cur :: bool
  sp_created :: bool
  sp_unlinked :: bool
  sp_exec :: bool
  sp_sem :: mysem

text \<open>The error exit: remove the file if it was created here, unmap, close, restore errno.\<close>

definition sem_open_err :: "int \<Rightarrow> sem_proc \<Rightarrow> (int + unit) \<times> sem_proc" where
  "sem_open_err e p =
     (Inl e, p\<lparr>sp_unlinked := sp_unlinked p \<or> sp_created p,
               sp_maps := (if sp_cur p then sp_maps p - 1 else sp_maps p),
               sp_fd := False\<rparr>)"

definition sem_zero :: mysem where
  "sem_zero = \<lparr>sem_mutex = False, sem_cond = False, sem_count = 0, sem_magic = 0\<rparr>"

text \<open>The branch of the process that created the file.\<close>

definition sem_open_create :: "sem_open_env \<Rightarrow> 32 word \<Rightarrow> sem_proc \<Rightarrow> (int + unit) \<times> sem_proc" where
  "sem_open_create env v p =
     (let p1 = p\<lparr>sp_created := True, sp_fd := True, sp_exec := True\<rparr> in
      if oe_write env \<noteq> 0 then sem_open_err (oe_write env) p1
      else let p2 = p1\<lparr>sp_sem := sem_zero\<rparr> in
      if oe_mmap env \<noteq> 0 then sem_open_err (oe_mmap env) (p2\<lparr>sp_cur := False\<rparr>)
      else let p3 = p2\<lparr>sp_cur := True, sp_maps := Suc (sp_maps p)\<rparr> in
      if oe_mutexattr env \<noteq> 0 then sem_open_err (oe_mutexattr env) p3
      else if oe_mutex env \<noteq> 0 then sem_open_err (oe_mutex env) p3
      else let p4 = p3\<lparr>sp_sem := (sp_sem p3)\<lparr>sem_mutex := True\<rparr>\<rparr> in
      if oe_condattr env \<noteq> 0 then sem_open_err (oe_condattr env) p4
      else if oe_cond env \<noteq> 0 then sem_open_err (oe_cond env) p4
      else let p5 = p4\<lparr>sp_sem := (sp_sem p4)\<lparr>sem_cond := True, sem_count := v\<rparr>\<rparr> in
      if unat v > oe_value_max env then sem_open_err EINVAL p5
      else if oe_fchmod env \<noteq> 0 then sem_open_err (oe_fchmod env) p5
      else (Inr (), p5\<lparr>sp_exec := False, sp_fd := False,
                       sp_sem := (sp_sem p5)\<lparr>sem_magic := SEM_MAGIC\<rparr>\<rparr>))"

datatype 'a open_once = OpenDone 'a | OpenAgain sem_proc

text \<open>The branch of the process that finds the file, from the label \<open>exists\<close>.\<close>

definition sem_open_exists ::
  "sem_open_env \<Rightarrow> bool \<Rightarrow> nat \<Rightarrow> sem_proc \<Rightarrow> ((int + unit) \<times> sem_proc) open_once" where
  "sem_open_exists env creat k p =
     (if oe_open_rdwr env k \<noteq> 0
      then (if oe_open_rdwr env k = ENOENT \<and> creat then OpenAgain p
            else OpenDone (sem_open_err (oe_open_rdwr env k) p))
      else if oe_mmap_rdwr env k \<noteq> 0
      then OpenDone (sem_open_err (oe_mmap_rdwr env k) (p\<lparr>sp_fd := True, sp_cur := False\<rparr>))
      else
        let p1 = p\<lparr>sp_fd := True, sp_cur := True, sp_maps := Suc (sp_maps p)\<rparr> in
        (case poll_init (oe_stat env k) creat 0 MAX_TRIES of
           PollReady \<Rightarrow> OpenDone (Inr (), p1\<lparr>sp_fd := False,
                                  sp_sem := (sp_sem p1)\<lparr>sem_magic := SEM_MAGIC\<rparr>\<rparr>)
         | PollAgain \<Rightarrow> OpenAgain (p1\<lparr>sp_fd := False\<rparr>)
         | PollErr e \<Rightarrow> OpenDone (sem_open_err e p1)))"

definition sem_open_once ::
  "sem_open_env \<Rightarrow> bool \<Rightarrow> bool \<Rightarrow> 32 word \<Rightarrow> nat \<Rightarrow> sem_proc \<Rightarrow> ((int + unit) \<times> sem_proc) open_once" where
  "sem_open_once env creat excl v k p =
     (if creat then
        (if oe_open_excl env k \<noteq> 0
         then (if oe_open_excl env k = EEXIST \<and> \<not> excl then sem_open_exists env creat k p
               else OpenDone (Inl (oe_open_excl env k), p))
         else OpenDone (sem_open_create env v p))
      else sem_open_exists env creat k p)"

text \<open>
  \<open>mysem_open\<close> from the label \<open>again\<close>: the loop may not end, so a call that never returns is
  \<open>None\<close>.
\<close>

partial_function (option) mysem_open ::
  "sem_open_env \<Rightarrow> bool \<Rightarrow> bool \<Rightarrow> 32 word \<Rightarrow> nat \<Rightarrow> sem_proc \<Rightarrow> ((int + unit) \<times> sem_proc) option" where
  "mysem_open env creat excl v k p =
     (case sem_open_once env creat excl v k p of
        OpenDone r \<Rightarrow> Some r
      | OpenAgain p' \<Rightarrow> mysem_open env creat excl v (Suc k) p')"

definition Mysem_open ::
  "sem_open_env \<Rightarrow> bool \<Rightarrow> bool \<Rightarrow> 32 word \<Rightarrow> sem_proc \<Rightarrow> sem_proc outcome option" where
  "Mysem_open env creat excl v p =
     map_option (\<lambda>(r, p'). case r of Inl _ \<Rightarrow> Dies ''mysem_open error'' | Inr _ \<Rightarrow> Returns p')
       (mysem_open env creat excl v 0 p)"

definition sem_proc0 :: sem_proc where
  "sem_proc0 = \<lparr>sp_fd = False, sp_maps = 0, sp_cur = False, sp_created = False,
                sp_unlinked = False, sp_exec = False, sp_sem = sem_zero\<rparr>"

lemmas sem_open_defs = sem_open_err_def sem_open_create_def sem_open_exists_def
  sem_open_once_def Let_def

subsection \<open>Facts about one attempt\<close>

text \<open>What holds of the process between attempts.\<close>

definition sem_between :: "sem_proc \<Rightarrow> bool" where
  "sem_between p \<longleftrightarrow> \<not> sp_fd p \<and> \<not> sp_created p \<and> \<not> sp_unlinked p \<and> (sp_cur p \<longrightarrow> 0 < sp_maps p)"

lemma sem_open_once_again:
  "sem_open_once env creat excl v k p = OpenAgain p' \<Longrightarrow> sem_between p \<Longrightarrow>
   sem_between p' \<and> creat"
  by (auto simp: sem_open_defs sem_between_def dest: poll_init_again
      split: if_splits poll_result.splits)

text \<open>What a finished call leaves behind.\<close>

definition sem_open_ok :: "sem_open_env \<Rightarrow> 32 word \<Rightarrow> (int + unit) \<times> sem_proc \<Rightarrow> bool" where
  "sem_open_ok env v = (\<lambda>(r, q).
     \<not> sp_fd q \<and>
     (case r of
        Inl e \<Rightarrow> sp_unlinked q = sp_created q
      | Inr _ \<Rightarrow> \<not> sp_unlinked q \<and> 0 < sp_maps q \<and> sem_magic (sp_sem q) = SEM_MAGIC \<and>
          (sp_created q \<longrightarrow> \<not> sp_exec q \<and> unat v \<le> oe_value_max env \<and>
             sp_sem q = \<lparr>sem_mutex = True, sem_cond = True, sem_count = v, sem_magic = SEM_MAGIC\<rparr>)))"

lemma sem_open_create_ok: "sem_between p \<Longrightarrow> sem_open_ok env v (sem_open_create env v p)"
  by (simp add: sem_open_create_def sem_open_err_def sem_open_ok_def sem_between_def sem_zero_def
      Let_def)

lemma sem_open_exists_ok:
  "sem_between p \<Longrightarrow> sem_open_exists env creat k p = OpenDone r \<Longrightarrow> sem_open_ok env v r"
  by (auto simp: sem_open_exists_def sem_open_err_def sem_open_ok_def sem_between_def Let_def
      split: if_splits poll_result.splits)

lemma sem_open_failed_ok: "sem_between p \<Longrightarrow> sem_open_ok env v (Inl e, p)"
  by (simp add: sem_open_ok_def sem_between_def)

lemma sem_open_once_done:
  "sem_between p \<Longrightarrow> sem_open_once env creat excl v k p = OpenDone r \<Longrightarrow> sem_open_ok env v r"
  by (auto simp: sem_open_once_def sem_open_create_ok sem_open_exists_ok sem_open_failed_ok
      split: if_splits)

lemma mysem_open_ok:
  assumes "mysem_open env creat excl v k p = Some r" "sem_between p"
  shows "sem_open_ok env v r"
proof -
  have "sem_between p \<longrightarrow> sem_open_ok env v r"
  proof (rule mysem_open.raw_induct
      [where P = "\<lambda>env creat excl v k p r. sem_between p \<longrightarrow> sem_open_ok env v r", OF _ assms(1)])
    fix f :: "sem_open_env \<Rightarrow> bool \<Rightarrow> bool \<Rightarrow> 32 word \<Rightarrow> nat \<Rightarrow> sem_proc \<Rightarrow> ((int + unit) \<times> sem_proc) option"
    fix env creat excl v k p r
    assume IH: "\<And>env creat excl v k p r. f env creat excl v k p = Some r \<Longrightarrow>
        sem_between p \<longrightarrow> sem_open_ok env v r"
      and eq: "(case sem_open_once env creat excl v k p of OpenDone r \<Rightarrow> Some r
         | OpenAgain p' \<Rightarrow> f env creat excl v (Suc k) p') = Some r"
    show "sem_between p \<longrightarrow> sem_open_ok env v r"
    proof (cases "sem_open_once env creat excl v k p")
      case (OpenDone r')
      with eq show ?thesis using sem_open_once_done by fastforce
    next
      case (OpenAgain p')
      with eq have "f env creat excl v (Suc k) p' = Some r" by simp
      from IH [OF this] sem_open_once_again [OF OpenAgain] show ?thesis by blast
    qed
  qed
  with assms(2) show ?thesis by simp
qed

text \<open>The call ends at the first attempt that does not find the file already there.\<close>

lemma mysem_open_returns:
  assumes "\<not> creat \<or> oe_open_excl env (k + d) \<noteq> EEXIST"
  shows "\<exists>r. mysem_open env creat excl v k p = Some r"
  using assms
proof (induction d arbitrary: k p)
  case 0
  then show ?case
    by (subst mysem_open.simps)
       (auto simp: sem_open_once_def sem_open_exists_def Let_def dest: poll_init_again
             split: poll_result.splits)
next
  case (Suc d)
  show ?case
  proof (cases "sem_open_once env creat excl v k p")
    case (OpenDone r)
    then show ?thesis by (subst mysem_open.simps) simp
  next
    case (OpenAgain p')
    have "\<exists>r. mysem_open env creat excl v (Suc k) p' = Some r"
      using Suc by (simp add: Suc.IH)
    with OpenAgain show ?thesis by (subst mysem_open.simps) simp
  qed
qed

text \<open>
  \<open>mysem_open\<close> returns unless the file keeps appearing and vanishing forever. A call that
  fails leaves no descriptor open and has removed the file if it created it; a call that
  succeeds leaves the file in place, mapped and marked open, and if the call created the file
  the semaphore is initialised with the value, which is within the system's limit, and the
  user-execute bit that keeps other processes waiting is off.
\<close>

theorem mysem_open_correct:
  assumes "\<not> creat \<or> oe_open_excl env d \<noteq> EEXIST"
  shows "\<exists>r. mysem_open env creat excl v 0 sem_proc0 = Some r \<and> sem_open_ok env v r"
proof -
  have "sem_between sem_proc0" by (simp add: sem_between_def sem_proc0_def)
  with mysem_open_returns [of creat env 0 d excl v sem_proc0] assms mysem_open_ok
  show ?thesis by fastforce
qed

definition sem_env0 :: sem_open_env where
  "sem_env0 = \<lparr>oe_open_excl = (\<lambda>k. if k = 0 then EEXIST else 0), oe_write = 0, oe_mmap = 0,
     oe_mutexattr = 0, oe_mutex = 0, oe_condattr = 0, oe_cond = 0, oe_value_max = 2147483647,
     oe_fchmod = 0, oe_open_rdwr = (\<lambda>_. 0), oe_mmap_rdwr = (\<lambda>_. 0),
     oe_stat = (\<lambda>_ _. Inl ENOENT)\<rparr>"

theorem mysem_open_correct_witness:
  "\<exists>r. mysem_open sem_env0 True False 5 0 sem_proc0 = Some r \<and> sem_open_ok sem_env0 5 r"
  using mysem_open_correct [of True sem_env0 1 False 5] by (simp add: sem_env0_def)

text \<open>
  A mapping leaks: when the file vanishes between the \<open>mmap\<close> and the \<open>stat\<close> of the label
  \<open>exists\<close>, the call goes back to \<open>again\<close> without unmapping, and the successful call
  ends with two mappings of which it returns one.
\<close>

theorem mysem_open_leaks_mapping:
  "\<exists>env q. mysem_open env True False 5 0 sem_proc0 = Some (Inr (), q) \<and> sp_maps q = 2"
proof -
  have poll: "poll_init (oe_stat sem_env0 0) True 0 MAX_TRIES = PollAgain"
    using poll_init.simps(2) [of "oe_stat sem_env0 0" True 0 9]
    by (simp add: sem_env0_def MAX_TRIES_def)
  have "sem_open_once sem_env0 True False 5 0 sem_proc0 =
      OpenAgain (sem_proc0\<lparr>sp_cur := True, sp_maps := 1\<rparr>)"
    using poll by (simp add: sem_open_once_def sem_open_exists_def Let_def)
      (simp add: sem_env0_def sem_proc0_def)
  moreover obtain q where
    "sem_open_once sem_env0 True False 5 (Suc 0) (sem_proc0\<lparr>sp_cur := True, sp_maps := 1\<rparr>) =
      OpenDone (Inr (), q) \<and> sp_maps q = 2"
    by (simp add: sem_open_once_def sem_open_create_def sem_env0_def)
  ultimately have "mysem_open sem_env0 True False 5 0 sem_proc0 = Some (Inr (), q) \<and> sp_maps q = 2"
    by (subst mysem_open.simps, simp, subst mysem_open.simps, simp)
  then show ?thesis by blast
qed

end
