(* ===== verification/Pxsem_Fifo.thy ===== *)
theory Pxsem_Fifo
  imports Pxsem
begin

text \<open>
  The semaphore of \<open>unpv22e/my_pxsem_fifo\<close>: a FIFO whose number of bytes is the value. A wait reads a byte and blocks in the
  kernel while there is none; a post writes one, without blocking, and fails when the pipe is full. The second
  implementation of the contract of \<open>Pxsem\<close>.
\<close>

section \<open>The handle and the FIFO\<close>

record fifo_sem =
  fsem_fd0 :: int
  fsem_fd1 :: int
  fsem_magic :: int

definition FIFO_MAGIC :: int where
  "FIFO_MAGIC = 0x89674523"

text \<open>
  The state of the kernel: the bytes in the FIFO of the path name, if it exists, and the open descriptors. The capacity of a
  pipe is the parameter \<open>cap\<close>.
\<close>

record fifo_world =
  fifo :: "nat option"
  fds :: "int list"

datatype fifo_end = FifoOk | FifoErr int | FifoBlock

text \<open>\<open>rc\<close> is an errno with which \<open>read\<close> fails, such as \<open>EINTR\<close>, or 0; the bytes are in the open pipe even after \<open>unlink\<close>.\<close>

definition mysem_wait_fifo :: "int \<Rightarrow> fifo_sem \<Rightarrow> nat \<Rightarrow> fifo_end \<times> nat" where
  "mysem_wait_fifo rc sem n =
     (if fsem_magic sem \<noteq> FIFO_MAGIC then (FifoErr EINVAL, n)
      else if rc \<noteq> 0 then (FifoErr rc, n)
      else if n = 0 then (FifoBlock, n)
      else (FifoOk, n - 1))"

definition mysem_post_fifo :: "nat \<Rightarrow> int \<Rightarrow> fifo_sem \<Rightarrow> nat \<Rightarrow> fifo_end \<times> nat" where
  "mysem_post_fifo cap rc sem n =
     (if fsem_magic sem \<noteq> FIFO_MAGIC then (FifoErr EINVAL, n)
      else if rc \<noteq> 0 then (FifoErr rc, n)
      else if cap \<le> n then (FifoErr EAGAIN, n)
      else (FifoOk, n + 1))"

text \<open>
  \<open>rc0\<close> and \<open>rc1\<close> are the errnos of the two calls of \<open>close\<close>, or 0; the second is made only after the first succeeded. The
  descriptor is closed in any case.
\<close>

definition mysem_close_fifo :: "int \<Rightarrow> int \<Rightarrow> fifo_sem \<Rightarrow> fifo_world \<Rightarrow> (int + unit) \<times> fifo_world" where
  "mysem_close_fifo rc0 rc1 sem w =
     (if fsem_magic sem \<noteq> FIFO_MAGIC then (Inl EINVAL, w)
      else let w0 = w\<lparr>fds := remove1 (fsem_fd0 sem) (fds w)\<rparr> in
           if rc0 \<noteq> 0 then (Inl rc0, w0)
           else let w1 = w0\<lparr>fds := remove1 (fsem_fd1 sem) (fds w0)\<rparr> in
                if rc1 \<noteq> 0 then (Inl rc1, w1) else (Inr (), w1))"

definition mysem_unlink_fifo :: "fifo_world \<Rightarrow> (int + unit) \<times> fifo_world" where
  "mysem_unlink_fifo w = (if fifo w = None then (Inl ENOENT, w) else (Inr (), w\<lparr>fifo := None\<rparr>))"

section \<open>Opening\<close>

text \<open>
  What the system calls of \<open>mysem_open\<close> do beyond the FIFO itself: an errno of \<open>mkfifo\<close> other than \<open>EEXIST\<close> or 0, whether \<open>malloc\<close>
  succeeds, the results of the two calls of \<open>open\<close>, of the two of \<open>fcntl\<close>, and of the \<open>i\<close>-th write.
\<close>

record fifo_env =
  env_mkfifo :: int
  env_malloc :: bool
  env_open0 :: "int + int"
  env_open1 :: "int + int"
  env_getfl :: int
  env_setfl :: int
  env_write :: "nat \<Rightarrow> int"

fun fifo_fill :: "nat \<Rightarrow> (nat \<Rightarrow> int) \<Rightarrow> nat \<Rightarrow> nat \<Rightarrow> nat \<Rightarrow> int \<times> nat" where
  "fifo_fill cap wr i 0 n = (0, n)"
| "fifo_fill cap wr i (Suc k) n =
     (if wr i \<noteq> 0 then (wr i, n) else if cap \<le> n then (EAGAIN, n) else fifo_fill cap wr (Suc i) k (n + 1))"

text \<open>The label \<open>error\<close>: \<open>creat\<close> is whether the flag is still set, which says that this call made the FIFO.\<close>

definition fifo_open_err :: "int \<Rightarrow> bool \<Rightarrow> fifo_sem \<Rightarrow> fifo_world \<Rightarrow> (int + fifo_sem) \<times> fifo_world" where
  "fifo_open_err e creat sem w =
     (Inl e, w\<lparr>fifo := (if creat then None else fifo w),
               fds := remove1 (fsem_fd1 sem) (remove1 (fsem_fd0 sem) (fds w))\<rparr>)"

text \<open>From \<open>malloc\<close> on.\<close>

definition fifo_open_rest :: "nat \<Rightarrow> fifo_env \<Rightarrow> bool \<Rightarrow> nat \<Rightarrow> fifo_world \<Rightarrow> (int + fifo_sem) \<times> fifo_world" where
  "fifo_open_rest cap env creat value0 w =
     (if \<not> env_malloc env then (Inl ENOMEM, w)
      else let sem = \<lparr>fsem_fd0 = - 1, fsem_fd1 = - 1, fsem_magic = 0\<rparr> in
        case (if fifo w = None then Inl ENOENT else env_open0 env) of
          Inl e \<Rightarrow> fifo_open_err e creat sem w
        | Inr fd0 \<Rightarrow>
            let sem0 = sem\<lparr>fsem_fd0 := fd0\<rparr>; w0 = w\<lparr>fds := fd0 # fds w\<rparr> in
            (case env_open1 env of
               Inl e \<Rightarrow> fifo_open_err e creat sem0 w0
             | Inr fd1 \<Rightarrow>
                 let sem1 = sem0\<lparr>fsem_fd1 := fd1\<rparr>; w1 = w0\<lparr>fds := fd1 # fds w0\<rparr> in
                 if env_getfl env \<noteq> 0 then fifo_open_err (env_getfl env) creat sem1 w1
                 else if env_setfl env \<noteq> 0 then fifo_open_err (env_setfl env) creat sem1 w1
                 else if creat
                 then let (e, n) = fifo_fill cap (env_write env) 0 value0 (the (fifo w1)); w2 = w1\<lparr>fifo := Some n\<rparr> in
                      if e \<noteq> 0 then fifo_open_err e creat sem1 w2
                      else (Inr (sem1\<lparr>fsem_magic := FIFO_MAGIC\<rparr>), w2)
                 else (Inr (sem1\<lparr>fsem_magic := FIFO_MAGIC\<rparr>), w1)))"

definition mysem_open_fifo :: "nat \<Rightarrow> fifo_env \<Rightarrow> bool \<Rightarrow> bool \<Rightarrow> nat \<Rightarrow> fifo_world \<Rightarrow> (int + fifo_sem) \<times> fifo_world" where
  "mysem_open_fifo cap env creat excl value0 w =
     (if creat
      then (if env_mkfifo env \<noteq> 0 then (Inl (env_mkfifo env), w)
            else if fifo w \<noteq> None
            then (if \<not> excl then fifo_open_rest cap env False value0 w else (Inl EEXIST, w))
            else fifo_open_rest cap env True value0 (w\<lparr>fifo := Some 0\<rparr>))
      else fifo_open_rest cap env False value0 w)"

text \<open>The wrappers.\<close>

definition Mysem_open_fifo :: "nat \<Rightarrow> fifo_env \<Rightarrow> bool \<Rightarrow> bool \<Rightarrow> nat \<Rightarrow> fifo_world \<Rightarrow> (fifo_sem \<times> fifo_world) outcome" where
  "Mysem_open_fifo cap env creat excl value0 w =
     (case mysem_open_fifo cap env creat excl value0 w of
        (Inl e, w1) \<Rightarrow> Dies ''mysem_open error''
      | (Inr sem, w1) \<Rightarrow> Returns (sem, w1))"

definition Mysem_wait_fifo :: "int \<Rightarrow> fifo_sem \<Rightarrow> nat \<Rightarrow> (fifo_end \<times> nat) outcome" where
  "Mysem_wait_fifo rc sem n =
     (case mysem_wait_fifo rc sem n of (FifoErr e, n1) \<Rightarrow> Dies ''mysem_wait error'' | r \<Rightarrow> Returns r)"

definition Mysem_post_fifo :: "nat \<Rightarrow> int \<Rightarrow> fifo_sem \<Rightarrow> nat \<Rightarrow> (fifo_end \<times> nat) outcome" where
  "Mysem_post_fifo cap rc sem n =
     (case mysem_post_fifo cap rc sem n of (FifoErr e, n1) \<Rightarrow> Dies ''mysem_post error'' | r \<Rightarrow> Returns r)"

section \<open>The contract\<close>

definition fifo_valid :: "nat \<Rightarrow> fifo_sem \<times> nat \<Rightarrow> bool" where
  "fifo_valid cap s \<longleftrightarrow> fsem_magic (fst s) = FIFO_MAGIC \<and> snd s \<le> cap"

definition fifo_down :: "fifo_sem \<times> nat \<Rightarrow> (fifo_sem \<times> nat) option" where
  "fifo_down s = (case mysem_wait_fifo 0 (fst s) (snd s) of (FifoOk, n) \<Rightarrow> Some (fst s, n) | _ \<Rightarrow> None)"

definition fifo_up :: "nat \<Rightarrow> fifo_sem \<times> nat \<Rightarrow> (fifo_sem \<times> nat) option" where
  "fifo_up cap s = (case mysem_post_fifo cap 0 (fst s) (snd s) of (FifoOk, n) \<Rightarrow> Some (fst s, n) | _ \<Rightarrow> None)"

interpretation fifo_sem: counting_semaphore "fifo_valid cap" snd "\<lambda>s. snd s < cap" fifo_down "fifo_up cap" for cap
  by unfold_locales (auto simp: fifo_valid_def fifo_down_def fifo_up_def mysem_wait_fifo_def mysem_post_fifo_def)

lemma fifo_fill_result:
  "fifo_fill cap wr i k n = (e, m) \<Longrightarrow> n \<le> cap \<Longrightarrow> m \<le> cap \<and> (e = 0 \<longrightarrow> m = n + k)"
  by (induction cap wr i k n arbitrary: e m rule: fifo_fill.induct) (auto split: if_splits)

lemma fifo_fill_ok: "(\<And>j. wr j = 0) \<Longrightarrow> n + k \<le> cap \<Longrightarrow> fifo_fill cap wr i k n = (0, n + k)"
  by (induction cap wr i k n rule: fifo_fill.induct) auto

section \<open>Properties\<close>

text \<open>The kernel gives descriptors that are not open yet.\<close>

definition fresh_fds :: "fifo_env \<Rightarrow> fifo_world \<Rightarrow> bool" where
  "fresh_fds env w \<longleftrightarrow> - 1 \<notin> set (fds w) \<and>
     (\<forall>fd0. env_open0 env = Inr fd0 \<longrightarrow> 0 \<le> fd0 \<and> fd0 \<notin> set (fds w)) \<and>
     (\<forall>fd1. env_open1 env = Inr fd1 \<longrightarrow> 0 \<le> fd1 \<and> fd1 \<notin> set (fds w) \<and> env_open0 env \<noteq> Inr fd1)"

definition fifo_open_spec :: "fifo_world \<Rightarrow> bool \<Rightarrow> nat \<Rightarrow> (int + fifo_sem) \<times> fifo_world \<Rightarrow> bool" where
  "fifo_open_spec w created n r \<longleftrightarrow>
     (case r of
        (Inl e, w1) \<Rightarrow> fds w1 = fds w \<and> fifo w1 = (if created then None else fifo w)
      | (Inr sem, w1) \<Rightarrow> fsem_magic sem = FIFO_MAGIC \<and> fds w1 = fsem_fd1 sem # fsem_fd0 sem # fds w \<and>
          (\<exists>m. fifo w = Some m \<and> fifo w1 = Some (if created then m + n else m)))"

lemma fifo_open_rest_spec:
  assumes f: "fresh_fds env w" and "env_malloc env" "\<forall>m. fifo w = Some m \<longrightarrow> m \<le> cap"
  shows "fifo_open_spec w created n (fifo_open_rest cap env created n w)"
proof (cases "fifo w")
  case None
  with f assms(2) show ?thesis
    by (simp add: fifo_open_spec_def fifo_open_rest_def fifo_open_err_def fresh_fds_def remove1_idem)
next
  case m: (Some m)
  show ?thesis
  proof (cases "env_open0 env")
    case (Inl e)
    with f m assms(2) show ?thesis
      by (simp add: fifo_open_spec_def fifo_open_rest_def fifo_open_err_def fresh_fds_def remove1_idem)
  next
    case fd0: (Inr fd0)
    show ?thesis
    proof (cases "env_open1 env")
      case (Inl e)
      with f m fd0 assms(2) show ?thesis
        by (simp add: fifo_open_spec_def fifo_open_rest_def fifo_open_err_def fresh_fds_def remove1_idem)
    next
      case fd1: (Inr fd1)
      have d: "fd1 \<noteq> fd0" "fd1 \<notin> set (fds w)" using f fd0 fd1 by (auto simp: fresh_fds_def)
      obtain e k where k: "fifo_fill cap (env_write env) 0 n m = (e, k)" by fastforce
      with fifo_fill_result [OF k] assms(2,3) m fd0 fd1 d show ?thesis
        by (auto simp: fifo_open_spec_def fifo_open_rest_def fifo_open_err_def Let_def)
    qed
  qed
qed

text \<open>
  \<open>mysem_open\<close> on a FIFO: when it fails, it has closed its descriptors and removed the FIFO if it made it; when it
  returns a semaphore, this is open with both descriptors, a new one has the initial value, and an existing one keeps its.
\<close>

theorem mysem_open_fifo_correct:
  assumes "fresh_fds env w" "env_malloc env" "\<forall>m. fifo w = Some m \<longrightarrow> m \<le> cap"
  shows "case mysem_open_fifo cap env creat excl n w of
      (Inl e, w1) \<Rightarrow> fds w1 = fds w \<and> fifo w1 = fifo w
    | (Inr sem, w1) \<Rightarrow> fsem_magic sem = FIFO_MAGIC \<and> fds w1 = fsem_fd1 sem # fsem_fd0 sem # fds w \<and>
        fifo w1 = Some (case fifo w of None \<Rightarrow> n | Some m \<Rightarrow> m)"
proof -
  have f: "fresh_fds env (w\<lparr>fifo := Some 0\<rparr>)" using assms(1) by (simp add: fresh_fds_def)
  note old = fifo_open_rest_spec [OF assms, of False n, unfolded fifo_open_spec_def]
  note new = fifo_open_rest_spec [OF f assms(2), of cap True n, unfolded fifo_open_spec_def]
  show ?thesis using old new
    by (auto simp: mysem_open_fifo_def split: prod.splits sum.splits option.splits)
qed

definition fifo_env_ok :: "(nat \<Rightarrow> int) \<Rightarrow> fifo_env" where
  "fifo_env_ok wr = \<lparr>env_mkfifo = 0, env_malloc = True, env_open0 = Inr 3, env_open1 = Inr 4, env_getfl = 0, env_setfl = 0, env_write = wr\<rparr>"

theorem mysem_open_fifo_correct_witness:
  "fifo (snd (mysem_open_fifo 4096 (fifo_env_ok (\<lambda>_. 0)) True False 2 \<lparr>fifo = None, fds = [0, 1, 2]\<rparr>)) = Some 2 \<and>
   snd (mysem_open_fifo 4096 (fifo_env_ok (\<lambda>i. if i = 1 then ENOSPC else 0)) True False 2 \<lparr>fifo = None, fds = [0, 1, 2]\<rparr>) =
     \<lparr>fifo = None, fds = [0, 1, 2]\<rparr>"
proof -
  let ?w = "\<lparr>fifo = None, fds = [0, 1, 2]\<rparr>"
  have f: "fresh_fds (fifo_env_ok wr) ?w" "env_malloc (fifo_env_ok wr)" "\<forall>m. fifo ?w = Some m \<longrightarrow> m \<le> 4096" for wr
    by (simp_all add: fresh_fds_def fifo_env_ok_def)
  have "\<exists>sem w1. mysem_open_fifo 4096 (fifo_env_ok (\<lambda>_. 0)) True False 2 ?w = (Inr sem, w1)"
    "\<exists>e w1. mysem_open_fifo 4096 (fifo_env_ok (\<lambda>i. if i = 1 then ENOSPC else 0)) True False 2 ?w = (Inl e, w1)"
    by (simp_all add: mysem_open_fifo_def fifo_open_rest_def fifo_open_err_def fifo_env_ok_def numeral_2_eq_2)
  with mysem_open_fifo_correct [OF f(1,2) [of "\<lambda>_. 0"] f(3), where creat = True and excl = False and n = 2]
    mysem_open_fifo_correct [OF f(1,2) [of "\<lambda>i. if i = 1 then ENOSPC else 0"] f(3), where creat = True and excl = False and n = 2]
  show ?thesis by (auto intro: fifo_world.equality)
qed

text \<open>When \<open>malloc\<close> fails, the FIFO that the call has just made stays behind.\<close>

lemma mysem_open_fifo_leaks:
  "fifo w = None \<Longrightarrow> env_mkfifo env = 0 \<Longrightarrow> \<not> env_malloc env \<Longrightarrow>
    mysem_open_fifo cap env True excl n w = (Inl ENOMEM, w\<lparr>fifo := Some 0\<rparr>)"
  by (simp add: mysem_open_fifo_def fifo_open_rest_def)

text \<open>When the first \<open>close\<close> reports an error, the second descriptor stays open.\<close>

lemma mysem_close_fifo_leaks:
  "fsem_magic sem = FIFO_MAGIC \<Longrightarrow> rc0 \<noteq> 0 \<Longrightarrow> fsem_fd1 sem \<in> set (fds w) \<Longrightarrow> fsem_fd1 sem \<noteq> fsem_fd0 sem \<Longrightarrow>
    fst (mysem_close_fifo rc0 rc1 sem w) = Inl rc0 \<and> fsem_fd1 sem \<in> set (fds (snd (mysem_close_fifo rc0 rc1 sem w)))"
  by (simp add: mysem_close_fifo_def Let_def)

text \<open>Waits and posts conserve the units, as for every implementation of the contract.\<close>

lemma fifo_conservation:
  assumes "fsem_magic sem = FIFO_MAGIC" "v \<le> cap" "sem_run fifo_down (fifo_up cap) (sem, v) bs = Some (sem', n)"
  shows "n + length (filter (\<lambda>b. b) bs) = v + length (filter Not bs)"
  using fifo_sem.conservation [of cap "(sem, v)" bs "(sem', n)"] assms by (simp add: fifo_valid_def)

end
