(* ===== verification/Pxsem_Svsem.thy ===== *)
theory Pxsem_Svsem
  imports Pxsem
begin

text \<open>
  The semaphore of \<open>unpv22e/my_pxsem_svsem\<close>: a System V semaphore found through a path name. The creator sets the value
  with \<open>semop\<close>, which also sets the time of the last operation, and the other processes poll that time. The third
  implementation of the contract of \<open>Pxsem\<close>.
\<close>

section \<open>The kernel's semaphore\<close>

abbreviation ERANGE :: int where "ERANGE \<equiv> 34"
abbreviation EIDRM :: int where "EIDRM \<equiv> 43"

definition SEMVMX :: nat where "SEMVMX = 32767"

definition SVSEM_MAGIC :: int where "SVSEM_MAGIC = 0x45678923"

text \<open>The value and whether \<open>sem_otime\<close> is not 0.\<close>

record svset =
  semval :: nat
  otime :: bool

datatype sv_end = SvOk | SvErr int | SvBlock

text \<open>\<open>semop\<close> with one operation on a semaphore, which may have been removed.\<close>

definition semop :: "int \<Rightarrow> bool \<Rightarrow> svset option \<Rightarrow> sv_end \<times> svset option" where
  "semop sem_op nowait sv =
     (case sv of
        None \<Rightarrow> (SvErr EIDRM, sv)
      | Some s \<Rightarrow>
          if 0 < sem_op
          then (if int (semval s) + sem_op > int SEMVMX then (SvErr ERANGE, sv)
                else (SvOk, Some (s\<lparr>semval := semval s + nat sem_op, otime := True\<rparr>)))
          else if sem_op < 0
          then (if - sem_op \<le> int (semval s) then (SvOk, Some (s\<lparr>semval := semval s - nat (- sem_op), otime := True\<rparr>))
                else if nowait then (SvErr EAGAIN, sv) else (SvBlock, sv))
          else (if semval s = 0 then (SvOk, Some (s\<lparr>otime := True\<rparr>))
                else if nowait then (SvErr EAGAIN, sv) else (SvBlock, sv)))"

section \<open>The operations\<close>

record svsem =
  sv_semid :: int
  sv_magic :: int

definition mysem_wait_sv :: "svsem \<Rightarrow> svset option \<Rightarrow> sv_end \<times> svset option" where
  "mysem_wait_sv sem sv = (if sv_magic sem \<noteq> SVSEM_MAGIC then (SvErr EINVAL, sv) else semop (- 1) False sv)"

definition mysem_trywait_sv :: "svsem \<Rightarrow> svset option \<Rightarrow> sv_end \<times> svset option" where
  "mysem_trywait_sv sem sv = (if sv_magic sem \<noteq> SVSEM_MAGIC then (SvErr EINVAL, sv) else semop (- 1) True sv)"

definition mysem_post_sv :: "svsem \<Rightarrow> svset option \<Rightarrow> sv_end \<times> svset option" where
  "mysem_post_sv sem sv = (if sv_magic sem \<noteq> SVSEM_MAGIC then (SvErr EINVAL, sv) else semop 1 False sv)"

definition mysem_getvalue_sv :: "svsem \<Rightarrow> svset option \<Rightarrow> int + nat" where
  "mysem_getvalue_sv sem sv =
     (if sv_magic sem \<noteq> SVSEM_MAGIC then Inl EINVAL
      else case sv of None \<Rightarrow> Inl EIDRM | Some s \<Rightarrow> Inr (semval s))"

definition mysem_close_sv :: "svsem \<Rightarrow> int + svsem" where
  "mysem_close_sv sem = (if sv_magic sem \<noteq> SVSEM_MAGIC then Inl EINVAL else Inr (sem\<lparr>sv_magic := 0\<rparr>))"

text \<open>
  \<open>path\<close> is whether the file exists; \<open>ftok\<close> needs it. \<open>rc\<close> is an errno of \<open>unlink\<close> or 0, \<open>rmid_rc\<close> one of the removal. The file is
  gone before the semaphore is looked for.
\<close>

definition mysem_unlink_sv :: "int \<Rightarrow> int \<Rightarrow> bool \<times> svset option \<Rightarrow> (int + unit) \<times> bool \<times> svset option" where
  "mysem_unlink_sv rc rmid_rc w =
     (case w of
        (path, sv) \<Rightarrow>
          if \<not> path then (Inl ENOENT, w)
          else if rc \<noteq> 0 then (Inl rc, w)
          else if sv = None then (Inl ENOENT, (False, sv))
          else if rmid_rc \<noteq> 0 then (Inl rmid_rc, (False, sv))
          else (Inr (), (False, None)))"

text \<open>The wrappers; that of \<open>mysem_trywait\<close> lets \<open>EAGAIN\<close> pass.\<close>

fun sv_checked :: "string \<Rightarrow> sv_end \<times> svset option \<Rightarrow> (sv_end \<times> svset option) outcome" where
  "sv_checked msg (SvErr e, sv) = Dies msg"
| "sv_checked msg (r, sv) = Returns (r, sv)"

definition Mysem_wait_sv :: "svsem \<Rightarrow> svset option \<Rightarrow> (sv_end \<times> svset option) outcome" where
  "Mysem_wait_sv sem sv = sv_checked ''mysem_wait error'' (mysem_wait_sv sem sv)"

definition Mysem_post_sv :: "svsem \<Rightarrow> svset option \<Rightarrow> (sv_end \<times> svset option) outcome" where
  "Mysem_post_sv sem sv = sv_checked ''mysem_post error'' (mysem_post_sv sem sv)"

definition Mysem_trywait_sv :: "svsem \<Rightarrow> svset option \<Rightarrow> (sv_end \<times> svset option) outcome" where
  "Mysem_trywait_sv sem sv =
     (case mysem_trywait_sv sem sv of
        (SvErr e, sv1) \<Rightarrow> if e \<noteq> EAGAIN then Dies ''mysem_trywait error'' else Returns (SvErr e, sv1)
      | r \<Rightarrow> Returns r)"

section \<open>Opening\<close>

text \<open>
  The results of the system calls: errnos or 0 of \<open>open\<close>, \<open>ftok\<close>, \<open>semget\<close> beside \<open>EEXIST\<close> and \<open>ENOENT\<close>, and \<open>SETVAL\<close>; the \<open>i\<close>-th
  \<open>IPC_STAT\<close>, an errno or whether \<open>sem_otime\<close> is set, which depends on the process that created the semaphore; and \<open>malloc\<close>.
\<close>

record sv_env =
  env_open :: int
  env_ftok :: int
  env_semget :: int
  env_semid :: int
  env_setval :: int
  env_stat :: "nat \<Rightarrow> int + bool"
  env_malloc :: bool

text \<open>The label \<open>err\<close>: the semaphore is removed whenever the call has its identifier.\<close>

definition sv_open_err :: "int \<Rightarrow> int \<Rightarrow> svset option \<Rightarrow> (int + svsem) \<times> svset option" where
  "sv_open_err e semid sv = (Inl e, if semid \<noteq> - 1 then None else sv)"

definition sv_finish :: "sv_env \<Rightarrow> int \<Rightarrow> svset option \<Rightarrow> (int + svsem) \<times> svset option" where
  "sv_finish env semid sv =
     (if env_malloc env then (Inr \<lparr>sv_semid = semid, sv_magic = SVSEM_MAGIC\<rparr>, sv) else sv_open_err ENOMEM semid sv)"

fun poll_otime :: "(nat \<Rightarrow> int + bool) \<Rightarrow> nat \<Rightarrow> nat \<Rightarrow> int + unit" where
  "poll_otime st i 0 = Inl ETIMEDOUT"
| "poll_otime st i (Suc n) = (case st i of Inl e \<Rightarrow> Inl e | Inr t \<Rightarrow> if t then Inr () else poll_otime st (Suc i) n)"

definition sv_open_existing :: "sv_env \<Rightarrow> svset option \<Rightarrow> (int + svsem) \<times> svset option" where
  "sv_open_existing env sv =
     (if env_ftok env \<noteq> 0 then sv_open_err (env_ftok env) (- 1) sv
      else if env_semget env \<noteq> 0 then sv_open_err (env_semget env) (- 1) sv
      else if sv = None then sv_open_err ENOENT (- 1) sv
      else case poll_otime (env_stat env) 0 MAX_TRIES of
             Inl e \<Rightarrow> sv_open_err e (env_semid env) sv
           | Inr u \<Rightarrow> sv_finish env (env_semid env) sv)"

definition sv_open_create :: "sv_env \<Rightarrow> nat \<Rightarrow> (int + svsem) \<times> svset option" where
  "sv_open_create env value0 =
     (let semid = env_semid env; sv = Some \<lparr>semval = 0, otime = False\<rparr> in
      if env_setval env \<noteq> 0 then sv_open_err (env_setval env) semid sv
      else if value0 > SEMVMX then sv_open_err EINVAL semid sv
      else case semop (int value0) False sv of
             (SvOk, sv1) \<Rightarrow> sv_finish env semid sv1
           | (SvErr e, sv1) \<Rightarrow> sv_open_err e semid sv1
           | (SvBlock, sv1) \<Rightarrow> sv_open_err EINTR semid sv1)"

definition mysem_open_sv :: "sv_env \<Rightarrow> bool \<Rightarrow> bool \<Rightarrow> nat \<Rightarrow> svset option \<Rightarrow> (int + svsem) \<times> svset option" where
  "mysem_open_sv env creat excl value0 sv =
     (if creat
      then (if env_open env \<noteq> 0 then (Inl (env_open env), sv)
            else if env_ftok env \<noteq> 0 then (Inl (env_ftok env), sv)
            else if env_semget env \<noteq> 0 then sv_open_err (env_semget env) (- 1) sv
            else if sv = None then sv_open_create env value0
            else if excl then sv_open_err EEXIST (- 1) sv
            else sv_open_existing env sv)
      else sv_open_existing env sv)"

definition Mysem_open_sv :: "sv_env \<Rightarrow> bool \<Rightarrow> bool \<Rightarrow> nat \<Rightarrow> svset option \<Rightarrow> (svsem \<times> svset option) outcome" where
  "Mysem_open_sv env creat excl value0 sv =
     (case mysem_open_sv env creat excl value0 sv of
        (Inl e, sv1) \<Rightarrow> Dies ''mysem_open error''
      | (Inr sem, sv1) \<Rightarrow> Returns (sem, sv1))"

section \<open>The contract\<close>

definition sv_valid :: "svsem \<times> svset option \<Rightarrow> bool" where
  "sv_valid s \<longleftrightarrow> sv_magic (fst s) = SVSEM_MAGIC \<and> (\<exists>v. snd s = Some v \<and> semval v \<le> SEMVMX)"

definition sv_count :: "svsem \<times> svset option \<Rightarrow> nat" where
  "sv_count s = (case snd s of None \<Rightarrow> 0 | Some v \<Rightarrow> semval v)"

definition sv_down :: "svsem \<times> svset option \<Rightarrow> (svsem \<times> svset option) option" where
  "sv_down s = (case mysem_wait_sv (fst s) (snd s) of (SvOk, v) \<Rightarrow> Some (fst s, v) | _ \<Rightarrow> None)"

definition sv_up :: "svsem \<times> svset option \<Rightarrow> (svsem \<times> svset option) option" where
  "sv_up s = (case mysem_post_sv (fst s) (snd s) of (SvOk, v) \<Rightarrow> Some (fst s, v) | _ \<Rightarrow> None)"

interpretation sv_sem: counting_semaphore sv_valid sv_count "\<lambda>s. sv_count s < SEMVMX" sv_down sv_up
  by unfold_locales (auto simp: sv_valid_def sv_count_def sv_down_def sv_up_def mysem_wait_sv_def mysem_post_sv_def semop_def)

section \<open>Properties\<close>

lemma sv_conservation:
  assumes "sv_magic sem = SVSEM_MAGIC" "semval v \<le> SEMVMX" "sem_run sv_down sv_up (sem, Some v) bs = Some (sem', v')"
  shows "sv_count (sem', v') + length (filter (\<lambda>b. b) bs) = semval v + length (filter Not bs)"
  using sv_sem.conservation [of "(sem, Some v)" bs "(sem', v')"] assms by (simp add: sv_valid_def sv_count_def)

text \<open>
  \<open>mysem_open\<close> of a semaphore that does not exist: a value above the system's limit is refused, any failure leaves nothing
  behind, and success gives a semaphore with the value, marked as initialised.
\<close>

theorem mysem_open_sv_creates:
  assumes "0 \<le> env_semid env"
  shows "case mysem_open_sv env True excl n None of
      (Inl e, sv) \<Rightarrow> sv = None
    | (Inr sem, sv) \<Rightarrow> sv_magic sem = SVSEM_MAGIC \<and> sv = Some \<lparr>semval = n, otime = True\<rparr> \<and> n \<le> SEMVMX"
  using assms
  by (auto simp: mysem_open_sv_def sv_open_create_def sv_open_err_def sv_finish_def semop_def Let_def)

lemma mysem_open_sv_limit:
  "0 \<le> env_semid env \<Longrightarrow> SEMVMX < n \<Longrightarrow> env_open env = 0 \<Longrightarrow> env_ftok env = 0 \<Longrightarrow> env_semget env = 0 \<Longrightarrow> env_setval env = 0 \<Longrightarrow>
    mysem_open_sv env True excl n None = (Inl EINVAL, None)"
  by (auto simp: mysem_open_sv_def sv_open_create_def sv_open_err_def Let_def)

text \<open>An existing semaphore is opened only when its creator has initialised it, and its value is kept.\<close>

lemma poll_otime_ready: "poll_otime st i n = Inr u \<Longrightarrow> \<exists>k < n. st (i + k) = Inr True"
proof (induction n arbitrary: i)
  case (Suc n)
  show ?case
  proof (cases "st i = Inr True")
    case True
    then show ?thesis by (intro exI [of _ 0]) simp
  next
    case False
    with Suc.prems have "poll_otime st (Suc i) n = Inr u" by (auto split: sum.splits if_splits)
    from Suc.IH [OF this] obtain k where "k < n" "st (Suc i + k) = Inr True" by blast
    then show ?thesis by (intro exI [of _ "Suc k"]) simp
  qed
qed simp

theorem mysem_open_sv_existing:
  assumes "mysem_open_sv env creat excl n (Some v) = (Inr sem, sv)"
  shows "sv = Some v \<and> sv_magic sem = SVSEM_MAGIC \<and> \<not> (creat \<and> excl) \<and> (\<exists>k < MAX_TRIES. env_stat env k = Inr True)"
  using assms poll_otime_ready [of "env_stat env" 0 MAX_TRIES]
  by (auto simp: mysem_open_sv_def sv_open_existing_def sv_open_err_def sv_finish_def split: if_splits sum.splits)

text \<open>
  A process that gives up waiting for another's initialisation, or has no memory for its handle, removes the semaphore
  that it did not create.
\<close>

theorem mysem_open_sv_removes_existing:
  assumes "env_ftok env = 0" "env_semget env = 0" "0 \<le> env_semid env" "\<forall>i < MAX_TRIES. env_stat env i = Inr False"
  shows "mysem_open_sv env False excl n (Some v) = (Inl ETIMEDOUT, None)"
proof -
  have "poll_otime (env_stat env) i k = Inl ETIMEDOUT" if "i + k \<le> MAX_TRIES" for i k
    using that assms(4) by (induction k arbitrary: i) auto
  from this [of 0 MAX_TRIES] assms show ?thesis by (simp add: mysem_open_sv_def sv_open_existing_def sv_open_err_def)
qed

end
