(* ===== verification/Prodcons.thy ===== *)
theory Prodcons
  imports Pxsem_Mmap Pxsem_Fifo Pxsem_Svsem
begin

text \<open>
  The producer and the consumer that use the semaphores (\<open>prodcons1.c\<close> in \<open>unpv22e/my_pxsem_fifo\<close>, \<open>my_pxsem_mmap\<close> and
  \<open>my_pxsem_svsem\<close>): a circular buffer of ten items between two threads. The proofs use only the contract of the semaphore, and
  hold for the three implementations. A wait is enabled when the value is positive: at most one thread at a time waits on each of the
  semaphores, so the one over a mapped file loses no wake-up here (\<open>mysem_single_waiter\<close>).
\<close>

section \<open>The program\<close>

definition NBUFF :: nat where "NBUFF = 10"

text \<open>
  The shared data with the two loops: the number of the item and the next call of its round, and the messages the consumer
  prints when an item is not the one it expects.
\<close>

record 's prodcons =
  buff :: "nat list"
  mutex :: 's
  nempty :: 's
  nstored :: 's
  prod_i :: nat
  prod_pc :: nat
  cons_i :: nat
  cons_pc :: nat
  reports :: "(nat \<times> nat) list"

datatype side = Producer | Consumer

text \<open>
  One call of \<open>produce\<close>; \<open>None\<close> is a wait that blocks, a post that fails, or the end of the loop.
\<close>

definition produce :: "('s \<Rightarrow> 's option) \<Rightarrow> ('s \<Rightarrow> 's option) \<Rightarrow> nat \<Rightarrow> 's prodcons \<Rightarrow> 's prodcons option" where
  "produce down up nitems s =
     (if prod_i s \<ge> nitems then None
      else if prod_pc s = 0 then map_option (\<lambda>x. s\<lparr>nempty := x, prod_pc := 1\<rparr>) (down (nempty s))
      else if prod_pc s = 1 then map_option (\<lambda>x. s\<lparr>mutex := x, prod_pc := 2\<rparr>) (down (mutex s))
      else if prod_pc s = 2 then Some (s\<lparr>buff := (buff s)[prod_i s mod NBUFF := prod_i s], prod_pc := 3\<rparr>)
      else if prod_pc s = 3 then map_option (\<lambda>x. s\<lparr>mutex := x, prod_pc := 4\<rparr>) (up (mutex s))
      else map_option (\<lambda>x. s\<lparr>nstored := x, prod_pc := 0, prod_i := prod_i s + 1\<rparr>) (up (nstored s)))"

definition consume :: "('s \<Rightarrow> 's option) \<Rightarrow> ('s \<Rightarrow> 's option) \<Rightarrow> nat \<Rightarrow> 's prodcons \<Rightarrow> 's prodcons option" where
  "consume down up nitems s =
     (if cons_i s \<ge> nitems then None
      else if cons_pc s = 0 then map_option (\<lambda>x. s\<lparr>nstored := x, cons_pc := 1\<rparr>) (down (nstored s))
      else if cons_pc s = 1 then map_option (\<lambda>x. s\<lparr>mutex := x, cons_pc := 2\<rparr>) (down (mutex s))
      else if cons_pc s = 2
      then Some (s\<lparr>cons_pc := 3,
                   reports := (if buff s ! (cons_i s mod NBUFF) \<noteq> cons_i s
                               then reports s @ [(cons_i s, buff s ! (cons_i s mod NBUFF))] else reports s)\<rparr>)
      else if cons_pc s = 3 then map_option (\<lambda>x. s\<lparr>mutex := x, cons_pc := 4\<rparr>) (up (mutex s))
      else map_option (\<lambda>x. s\<lparr>nempty := x, cons_pc := 0, cons_i := cons_i s + 1\<rparr>) (up (nempty s)))"

fun prodcons_exec :: "('s \<Rightarrow> 's option) \<Rightarrow> ('s \<Rightarrow> 's option) \<Rightarrow> nat \<Rightarrow> 's prodcons \<Rightarrow> side \<Rightarrow> 's prodcons option" where
  "prodcons_exec down up nitems s Producer = produce down up nitems s"
| "prodcons_exec down up nitems s Consumer = consume down up nitems s"

text \<open>The state in which \<open>main\<close> starts the threads: the semaphores are open with the values 1, \<open>NBUFF\<close> and 0.\<close>

definition prodcons_start :: "(nat \<Rightarrow> 's) \<Rightarrow> 's prodcons" where
  "prodcons_start sem =
     \<lparr>buff = replicate NBUFF 0, mutex = sem 1, nempty = sem NBUFF, nstored = sem 0, prod_i = 0, prod_pc = 0, cons_i = 0, cons_pc = 0,
      reports = []\<rparr>"

text \<open>
  What is expected of the program: the consumer has nothing to report, and the threads make a bounded number of calls and stop only
  when all items have been passed on.
\<close>

definition prodcons_correct :: "('s \<Rightarrow> 's option) \<Rightarrow> ('s \<Rightarrow> 's option) \<Rightarrow> (nat \<Rightarrow> 's) \<Rightarrow> nat \<Rightarrow> bool" where
  "prodcons_correct down up sem nitems \<longleftrightarrow>
     (\<forall>es s. run_events (prodcons_exec down up nitems) (prodcons_start sem) es = Some s \<longrightarrow>
        reports s = [] \<and> length es \<le> 10 * nitems \<and>
        ((\<forall>side. prodcons_exec down up nitems s side = None) \<longrightarrow> prod_i s = nitems \<and> cons_i s = nitems))"

section \<open>What the program relies on\<close>

text \<open>A semaphore that counts to the size of the buffer.\<close>

locale buffer_semaphore = counting_semaphore +
  assumes room_buffer: "valid s \<Longrightarrow> count s < NBUFF \<Longrightarrow> room s"
begin

lemma up_counts: "valid s \<Longrightarrow> count s < NBUFF \<Longrightarrow> \<exists>t. up s = Some t \<and> valid t \<and> count t = Suc (count s)"
  using up_gives room_buffer by blast

end

text \<open>
  The invariant: the units of each semaphore are accounted for by the positions of the two loops, and the buffer holds the items
  between them.
\<close>

definition prodcons_inv :: "('s \<Rightarrow> bool) \<Rightarrow> ('s \<Rightarrow> nat) \<Rightarrow> nat \<Rightarrow> 's prodcons \<Rightarrow> bool" where
  "prodcons_inv valid cnt nitems s \<longleftrightarrow> valid (mutex s) \<and> valid (nempty s) \<and> valid (nstored s) \<and> length (buff s) = NBUFF \<and>
     prod_pc s \<le> 4 \<and> cons_pc s \<le> 4 \<and> prod_i s \<le> nitems \<and> cons_i s \<le> nitems \<and>
     (prod_i s = nitems \<longrightarrow> prod_pc s = 0) \<and> (cons_i s = nitems \<longrightarrow> cons_pc s = 0) \<and>
     cnt (nempty s) + prod_i s + of_bool (0 < prod_pc s) = NBUFF + cons_i s \<and>
     cnt (nstored s) + cons_i s + of_bool (0 < cons_pc s) = prod_i s \<and>
     cnt (mutex s) + of_bool (prod_pc s = 2 \<or> prod_pc s = 3) + of_bool (cons_pc s = 2 \<or> cons_pc s = 3) = 1 \<and>
     (\<forall>k. cons_i s \<le> k \<and> k < prod_i s + of_bool (2 < prod_pc s) \<longrightarrow> buff s ! (k mod NBUFF) = k) \<and> reports s = []"

definition calls_to_go :: "nat \<Rightarrow> 's prodcons \<Rightarrow> nat" where
  "calls_to_go nitems s = (5 * (nitems - prod_i s) - prod_pc s) + (5 * (nitems - cons_i s) - cons_pc s)"

text \<open>The slot that is written is not one of those still to be read.\<close>

lemma slot_free: "c \<le> k \<Longrightarrow> k < p \<Longrightarrow> p < NBUFF + c \<Longrightarrow> k mod NBUFF \<noteq> p mod NBUFF"
proof
  assume k: "c \<le> k" "k < p" "p < NBUFF + c" and e: "k mod NBUFF = p mod NBUFF"
  then have "NBUFF dvd p - k" by (metis less_imp_le_nat mod_eq_dvd_iff_nat)
  with k show False by (auto dest!: dvd_imp_le)
qed

context buffer_semaphore
begin

lemma produce_inv:
  assumes inv: "prodcons_inv valid count nitems s" and ex: "produce down up nitems s = Some t"
  shows "prodcons_inv valid count nitems t \<and> calls_to_go nitems t < calls_to_go nitems s"
proof -
  have lt: "prod_i s < nitems" using ex by (auto simp: produce_def split: if_splits)
  have v: "valid (mutex s)" "valid (nempty s)" "valid (nstored s)" using inv by (auto simp: prodcons_inv_def)
  have "prod_pc s \<le> 4" using inv by (simp add: prodcons_inv_def)
  then consider "prod_pc s = 0" | "prod_pc s = 1" | "prod_pc s = 2" | "prod_pc s = 3" | "prod_pc s = 4" by linarith
  then show ?thesis
  proof cases
    case 1
    with ex lt obtain x where x: "down (nempty s) = Some x" "t = s\<lparr>nempty := x, prod_pc := 1\<rparr>" by (auto simp: produce_def)
    with inv 1 lt down_valid [OF v(2) x(1)] show ?thesis by (auto simp: prodcons_inv_def calls_to_go_def)
  next
    case 2
    with ex lt obtain x where x: "down (mutex s) = Some x" "t = s\<lparr>mutex := x, prod_pc := 2\<rparr>" by (auto simp: produce_def)
    with inv 2 lt down_valid [OF v(1) x(1)] show ?thesis by (auto simp: prodcons_inv_def calls_to_go_def)
  next
    case 3
    with ex lt have t: "t = s\<lparr>buff := (buff s)[prod_i s mod NBUFF := prod_i s], prod_pc := 3\<rparr>" by (auto simp: produce_def)
    have p: "prod_i s < NBUFF + cons_i s" using inv 3 by (simp add: prodcons_inv_def)
    have "buff t ! (k mod NBUFF) = k" if "cons_i s \<le> k" "k < Suc (prod_i s)" for k
      using inv 3 that slot_free [OF that(1) _ p] by (cases "k = prod_i s") (auto simp: t prodcons_inv_def NBUFF_def)
    with inv 3 lt t show ?thesis by (auto simp: prodcons_inv_def calls_to_go_def)
  next
    case 4
    then have c: "count (mutex s) = 0" using inv by (simp add: prodcons_inv_def)
    obtain x where x: "up (mutex s) = Some x" "t = s\<lparr>mutex := x, prod_pc := 4\<rparr>" using ex lt 4 by (auto simp: produce_def)
    with inv 4 lt c up_valid [OF v(1) x(1)] show ?thesis by (auto simp: prodcons_inv_def calls_to_go_def)
  next
    case 5
    obtain x where x: "up (nstored s) = Some x" "t = s\<lparr>nstored := x, prod_pc := 0, prod_i := prod_i s + 1\<rparr>"
      using ex lt 5 by (auto simp: produce_def)
    with inv 5 lt up_valid [OF v(3) x(1)] show ?thesis by (auto simp: prodcons_inv_def calls_to_go_def)
  qed
qed

lemma consume_inv:
  assumes inv: "prodcons_inv valid count nitems s" and ex: "consume down up nitems s = Some t"
  shows "prodcons_inv valid count nitems t \<and> calls_to_go nitems t < calls_to_go nitems s"
proof -
  have lt: "cons_i s < nitems" using ex by (auto simp: consume_def split: if_splits)
  have v: "valid (mutex s)" "valid (nempty s)" "valid (nstored s)" using inv by (auto simp: prodcons_inv_def)
  have "cons_pc s \<le> 4" using inv by (simp add: prodcons_inv_def)
  then consider "cons_pc s = 0" | "cons_pc s = 1" | "cons_pc s = 2" | "cons_pc s = 3" | "cons_pc s = 4" by linarith
  then show ?thesis
  proof cases
    case 1
    with ex lt obtain x where x: "down (nstored s) = Some x" "t = s\<lparr>nstored := x, cons_pc := 1\<rparr>" by (auto simp: consume_def)
    with inv 1 lt down_valid [OF v(3) x(1)] show ?thesis by (auto simp: prodcons_inv_def calls_to_go_def)
  next
    case 2
    with ex lt obtain x where x: "down (mutex s) = Some x" "t = s\<lparr>mutex := x, cons_pc := 2\<rparr>" by (auto simp: consume_def)
    with inv 2 lt down_valid [OF v(1) x(1)] show ?thesis by (auto simp: prodcons_inv_def calls_to_go_def)
  next
    case 3
    then have "cons_i s < prod_i s" using inv by (simp add: prodcons_inv_def)
    then have "buff s ! (cons_i s mod NBUFF) = cons_i s" using inv by (simp add: prodcons_inv_def)
    with ex lt 3 have "t = s\<lparr>cons_pc := 3\<rparr>" by (auto simp: consume_def)
    with inv 3 lt show ?thesis by (auto simp: prodcons_inv_def calls_to_go_def)
  next
    case 4
    obtain x where x: "up (mutex s) = Some x" "t = s\<lparr>mutex := x, cons_pc := 4\<rparr>" using ex lt 4 by (auto simp: consume_def)
    with inv 4 lt up_valid [OF v(1) x(1)] show ?thesis by (auto simp: prodcons_inv_def calls_to_go_def)
  next
    case 5
    obtain x where x: "up (nempty s) = Some x" "t = s\<lparr>nempty := x, cons_pc := 0, cons_i := cons_i s + 1\<rparr>"
      using ex lt 5 by (auto simp: consume_def)
    with inv 5 lt up_valid [OF v(2) x(1)] show ?thesis by (auto simp: prodcons_inv_def calls_to_go_def)
  qed
qed

text \<open>Where a thread can be blocked.\<close>

lemma produce_blocked:
  assumes inv: "prodcons_inv valid count nitems s" and "prod_i s < nitems" "produce down up nitems s = None"
  shows "(prod_pc s = 0 \<and> count (nempty s) = 0) \<or> (prod_pc s = 1 \<and> count (mutex s) = 0)"
proof -
  have v: "valid (mutex s)" "valid (nempty s)" "valid (nstored s)" using inv by (auto simp: prodcons_inv_def)
  have "prod_pc s \<le> 4" using inv by (simp add: prodcons_inv_def)
  moreover have "prod_pc s = 3 \<Longrightarrow> count (mutex s) < NBUFF" "prod_pc s = 4 \<Longrightarrow> count (nstored s) < NBUFF"
    using inv by (auto simp: prodcons_inv_def NBUFF_def)
  ultimately show ?thesis
    using assms(2,3) down_takes [OF v(1)] down_takes [OF v(2)] up_counts [OF v(1)] up_counts [OF v(3)]
    by (auto simp: produce_def split: if_splits)
qed

lemma consume_blocked:
  assumes inv: "prodcons_inv valid count nitems s" and "cons_i s < nitems" "consume down up nitems s = None"
  shows "(cons_pc s = 0 \<and> count (nstored s) = 0) \<or> (cons_pc s = 1 \<and> count (mutex s) = 0)"
proof -
  have v: "valid (mutex s)" "valid (nempty s)" "valid (nstored s)" using inv by (auto simp: prodcons_inv_def)
  have "cons_pc s \<le> 4" using inv by (simp add: prodcons_inv_def)
  moreover have "cons_pc s = 3 \<Longrightarrow> count (mutex s) < NBUFF" "cons_pc s = 4 \<Longrightarrow> count (nempty s) < NBUFF"
    using inv by (auto simp: prodcons_inv_def NBUFF_def)
  ultimately show ?thesis
    using assms(2,3) down_takes [OF v(1)] down_takes [OF v(3)] up_counts [OF v(1)] up_counts [OF v(2)]
    by (auto simp: consume_def split: if_splits)
qed

lemma both_blocked_done:
  assumes inv: "prodcons_inv valid count nitems s" and "produce down up nitems s = None" "consume down up nitems s = None"
  shows "prod_i s = nitems \<and> cons_i s = nitems"
proof (rule ccontr)
  assume n: "\<not> (prod_i s = nitems \<and> cons_i s = nitems)"
  have i: "cons_i s \<le> prod_i s" "prod_i s \<le> nitems" "prod_i s = nitems \<longrightarrow> prod_pc s = 0" using inv by (auto simp: prodcons_inv_def)
  with n have c: "cons_i s < nitems" by linarith
  note cb = consume_blocked [OF inv c assms(3)]
  show False
  proof (cases "prod_i s < nitems")
    case True
    from produce_blocked [OF inv True assms(2)] cb inv show False by (auto simp: prodcons_inv_def NBUFF_def)
  next
    case False
    with i cb c inv show False by (auto simp: prodcons_inv_def)
  qed
qed

lemma prodcons_measured: "measured_system (prodcons_exec down up nitems) (prodcons_inv valid count nitems) (calls_to_go nitems) (\<lambda>_. True) 0"
proof
  fix s t e
  assume inv: "prodcons_inv valid count nitems s" and ex: "prodcons_exec down up nitems s e = Some t"
  have "prodcons_inv valid count nitems t \<and> calls_to_go nitems t < calls_to_go nitems s"
    using produce_inv [OF inv, of t] consume_inv [OF inv, of t] ex by (cases e) auto
  then show "prodcons_inv valid count nitems t" "calls_to_go nitems t < calls_to_go nitems s" by auto
qed simp

text \<open>
  From open semaphores with the initial values, the program ends after ten calls per item, and then the consumer has seen
  all items in order.
\<close>

lemma prodcons_delivers:
  assumes sem: "\<And>n. n \<le> NBUFF \<Longrightarrow> valid (sem n) \<and> count (sem n) = n"
  shows "prodcons_correct down up sem nitems"
  unfolding prodcons_correct_def
proof (intro allI impI conjI)
  fix es s
  assume run: "run_events (prodcons_exec down up nitems) (prodcons_start sem) es = Some s"
  have start: "prodcons_inv valid count nitems (prodcons_start sem)"
    using sem [of 0] sem [of 1] sem [of NBUFF] by (auto simp: prodcons_inv_def prodcons_start_def NBUFF_def)
  have ev: "event_invariant (prodcons_exec down up nitems) (prodcons_inv valid count nitems)"
    using prodcons_measured by (rule measured_system.axioms(1))
  have inv: "prodcons_inv valid count nitems s" by (rule event_invariant.run_Inv [OF ev start run])
  then show "reports s = []" by (simp add: prodcons_inv_def)
  show "length es \<le> 10 * nitems"
    using measured_system.run_bound [OF prodcons_measured start run] by (simp add: calls_to_go_def prodcons_start_def)
  assume b: "\<forall>side. prodcons_exec down up nitems s side = None"
  have "produce down up nitems s = None" "consume down up nitems s = None" using b [rule_format, of Producer] b [rule_format, of Consumer] by simp_all
  from both_blocked_done [OF inv this] show "prod_i s = nitems" "cons_i s = nitems" by auto
qed

end

section \<open>The three semaphores\<close>

definition mmap_with :: "nat \<Rightarrow> mysem" where
  "mmap_with n = \<lparr>sem_mutex = True, sem_cond = True, sem_count = of_nat n, sem_magic = SEM_MAGIC\<rparr>"

definition fifo_with :: "nat \<Rightarrow> fifo_sem \<times> nat" where
  "fifo_with n = (\<lparr>fsem_fd0 = 3, fsem_fd1 = 4, fsem_magic = FIFO_MAGIC\<rparr>, n)"

definition sv_with :: "nat \<Rightarrow> svsem \<times> svset option" where
  "sv_with n = (\<lparr>sv_semid = 0, sv_magic = SVSEM_MAGIC\<rparr>, Some \<lparr>semval = n, otime = True\<rparr>)"

text \<open>The capacity of a pipe on Linux.\<close>

definition PIPE_CAP :: nat where "PIPE_CAP = 65536"

interpretation mmap_buf: buffer_semaphore mmap_valid "\<lambda>s. unat (sem_count s)" "\<lambda>s. sem_count s \<noteq> -1" mmap_down mmap_up
  by unfold_locales (auto simp: NBUFF_def unsigned_minus_1_eq_mask mask_eq_exp_minus_1)

interpretation fifo_buf: buffer_semaphore "fifo_valid PIPE_CAP" snd "\<lambda>s. snd s < PIPE_CAP" fifo_down "fifo_up PIPE_CAP"
  by unfold_locales (simp add: NBUFF_def PIPE_CAP_def)

interpretation sv_buf: buffer_semaphore sv_valid sv_count "\<lambda>s. sv_count s < SEMVMX" sv_down sv_up
  by unfold_locales (simp add: NBUFF_def SEMVMX_def)

lemma unat_small: "n \<le> NBUFF \<Longrightarrow> unat (of_nat n :: 32 word) = n"
  by (simp add: unat_of_nat take_bit_nat_eq_self NBUFF_def)

section \<open>Properties\<close>


text \<open>A concrete run over the FIFO: one item from the producer to the consumer.\<close>

lemma prodcons_one_item:
  "run_ends (prodcons_exec fifo_down (fifo_up PIPE_CAP) 1) (prodcons_start fifo_with)
    [Producer, Producer, Producer, Producer, Producer, Consumer, Consumer, Consumer, Consumer, Consumer]
    (\<lambda>s. reports s = [] \<and> cons_i s = 1 \<and> snd (nempty s) = 10)"
  by (simp add: run_ends_def prodcons_start_def fifo_with_def produce_def consume_def fifo_down_def fifo_up_def mysem_wait_fifo_def
      mysem_post_fifo_def NBUFF_def PIPE_CAP_def)

end
