(* ===== verification/Fifo.thy ===== *)
theory Fifo
  imports Prelude
begin

text \<open>
  The contract of a queue kept in some order: \<open>elems\<close> is the abstraction to the list of queued
  items, \<open>ins\<close> says where a new item goes in that list, \<open>room\<close> when it may be put. The message
  queue (\<open>Msgqueue\<close>) implements it with insertion by priority. A first-in first-out queue is the
  special case of insertion at the end, implemented by the linked job queue of the thread pool
  (\<open>Jobqueue\<close>) and by the ring of descriptors of the prethreaded server (\<open>Clifd_Ring\<close>).
\<close>

locale ordered_queue =
  fixes ins :: "'x \<Rightarrow> 'x list \<Rightarrow> 'x list"
    and inv :: "'q \<Rightarrow> bool" and elems :: "'q \<Rightarrow> 'x list" and room :: "'x \<Rightarrow> 'q \<Rightarrow> bool"
    and put :: "'x \<Rightarrow> 'q \<Rightarrow> 'q" and take_first :: "'q \<Rightarrow> ('x \<times> 'q) option"
  assumes put_inv: "inv q \<Longrightarrow> room x q \<Longrightarrow> inv (put x q)"
    and put_elems: "inv q \<Longrightarrow> room x q \<Longrightarrow> elems (put x q) = ins x (elems q)"
    and take_empty: "inv q \<Longrightarrow> elems q = [] \<Longrightarrow> take_first q = None"
    and take_elems: "inv q \<Longrightarrow> elems q = x # xs \<Longrightarrow>
      \<exists>q'. take_first q = Some (x, q') \<and> inv q' \<and> elems q' = xs"
begin

lemma take_first_Some:
  assumes "inv q" "take_first q = Some (x, q')"
  shows "inv q' \<and> elems q = x # elems q'"
  using assms take_empty [of q] take_elems [of q] by (cases "elems q") auto

text \<open>Taking \<open>n\<close> items one after the other.\<close>

fun drain :: "nat \<Rightarrow> 'q \<Rightarrow> ('x list \<times> 'q) option" where
  "drain 0 q = Some ([], q)"
| "drain (Suc n) q =
     (case take_first q of
        None \<Rightarrow> None
      | Some (x, q') \<Rightarrow> map_option (\<lambda>(xs, r). (x # xs, r)) (drain n q'))"

text \<open>The items leave in the order in which they came.\<close>

lemma drain_order:
  assumes "inv q" "n \<le> length (elems q)"
  shows "\<exists>r. drain n q = Some (take n (elems q), r) \<and> inv r \<and> elems r = drop n (elems q)"
  using assms
proof (induction n arbitrary: q)
  case 0
  then show ?case by simp
next
  case (Suc n)
  then obtain x xs where xs: "elems q = x # xs" by (cases "elems q") auto
  from take_elems [OF Suc.prems(1) xs] obtain q' where
    q': "take_first q = Some (x, q')" "inv q'" "elems q' = xs" by blast
  with Suc xs obtain r where "drain n q' = Some (take n xs, r)" "inv r" "elems r = drop n xs"
    by force
  with q' xs show ?case by simp
qed

end

locale fifo = ordered_queue "\<lambda>x q. q @ [x]" inv elems room put take_first
  for inv :: "'q \<Rightarrow> bool" and elems :: "'q \<Rightarrow> 'x list" and room :: "'x \<Rightarrow> 'q \<Rightarrow> bool"
    and put :: "'x \<Rightarrow> 'q \<Rightarrow> 'q" and take_first :: "'q \<Rightarrow> ('x \<times> 'q) option"
begin

text \<open>An item put into an empty queue is the next one taken.\<close>

lemma put_take:
  assumes "inv q" "room x q" "elems q = []"
  shows "\<exists>q'. take_first (put x q) = Some (x, q') \<and> inv q' \<and> elems q' = []"
  using take_elems [OF put_inv [OF assms(1,2)], of x "[]"] put_elems [OF assms(1,2)] assms(3) by simp

end

end
