(* ===== verification/Jobqueue.thy ===== *)
theory Jobqueue
  imports Fifo
begin

text \<open>
  The job queue and the binary semaphore of \<open>person/thread_pool/thpool.c\<close>, over an explicit
  heap: a job is a cell, the queue holds pointers to the first and the last cell, and each cell
  points to the one behind it in \<open>prev\<close>. Reading or writing through a null pointer or one that
  was freed is the outcome \<open>Dies ''SIGSEGV''\<close>. The mutex makes each operation one step.
\<close>

section \<open>Binary semaphore\<close>

record bsem =
  bs_v :: int

definition bsem_init :: "int \<Rightarrow> bsem outcome" where
  "bsem_init n = (if n < 0 \<or> n > 1 then Dies ''bsem_init'' else Returns \<lparr>bs_v = n\<rparr>)"

definition bsem_reset :: "bsem \<Rightarrow> bsem outcome" where
  "bsem_reset b = bsem_init 0"

text \<open>\<open>bsem_post\<close> signals one thread that waits, \<open>bsem_post_all\<close> all of them.\<close>

definition bsem_post :: "bsem \<Rightarrow> bsem" where
  "bsem_post b = b\<lparr>bs_v := 1\<rparr>"

definition bsem_post_all :: "bsem \<Rightarrow> bsem" where
  "bsem_post_all b = b\<lparr>bs_v := 1\<rparr>"

text \<open>The test of \<open>bsem_wait\<close>, under the mutex: \<open>None\<close> waits on the condition variable.\<close>

definition bsem_wait :: "bsem \<Rightarrow> bsem option" where
  "bsem_wait b = (if bs_v b \<noteq> 1 then None else Some (b\<lparr>bs_v := 0\<rparr>))"

section \<open>Jobs and the queue\<close>

record ('f, 'a) job =
  job_prev :: "nat option"
  job_function :: 'f
  job_arg :: 'a

type_synonym ('f, 'a) heap = "nat \<Rightarrow> ('f, 'a) job option"

record jobqueue =
  jq_front :: "nat option"
  jq_rear :: "nat option"
  jq_has_jobs :: bsem
  jq_len :: int

text \<open>\<open>jobqueue_init\<close>: \<open>alloc\<close> says whether the semaphore could be allocated.\<close>

definition jobqueue_init :: "bool \<Rightarrow> jobqueue option outcome" where
  "jobqueue_init alloc =
     (if \<not> alloc then Returns None
      else bind_outcome (bsem_init 0)
        (\<lambda>b. Returns (Some \<lparr>jq_front = None, jq_rear = None, jq_has_jobs = b, jq_len = 0\<rparr>)))"

definition deref :: "('f, 'a) heap \<Rightarrow> nat option \<Rightarrow> ('f, 'a) job outcome" where
  "deref h p = (case p of None \<Rightarrow> Dies ''SIGSEGV''
     | Some a \<Rightarrow> (case h a of None \<Rightarrow> Dies ''SIGSEGV'' | Some j \<Rightarrow> Returns j))"

definition jobqueue_push ::
  "('f, 'a) heap \<Rightarrow> jobqueue \<Rightarrow> nat \<Rightarrow> (('f, 'a) heap \<times> jobqueue) outcome" where
  "jobqueue_push h q newjob =
     bind_outcome (deref h (Some newjob)) (\<lambda>j.
       let h1 = h(newjob \<mapsto> j\<lparr>job_prev := None\<rparr>) in
       bind_outcome
         (if jq_len q = 0
          then Returns (h1, q\<lparr>jq_front := Some newjob, jq_rear := Some newjob\<rparr>)
          else bind_outcome (deref h1 (jq_rear q)) (\<lambda>r.
                 Returns (h1(the (jq_rear q) \<mapsto> r\<lparr>job_prev := Some newjob\<rparr>),
                          q\<lparr>jq_rear := Some newjob\<rparr>)))
         (\<lambda>(h2, q2). Returns (h2, q2\<lparr>jq_len := jq_len q + 1,
                                       jq_has_jobs := bsem_post (jq_has_jobs q)\<rparr>)))"

text \<open>
  \<open>jobqueue_pull\<close> returns the pointer to the job taken, or null. The cell stays allocated: the
  caller frees it.
\<close>

definition jobqueue_pull ::
  "('f, 'a) heap \<Rightarrow> jobqueue \<Rightarrow> (nat option \<times> jobqueue) outcome" where
  "jobqueue_pull h q =
     (let job_p = jq_front q in
      if jq_len q = 0 then Returns (job_p, q)
      else if jq_len q = 1
      then Returns (job_p, q\<lparr>jq_front := None, jq_rear := None, jq_len := 0\<rparr>)
      else bind_outcome (deref h job_p) (\<lambda>j.
             Returns (job_p, q\<lparr>jq_front := job_prev j, jq_len := jq_len q - 1,
                               jq_has_jobs := bsem_post (jq_has_jobs q)\<rparr>)))"

definition free_job :: "('f, 'a) heap \<Rightarrow> nat option \<Rightarrow> ('f, 'a) heap" where
  "free_job h p = (case p of None \<Rightarrow> h | Some a \<Rightarrow> h(a := None))"

text \<open>The loop of \<open>jobqueue_clear\<close>; \<open>None\<close> is a loop that does not end.\<close>

partial_function (option) jobqueue_clear_loop ::
  "('f, 'a) heap \<Rightarrow> jobqueue \<Rightarrow> (('f, 'a) heap \<times> jobqueue) outcome option" where
  "jobqueue_clear_loop h q =
     (if jq_len q = 0 then Some (Returns (h, q))
      else case jobqueue_pull h q of
             Dies m \<Rightarrow> Some (Dies m)
           | Returns (p, q') \<Rightarrow> jobqueue_clear_loop (free_job h p) q')"

declare jobqueue_clear_loop.simps [code]

definition jobqueue_clear ::
  "('f, 'a) heap \<Rightarrow> jobqueue \<Rightarrow> (('f, 'a) heap \<times> jobqueue) outcome option" where
  "jobqueue_clear h q =
     map_option (\<lambda>m. bind_outcome m (\<lambda>(h', q').
        bind_outcome (bsem_reset (jq_has_jobs q')) (\<lambda>b.
          Returns (h', q'\<lparr>jq_front := None, jq_rear := None, jq_has_jobs := b, jq_len := 0\<rparr>))))
       (jobqueue_clear_loop h q)"

text \<open>\<open>jobqueue_destroy\<close> clears the queue and frees the semaphore.\<close>

definition jobqueue_destroy :: "('f, 'a) heap \<Rightarrow> jobqueue \<Rightarrow> ('f, 'a) heap outcome option" where
  "jobqueue_destroy h q =
     map_option (\<lambda>m. bind_outcome m (\<lambda>(h', q'). Returns h')) (jobqueue_clear h q)"

section \<open>The representation invariant\<close>

text \<open>The cells of the queue from front to rear, and what is in them.\<close>

definition jq_next :: "('f, 'a) heap \<Rightarrow> nat \<Rightarrow> nat option" where
  "jq_next h a = (case h a of None \<Rightarrow> None | Some j \<Rightarrow> job_prev j)"

definition jq_cells :: "('f, 'a) heap \<Rightarrow> jobqueue \<Rightarrow> nat list \<Rightarrow> bool" where
  "jq_cells h q as \<longleftrightarrow>
     chain (jq_next h) (jq_front q) as \<and> set as \<subseteq> dom h \<and> jq_len q = int (length as) \<and>
     jq_rear q = (if as = [] then None else Some (last as))"

definition work :: "('f, 'a) heap \<Rightarrow> nat \<Rightarrow> ('f \<times> 'a) option" where
  "work h a = map_option (\<lambda>j. (job_function j, job_arg j)) (h a)"

lemma jq_cells_distinct: "jq_cells h q as \<Longrightarrow> distinct as"
  by (auto simp: jq_cells_def dest: chain_distinct)

lemma jq_cells_unique: "jq_cells h q as \<Longrightarrow> jq_cells h q bs \<Longrightarrow> as = bs"
  by (auto simp: jq_cells_def dest: chain_unique)

lemma jq_next_upd: "jq_next (h(a \<mapsto> j)) = (jq_next h)(a := job_prev j)"
  by (auto simp: jq_next_def)

lemma jq_next_free: "jq_next (h(a := None)) = (jq_next h)(a := None)"
  by (auto simp: jq_next_def)

text \<open>Pushing an allocated job that is not in the queue appends it.\<close>

lemma jobqueue_push_cells:
  assumes q: "jq_cells h q as" and j: "h a = Some j" and a: "a \<notin> set as"
  shows "\<exists>h' q'. jobqueue_push h q a = Returns (h', q') \<and> jq_cells h' q' (as @ [a])
    \<and> bs_v (jq_has_jobs q') = 1 \<and> dom h' = dom h \<and> (\<forall>b. work h' b = work h b)"
proof (cases as rule: rev_cases)
  case Nil
  with q j show ?thesis
    by (auto simp: jobqueue_push_def deref_def jq_cells_def jq_next_def work_def bsem_post_def)
next
  case (snoc bs b)
  with q obtain jb where jb: "h b = Some jb" by (auto simp: jq_cells_def)
  from snoc q a have "b \<noteq> a" "b \<notin> set bs" "a \<notin> set bs"
    using jq_cells_distinct [OF q] by auto
  with snoc q j jb show ?thesis
    by (auto simp: jobqueue_push_def deref_def jq_cells_def jq_next_upd chain_append
        chain_to_append work_def bsem_post_def)
qed

text \<open>Pulling from a queue that is not empty takes the first cell.\<close>

lemma jobqueue_pull_cells:
  assumes "jq_cells h q (a # as)"
  shows "\<exists>q'. jobqueue_pull h q = Returns (Some a, q') \<and> jq_cells h q' as \<and>
    bs_v (jq_has_jobs q') = (if as = [] then bs_v (jq_has_jobs q) else 1)"
  using assms
  by (cases as) (auto simp: jobqueue_pull_def jq_cells_def deref_def jq_next_def bsem_post_def)

lemma jobqueue_pull_empty: "jq_cells h q [] \<Longrightarrow> jobqueue_pull h q = Returns (None, q)"
  by (simp add: jobqueue_pull_def jq_cells_def)

lemma jq_cells_frame:
  assumes "jq_cells h q as" "a \<notin> set as"
  shows "jq_cells (h(a := x)) q as"
proof -
  have "chain (jq_next (h(a := x))) (jq_front q) as = chain (jq_next h) (jq_front q) as"
    by (rule chain_cong) (use assms(2) in \<open>auto simp: jq_next_def\<close>)
  with assms show ?thesis by (auto simp: jq_cells_def)
qed

text \<open>Clearing the queue ends and frees exactly the queued cells.\<close>

lemma jobqueue_clear_loop_frees:
  assumes "jq_cells h q as"
  shows "\<exists>q'. jobqueue_clear_loop h q = Some (Returns (h |` (- set as), q')) \<and> jq_cells (h |` (- set as)) q' []"
  using assms
proof (induction as arbitrary: h q)
  case Nil
  then have "jq_len q = 0" by (simp add: jq_cells_def)
  with Nil show ?case by (subst jobqueue_clear_loop.simps) (auto simp: restrict_map_def fun_eq_iff)
next
  case (Cons a as)
  from jobqueue_pull_cells [OF Cons.prems] obtain q1 where
    q1: "jobqueue_pull h q = Returns (Some a, q1)" "jq_cells h q1 as" by blast
  from Cons.prems have a: "a \<notin> set as" and len: "jq_len q \<noteq> 0"
    using jq_cells_distinct [OF Cons.prems] by (auto simp: jq_cells_def)
  have eq: "(h(a := None)) |` (- set as) = h |` (- set (a # as))"
    by (auto simp: restrict_map_def fun_eq_iff)
  from Cons.IH [OF jq_cells_frame [OF q1(2) a, of None]] obtain q2 where
    q2: "jobqueue_clear_loop (h(a := None)) q1 = Some (Returns (h |` (- set (a # as)), q2))"
      "jq_cells (h |` (- set (a # as))) q2 []"
    by (auto simp only: eq)
  have "jobqueue_clear_loop h q = jobqueue_clear_loop (h(a := None)) q1"
    by (subst jobqueue_clear_loop.simps) (simp add: q1(1) len free_job_def)
  with q2 show ?case by metis
qed

lemma jobqueue_destroy_frees:
  assumes "jq_cells h q as"
  shows "jobqueue_destroy h q = Some (Returns (h |` (- set as)))"
  using jobqueue_clear_loop_frees [OF assms]
  by (auto simp: jobqueue_destroy_def jobqueue_clear_def bsem_reset_def bsem_init_def)

section \<open>Adding work\<close>

text \<open>
  \<open>thpool_add_work\<close>: \<open>m\<close> is the address \<open>malloc\<close> returns, or null; the result is the return
  value of the function.
\<close>

definition thpool_add_work ::
  "('f, 'a) heap \<Rightarrow> jobqueue \<Rightarrow> nat option \<Rightarrow> 'f \<Rightarrow> 'a \<Rightarrow> (int \<times> ('f, 'a) heap \<times> jobqueue) outcome" where
  "thpool_add_work h q m f x =
     (case m of
        None \<Rightarrow> Returns (-1, h, q)
      | Some a \<Rightarrow>
          bind_outcome (jobqueue_push (h(a \<mapsto> \<lparr>job_prev = None, job_function = f, job_arg = x\<rparr>)) q a)
            (\<lambda>(h', q'). Returns (0, h', q')))"

lemma thpool_add_work_cells:
  assumes q: "jq_cells h q as" and a: "h a = None"
  shows "\<exists>h' q'. thpool_add_work h q (Some a) f x = Returns (0, h', q') \<and> jq_cells h' q' (as @ [a])
    \<and> bs_v (jq_has_jobs q') = 1 \<and> dom h' = insert a (dom h)
    \<and> work h' a = Some (f, x) \<and> (\<forall>b. b \<noteq> a \<longrightarrow> work h' b = work h b)"
proof -
  let ?j = "\<lparr>job_prev = None, job_function = f, job_arg = x\<rparr>"
  have na: "a \<notin> set as" using q a by (auto simp: jq_cells_def)
  from jobqueue_push_cells [OF jq_cells_frame [OF q na, of "Some ?j"], of a ?j] na
  obtain h' q' where *: "jobqueue_push (h(a \<mapsto> ?j)) q a = Returns (h', q')"
    "jq_cells h' q' (as @ [a])" "bs_v (jq_has_jobs q') = 1" "dom h' = dom (h(a \<mapsto> ?j))"
    "\<forall>b. work h' b = work (h(a \<mapsto> ?j)) b"
    by auto
  from *(5) have "work h' a = Some (f, x)" "\<forall>b. b \<noteq> a \<longrightarrow> work h' b = work h b"
    by (simp_all add: work_def)
  moreover have "thpool_add_work h q (Some a) f x = Returns (0, h', q')"
    by (simp add: thpool_add_work_def *(1))
  moreover have "dom h' = insert a (dom h)" using *(4) by simp
  ultimately show ?thesis using *(2,3) by blast
qed

section \<open>The queue is a FIFO queue\<close>

text \<open>
  The queue with its heap and the next free address, \<open>malloc\<close> handing out addresses in turn.
\<close>

type_synonym ('f, 'a) jq_mem = "('f, 'a) heap \<times> jobqueue \<times> nat"

definition jqm_inv :: "('f, 'a) jq_mem \<Rightarrow> bool" where
  "jqm_inv = (\<lambda>(h, q, n). (\<exists>as. jq_cells h q as) \<and> (\<forall>b\<ge>n. h b = None))"

text \<open>The queued work, read by following the chain from the front.\<close>

fun jq_walk :: "('f, 'a) heap \<Rightarrow> nat \<Rightarrow> nat option \<Rightarrow> ('f \<times> 'a) list" where
  "jq_walk h 0 p = []"
| "jq_walk h (Suc n) None = []"
| "jq_walk h (Suc n) (Some a) =
     (case h a of None \<Rightarrow> [] | Some j \<Rightarrow> (job_function j, job_arg j) # jq_walk h n (job_prev j))"

definition jqm_elems :: "('f, 'a) jq_mem \<Rightarrow> ('f \<times> 'a) list" where
  "jqm_elems = (\<lambda>(h, q, n). jq_walk h (nat (jq_len q)) (jq_front q))"

definition jqm_put :: "'f \<times> 'a \<Rightarrow> ('f, 'a) jq_mem \<Rightarrow> ('f, 'a) jq_mem" where
  "jqm_put = (\<lambda>(f, x) (h, q, n).
     case thpool_add_work h q (Some n) f x of
       Returns (_, h', q') \<Rightarrow> (h', q', Suc n)
     | Dies _ \<Rightarrow> (h, q, n))"

text \<open>What a worker does with a job: pull it, read it and free its cell.\<close>

definition jqm_take :: "('f, 'a) jq_mem \<Rightarrow> (('f \<times> 'a) \<times> ('f, 'a) jq_mem) option" where
  "jqm_take = (\<lambda>(h, q, n).
     case jobqueue_pull h q of
       Returns (Some a, q') \<Rightarrow>
         (case h a of Some j \<Rightarrow> Some ((job_function j, job_arg j), free_job h (Some a), q', n)
                    | None \<Rightarrow> None)
     | _ \<Rightarrow> None)"

lemma jq_walk_chain:
  "chain (jq_next h) p as \<Longrightarrow> set as \<subseteq> dom h \<Longrightarrow>
   map Some (jq_walk h (length as) p) = map (work h) as"
  by (induction as arbitrary: p) (auto simp: jq_next_def work_def)

lemma jqm_elems_cells: "jq_cells h q as \<Longrightarrow> map Some (jqm_elems (h, q, n)) = map (work h) as"
  by (auto simp: jqm_elems_def jq_cells_def intro: jq_walk_chain)

lemma jqm_elems_eqI: "map Some xs = map (work h) as \<Longrightarrow> jq_cells h q as \<Longrightarrow> jqm_elems (h, q, n) = xs"
  using jqm_elems_cells [of h q as n] by (metis inj_Some list.inj_map_strong option.inject)

interpretation jobq: fifo "jqm_inv :: ('f, 'a) jq_mem \<Rightarrow> bool" jqm_elems "\<lambda>_ _. True" jqm_put jqm_take
proof unfold_locales
  fix s :: "('f, 'a) jq_mem" and x :: "'f \<times> 'a"
  assume inv: "jqm_inv s"
  obtain h q n where s: "s = (h, q, n)" by (cases s)
  obtain f y where x: "x = (f, y)" by (cases x)
  from inv s obtain as where as: "jq_cells h q as" and free: "\<And>b. n \<le> b \<Longrightarrow> h b = None"
    by (auto simp: jqm_inv_def)
  from thpool_add_work_cells [OF as free [OF order_refl]] obtain h' q' where
    add: "thpool_add_work h q (Some n) f y = Returns (0, h', q')" "jq_cells h' q' (as @ [n])"
      "dom h' = insert n (dom h)" "work h' n = Some (f, y)" "\<forall>b. b \<noteq> n \<longrightarrow> work h' b = work h b"
    by blast
  have "h' b = None" if "Suc n \<le> b" for b
    using that add(3) free [of b] by (metis Suc_n_not_le_n domIff insertE le_trans nat_le_linear not_less_eq_eq)
  with add s x show "jqm_inv (jqm_put x s)" by (auto simp: jqm_put_def jqm_inv_def)
  have "n \<notin> set as" using as free [of n] by (auto simp: jq_cells_def)
  then have "map (work h') as = map (work h) as" using add(5) by auto
  with jqm_elems_cells [OF as, of n] add(4)
  have "map Some (jqm_elems s @ [x]) = map (work h') (as @ [n])" by (simp add: s x)
  from jqm_elems_eqI [OF this add(2)] show "jqm_elems (jqm_put x s) = jqm_elems s @ [x]"
    using add(1) by (simp add: jqm_put_def s x)
next
  fix s :: "('f, 'a) jq_mem"
  assume inv: "jqm_inv s" and el: "jqm_elems s = []"
  obtain h q n where s: "s = (h, q, n)" by (cases s)
  from inv s obtain as where as: "jq_cells h q as" by (auto simp: jqm_inv_def)
  with el s jqm_elems_cells [OF as, of n] have "as = []" by auto
  with as show "jqm_take s = None" by (simp add: s jqm_take_def jobqueue_pull_empty)
next
  fix s :: "('f, 'a) jq_mem" and x xs
  assume inv: "jqm_inv s" and el: "jqm_elems s = x # xs"
  obtain h q n where s: "s = (h, q, n)" by (cases s)
  from inv s obtain as where as: "jq_cells h q as" and free: "\<And>b. n \<le> b \<Longrightarrow> h b = None"
    by (auto simp: jqm_inv_def)
  from jqm_elems_cells [OF as, of n] el s obtain a bs where
    bs: "as = a # bs" "work h a = Some x" "map Some xs = map (work h) bs" by (cases as) auto
  from bs(2) obtain j where j: "h a = Some j" "x = (job_function j, job_arg j)"
    by (auto simp: work_def)
  from jobqueue_pull_cells [OF as [unfolded bs(1)]] obtain q' where
    q': "jobqueue_pull h q = Returns (Some a, q')" "jq_cells h q' bs" by blast
  have a: "a \<notin> set bs" using jq_cells_distinct [OF as] bs(1) by simp
  have "map Some xs = map (work (h(a := None))) bs" using bs(3) a by (auto simp: work_def)
  from jqm_elems_eqI [OF this jq_cells_frame [OF q'(2) a]]
  have "jqm_elems (h(a := None), q', n) = xs" .
  moreover have "jqm_inv (h(a := None), q', n)"
    using jq_cells_frame [OF q'(2) a, of None] free by (auto simp: jqm_inv_def)
  ultimately show "\<exists>t. jqm_take s = Some (x, t) \<and> jqm_inv t \<and> jqm_elems t = xs"
    using q'(1) j by (auto simp: s jqm_take_def free_job_def)
qed

end
