(* ===== verification/Thpool.thy ===== *)
theory Thpool
  imports Jobqueue
begin

text \<open>
  The thread pool of \<open>person/thread_pool/thpool.c\<close>: the worker loop \<open>thread_do\<close>, the callers of
  \<open>thpool_wait\<close>, \<open>thpool_add_work\<close>, \<open>thpool_pause\<close>, \<open>thpool_resume\<close> and \<open>thpool_destroy\<close>, as
  threads that interleave. A thread's place in its code is a program point; a critical section
  that cannot block is one step; a wait on a condition variable is a point of its own, left when
  another thread signals it or, as POSIX allows, spuriously.

  Jobs are numbered in the order in which they are added. The numbers, the log of the calls made
  and the list of finished jobs are ghost state.
\<close>

section \<open>State\<close>

text \<open>
  The points of \<open>thread_do\<close>: not yet counted as alive, the loop test, inside \<open>bsem_wait\<close>, asleep
  there, after it, before and after \<open>num_threads_working++\<close>, holding job \<open>k\<close> in cell \<open>p\<close> before
  and during its call, before \<open>num_threads_working--\<close>, after the loop, after
  \<open>num_threads_alive--\<close> with \<open>thcount_lock\<close> still held, and returned.
\<close>

datatype wpc = WNew | WTop | WSem | WSleep | WGot | WCount | WPull
  | WCall nat nat | WBusy nat nat | WDone | WExit | WUnlock | WDead

text \<open>
  The points of a caller of \<open>thpool_wait\<close>; the number is how many jobs had been added when it
  called: waiting for \<open>thcount_lock\<close>, holding it at the loop test, having read an empty queue,
  about to wait, asleep, and returned.
\<close>

datatype cpc = CIdle | CLock nat | CHold nat | CLenZero nat | CNoGo nat | CSleep nat | CDone nat

record ('f, 'a) thpool =
  tp_alive :: int
  tp_working :: int
  tp_thcount_lock :: bool
  tp_jobqueue :: jobqueue
  tp_heap :: "('f, 'a) heap"
  tp_num_threads :: int
  tp_ready :: bool
  tp_keepalive :: bool
  tp_on_hold :: bool
  tp_workers :: "wpc list"
  tp_pending :: "bool list"
  tp_held :: "bool list"
  tp_clients :: "cpc list"
  tp_destroying :: bool
  tp_freed :: bool
  tp_fault :: bool
  tp_added :: "('f \<times> 'a) list"
  tp_pulled :: nat
  tp_runs :: "(nat \<times> 'f \<times> 'a) list"
  tp_finished :: "nat list"

section \<open>Creation\<close>

text \<open>
  \<open>thread_init\<close>: the allocation of the thread is not checked (the test is of \<open>thread_p\<close>, not of
  \<open>*thread_p\<close>), so a failed \<open>malloc\<close> is a null dereference; \<open>created\<close> says whether
  \<open>pthread_create\<close> made a thread, which the code does not check either.
\<close>

definition thread_init :: "bool \<Rightarrow> bool \<Rightarrow> wpc list \<Rightarrow> wpc list outcome" where
  "thread_init alloc created ws =
     (if \<not> alloc then Dies ''SIGSEGV'' else Returns (if created then ws @ [WNew] else ws))"

fun thread_init_all :: "(bool \<times> bool) list \<Rightarrow> wpc list \<Rightarrow> wpc list outcome" where
  "thread_init_all [] ws = Returns ws"
| "thread_init_all ((a, c) # ts) ws = bind_outcome (thread_init a c ws) (thread_init_all ts)"

text \<open>
  \<open>thpool_init\<close> up to its final busy wait: \<open>a1\<close>, \<open>a2\<close>, \<open>a3\<close> are the outcomes of the allocations
  of the pool, of the queue's semaphore and of the thread array, \<open>outs\<close> what happens to each
  thread, \<open>cl\<close> how many threads will call \<open>thpool_wait\<close>. \<open>Returns None\<close> is the null pointer.
\<close>

definition thpool_init ::
  "int \<Rightarrow> bool \<Rightarrow> bool \<Rightarrow> bool \<Rightarrow> (nat \<Rightarrow> bool \<times> bool) \<Rightarrow> nat \<Rightarrow> ('f, 'a) thpool option outcome" where
  "thpool_init num_threads a1 a2 a3 outs cl =
     (let num_threads = (if num_threads < 0 then 0 else num_threads) in
      if \<not> a1 then Returns None
      else bind_outcome (jobqueue_init a2) (\<lambda>jq. case jq of
        None \<Rightarrow> Returns None
      | Some q \<Rightarrow>
          if \<not> a3 then Returns None
          else bind_outcome (thread_init_all (map outs [0..<nat num_threads]) []) (\<lambda>ws.
            Returns (Some \<lparr>tp_alive = 0, tp_working = 0, tp_thcount_lock = False, tp_jobqueue = q,
              tp_heap = Map.empty, tp_num_threads = num_threads, tp_ready = False, tp_keepalive = True, tp_on_hold = False, tp_workers = ws,
              tp_pending = replicate (length ws) False, tp_held = replicate (length ws) False,
              tp_clients = replicate cl CIdle, tp_destroying = False, tp_freed = False,
              tp_fault = False, tp_added = [], tp_pulled = 0, tp_runs = [], tp_finished = []\<rparr>))))"

text \<open>The busy wait of \<open>thpool_init\<close> ends when every thread has counted itself.\<close>

definition thpool_init_return :: "('f, 'a) thpool \<Rightarrow> ('f, 'a) thpool option" where
  "thpool_init_return s =
     (if tp_alive s \<noteq> tp_num_threads s then None else Some (s\<lparr>tp_ready := True\<rparr>))"

section \<open>Signals on the condition variables\<close>

text \<open>
  \<open>pthread_cond_signal\<close> wakes a thread that waits, if there is one; \<open>w\<close> says which. The result
  is \<open>None\<close> when \<open>w\<close> is not a possible choice.
\<close>

definition signal_has_jobs :: "nat option \<Rightarrow> wpc list \<Rightarrow> wpc list option" where
  "signal_has_jobs w ws =
     (case w of
        None \<Rightarrow> if WSleep \<in> set ws then None else Some ws
      | Some j \<Rightarrow> if j < length ws \<and> ws ! j = WSleep then Some (ws[j := WSem]) else None)"

definition broadcast_has_jobs :: "wpc list \<Rightarrow> wpc list" where
  "broadcast_has_jobs = map (\<lambda>p. if p = WSleep then WSem else p)"

fun sleeping_client :: "cpc \<Rightarrow> bool" where
  "sleeping_client (CSleep n) = True"
| "sleeping_client _ = False"

fun awake :: "cpc \<Rightarrow> cpc" where
  "awake (CSleep n) = CLock n"
| "awake c = c"

definition signal_all_idle :: "nat option \<Rightarrow> cpc list \<Rightarrow> cpc list option" where
  "signal_all_idle w cs =
     (case w of
        None \<Rightarrow> if (\<exists>c\<in>set cs. sleeping_client c) then None else Some cs
      | Some j \<Rightarrow> if j < length cs \<and> sleeping_client (cs ! j) then Some (cs[j := awake (cs ! j)]) else None)"

section \<open>The worker\<close>

definition goto :: "nat \<Rightarrow> wpc \<Rightarrow> ('f, 'a) thpool \<Rightarrow> ('f, 'a) thpool" where
  "goto i p s = s\<lparr>tp_workers := (tp_workers s)[i := p]\<rparr>"

text \<open>
  One step of \<open>thread_do\<close> in worker \<open>i\<close>; \<open>w\<close> is the thread woken by the signal of the step, if
  the step signals. A step that needs \<open>thcount_lock\<close> is not enabled while another thread has it.
\<close>

definition thread_do :: "nat \<Rightarrow> nat option \<Rightarrow> ('f, 'a) thpool \<Rightarrow> ('f, 'a) thpool option" where
  "thread_do i w s =
     (case tp_workers s ! i of
        WNew \<Rightarrow> if tp_thcount_lock s then None else Some (goto i WTop (s\<lparr>tp_alive := tp_alive s + 1\<rparr>))
      | WTop \<Rightarrow> Some (goto i (if tp_keepalive s then WSem else WExit) s)
      | WSem \<Rightarrow>
          (case bsem_wait (jq_has_jobs (tp_jobqueue s)) of
             None \<Rightarrow> Some (goto i WSleep s)
           | Some b \<Rightarrow> Some (goto i WGot (s\<lparr>tp_jobqueue := tp_jobqueue s\<lparr>jq_has_jobs := b\<rparr>\<rparr>)))
      | WSleep \<Rightarrow> None
      | WGot \<Rightarrow> Some (goto i (if tp_keepalive s then WCount else WTop) s)
      | WCount \<Rightarrow> if tp_thcount_lock s then None
                  else Some (goto i WPull (s\<lparr>tp_working := tp_working s + 1\<rparr>))
      | WPull \<Rightarrow>
          (case jobqueue_pull (tp_heap s) (tp_jobqueue s) of
             Dies m \<Rightarrow> Some (s\<lparr>tp_fault := True\<rparr>)
           | Returns (None, q) \<Rightarrow> Some (goto i WDone (s\<lparr>tp_jobqueue := q\<rparr>))
           | Returns (Some p, q) \<Rightarrow>
               (case (if jq_len (tp_jobqueue s) > 1 then signal_has_jobs w (tp_workers s)
                      else Some (tp_workers s)) of
                  None \<Rightarrow> None
                | Some ws \<Rightarrow> Some (s\<lparr>tp_jobqueue := q, tp_workers := ws[i := WCall (tp_pulled s) p],
                                     tp_pulled := tp_pulled s + 1\<rparr>)))
      | WCall k p \<Rightarrow>
          (case deref (tp_heap s) (Some p) of
             Dies m \<Rightarrow> Some (s\<lparr>tp_fault := True\<rparr>)
           | Returns j \<Rightarrow>
               Some (goto i (WBusy k p) (s\<lparr>tp_runs := tp_runs s @ [(k, job_function j, job_arg j)]\<rparr>)))
      | WBusy k p \<Rightarrow>
          Some (goto i WDone (s\<lparr>tp_heap := free_job (tp_heap s) (Some p),
                                tp_finished := tp_finished s @ [k]\<rparr>))
      | WDone \<Rightarrow>
          if tp_thcount_lock s then None
          else (case (if tp_working s - 1 = 0 then signal_all_idle w (tp_clients s)
                      else Some (tp_clients s)) of
                  None \<Rightarrow> None
                | Some cs \<Rightarrow> Some (goto i WTop (s\<lparr>tp_working := tp_working s - 1, tp_clients := cs\<rparr>)))
      | WExit \<Rightarrow> if tp_thcount_lock s then None
                 else Some (goto i WUnlock (s\<lparr>tp_alive := tp_alive s - 1, tp_thcount_lock := True\<rparr>))
      | WUnlock \<Rightarrow> Some (goto i WDead (s\<lparr>tp_thcount_lock := False\<rparr>))
      | WDead \<Rightarrow> None)"

text \<open>A worker runs unless the signal handler holds it; in a freed pool it reads freed memory.\<close>

definition worker_step :: "nat \<Rightarrow> nat option \<Rightarrow> ('f, 'a) thpool \<Rightarrow> ('f, 'a) thpool option" where
  "worker_step i w s =
     (if length (tp_workers s) \<le> i \<or> tp_held s ! i then None
      else if tp_freed s \<and> tp_workers s ! i \<noteq> WDead then Some (s\<lparr>tp_fault := True\<rparr>)
      else thread_do i w s)"

section \<open>The callers\<close>

text \<open>\<open>thpool_add_work\<close>: the address \<open>malloc\<close> gives must be free.\<close>

definition add_work_step ::
  "'f \<Rightarrow> 'a \<Rightarrow> nat option \<Rightarrow> nat option \<Rightarrow> ('f, 'a) thpool \<Rightarrow> ('f, 'a) thpool option" where
  "add_work_step f x m w s =
     (if tp_freed s \<or> (case m of None \<Rightarrow> False | Some a \<Rightarrow> tp_heap s a \<noteq> None) then None
      else case thpool_add_work (tp_heap s) (tp_jobqueue s) m f x of
             Dies msg \<Rightarrow> Some (s\<lparr>tp_fault := True\<rparr>)
           | Returns (r, h, q) \<Rightarrow>
               if r \<noteq> 0 then Some (s\<lparr>tp_heap := h, tp_jobqueue := q\<rparr>)
               else (case signal_has_jobs w (tp_workers s) of
                       None \<Rightarrow> None
                     | Some ws \<Rightarrow> Some (s\<lparr>tp_heap := h, tp_jobqueue := q, tp_workers := ws,
                                          tp_added := tp_added s @ [(f, x)]\<rparr>)))"

definition cgoto :: "nat \<Rightarrow> cpc \<Rightarrow> ('f, 'a) thpool \<Rightarrow> ('f, 'a) thpool" where
  "cgoto i c s = s\<lparr>tp_clients := (tp_clients s)[i := c]\<rparr>"

text \<open>
  One step of \<open>thpool_wait\<close> in caller \<open>i\<close>. The length of the queue is read first, without the
  queue's mutex, then the number of working threads.
\<close>

definition thpool_wait :: "nat \<Rightarrow> ('f, 'a) thpool \<Rightarrow> ('f, 'a) thpool option" where
  "thpool_wait i s =
     (if length (tp_clients s) \<le> i then None
      else case tp_clients s ! i of
        CIdle \<Rightarrow> if tp_destroying s then None else Some (cgoto i (CLock (length (tp_added s))) s)
      | CLock n \<Rightarrow> if tp_thcount_lock s then None else Some (cgoto i (CHold n) (s\<lparr>tp_thcount_lock := True\<rparr>))
      | CHold n \<Rightarrow> Some (cgoto i (if jq_len (tp_jobqueue s) \<noteq> 0 then CNoGo n else CLenZero n) s)
      | CLenZero n \<Rightarrow>
          if tp_working s \<noteq> 0 then Some (cgoto i (CNoGo n) s)
          else Some (cgoto i (CDone n) (s\<lparr>tp_thcount_lock := False\<rparr>))
      | CNoGo n \<Rightarrow> Some (cgoto i (CSleep n) (s\<lparr>tp_thcount_lock := False\<rparr>))
      | CSleep n \<Rightarrow> None
      | CDone n \<Rightarrow> Some (cgoto i CIdle s))"

text \<open>
  \<open>thpool_pause\<close> sends \<open>SIGUSR1\<close> to the first \<open>num_threads_alive\<close> threads; the handler
  \<open>thread_hold\<close> runs when the signal is delivered, and ends after \<open>thpool_resume\<close>.
\<close>

definition thpool_pause :: "('f, 'a) thpool \<Rightarrow> ('f, 'a) thpool" where
  "thpool_pause s =
     s\<lparr>tp_pending := map (\<lambda>n. int n < tp_alive s \<or> tp_pending s ! n) [0..<length (tp_pending s)]\<rparr>"

definition thpool_resume :: "('f, 'a) thpool \<Rightarrow> ('f, 'a) thpool" where
  "thpool_resume s = s\<lparr>tp_on_hold := False\<rparr>"

definition thread_hold :: "nat \<Rightarrow> ('f, 'a) thpool \<Rightarrow> ('f, 'a) thpool option" where
  "thread_hold i s =
     (if length (tp_workers s) \<le> i then None
      else if tp_held s ! i
      then (if tp_on_hold s then None else Some (s\<lparr>tp_held := (tp_held s)[i := False]\<rparr>))
      else if tp_pending s ! i
      then Some (s\<lparr>tp_pending := (tp_pending s)[i := False], tp_held := (tp_held s)[i := True],
                   tp_on_hold := True\<rparr>)
      else None)"

definition thpool_num_threads_working :: "('f, 'a) thpool \<Rightarrow> int" where
  "thpool_num_threads_working s = tp_working s"

text \<open>
  \<open>thpool_destroy\<close>, which no thread may call while another is in \<open>thpool_wait\<close>: it ends the
  workers' loops, posts to all of them while some are alive, then clears the queue and frees the
  pool. Both of its polling loops do the same apart from the time they sleep.
\<close>

fun outside_wait :: "cpc \<Rightarrow> bool" where
  "outside_wait CIdle = True"
| "outside_wait (CDone n) = True"
| "outside_wait _ = False"

definition destroy_begin :: "('f, 'a) thpool \<Rightarrow> ('f, 'a) thpool option" where
  "destroy_begin s =
     (if tp_destroying s \<or> \<not> list_all outside_wait (tp_clients s) then None
      else Some (s\<lparr>tp_destroying := True, tp_keepalive := False\<rparr>))"

definition destroy_poll :: "('f, 'a) thpool \<Rightarrow> ('f, 'a) thpool option" where
  "destroy_poll s =
     (if \<not> tp_destroying s \<or> tp_freed s then None
      else if tp_alive s \<noteq> 0
      then Some (s\<lparr>tp_jobqueue := (tp_jobqueue s)\<lparr>jq_has_jobs := bsem_post_all (jq_has_jobs (tp_jobqueue s))\<rparr>,
                   tp_workers := broadcast_has_jobs (tp_workers s)\<rparr>)
      else case jobqueue_destroy (tp_heap s) (tp_jobqueue s) of
             None \<Rightarrow> None
           | Some (Dies m) \<Rightarrow> Some (s\<lparr>tp_fault := True\<rparr>)
           | Some (Returns h) \<Rightarrow> Some (s\<lparr>tp_heap := h, tp_freed := True\<rparr>))"

section \<open>The system\<close>

text \<open>The callers have the pool once \<open>thpool_init\<close> has returned it.\<close>

datatype ('f, 'a) tp_event =
    InitReturn
  | Worker nat "nat option"
  | WorkerSpurious nat
  | AddWork 'f 'a "nat option" "nat option"
  | Client nat
  | ClientSpurious nat
  | Pause
  | Resume
  | Hold nat
  | DestroyBegin
  | DestroyPoll

fun tp_exec :: "('f, 'a) thpool \<Rightarrow> ('f, 'a) tp_event \<Rightarrow> ('f, 'a) thpool option" where
  "tp_exec s InitReturn = (if tp_ready s then None else thpool_init_return s)"
| "tp_exec s (Worker i w) = (if tp_fault s then None else worker_step i w s)"
| "tp_exec s (WorkerSpurious i) =
     (if i < length (tp_workers s) \<and> tp_workers s ! i = WSleep then Some (goto i WSem s) else None)"
| "tp_exec s (AddWork f x m w) = (if tp_fault s \<or> \<not> tp_ready s then None else add_work_step f x m w s)"
| "tp_exec s (Client i) = (if \<not> tp_ready s then None else thpool_wait i s)"
| "tp_exec s (ClientSpurious i) =
     (if i < length (tp_clients s) \<and> sleeping_client (tp_clients s ! i)
      then Some (cgoto i (awake (tp_clients s ! i)) s) else None)"
| "tp_exec s Pause = (if tp_freed s \<or> \<not> tp_ready s then None else Some (thpool_pause s))"
| "tp_exec s Resume = Some (thpool_resume s)"
| "tp_exec s (Hold i) = thread_hold i s"
| "tp_exec s DestroyBegin = (if \<not> tp_ready s then None else destroy_begin s)"
| "tp_exec s DestroyPoll = (if tp_fault s then None else destroy_poll s)"

text \<open>The start: a pool that \<open>thpool_init\<close> made with every allocation and thread succeeding.\<close>

definition tp_start :: "nat \<Rightarrow> nat \<Rightarrow> ('f, 'a) thpool" where
  "tp_start n cl =
     (case thpool_init (int n) True True True (\<lambda>_. (True, True)) cl of
        Returns (Some s) \<Rightarrow> s)"

lemma thread_init_all_ok: "thread_init_all (map (\<lambda>_. (True, True)) xs) ws = Returns (ws @ replicate (length xs) WNew)"
  by (induction xs arbitrary: ws) (auto simp: thread_init_def replicate_append_same [symmetric])

lemma tp_start_eq:
  "tp_start n cl = \<lparr>tp_alive = 0, tp_working = 0, tp_thcount_lock = False,
     tp_jobqueue = \<lparr>jq_front = None, jq_rear = None, jq_has_jobs = \<lparr>bs_v = 0\<rparr>, jq_len = 0\<rparr>,
     tp_heap = Map.empty, tp_num_threads = int n, tp_ready = False, tp_keepalive = True, tp_on_hold = False, tp_workers = replicate n WNew,
     tp_pending = replicate n False, tp_held = replicate n False,
     tp_clients = replicate cl CIdle, tp_destroying = False, tp_freed = False,
     tp_fault = False, tp_added = [], tp_pulled = 0, tp_runs = [], tp_finished = []\<rparr>"
  using thread_init_all_ok [of "[0..<n]" "[]"]
  by (simp add: tp_start_def thpool_init_def jobqueue_init_def bsem_init_def)


section \<open>The invariant\<close>

text \<open>The job a worker has taken: its number, its cell, and whether its function was called.\<close>

fun busy :: "wpc \<Rightarrow> (nat \<times> nat \<times> bool) option" where
  "busy (WCall k p) = Some (k, p, False)"
| "busy (WBusy k p) = Some (k, p, True)"
| "busy _ = None"

definition taken :: "wpc list \<Rightarrow> nat \<Rightarrow> (nat \<times> nat \<times> bool) option" where
  "taken ws i = (if i < length ws then busy (ws ! i) else None)"

text \<open>
  The cells in use are those of the queue and those of the jobs taken; the queue holds the jobs
  not yet pulled, in order.
\<close>

definition heap_ok ::
  "('f, 'a) heap \<Rightarrow> jobqueue \<Rightarrow> ('f \<times> 'a) list \<Rightarrow> nat \<Rightarrow> (nat \<Rightarrow> (nat \<times> nat \<times> bool) option) \<Rightarrow> nat list \<Rightarrow> bool" where
  "heap_ok h q added np H as \<longleftrightarrow>
     jq_cells h q as \<and> np \<le> length added \<and> map (work h) as = map Some (drop np added) \<and>
     dom h = set as \<union> {p. \<exists>k r. (k, p, r) \<in> ran H} \<and>
     (\<forall>i k p r. H i = Some (k, p, r) \<longrightarrow> p \<notin> set as \<and> k < np \<and> work h p = Some (added ! k)) \<and>
     (\<forall>i j k p r k' p' r'. H i = Some (k, p, r) \<and> H j = Some (k', p', r') \<and> i \<noteq> j \<longrightarrow> k \<noteq> k' \<and> p \<noteq> p')"

text \<open>Each pulled job is finished or with a worker, and each call made is of a different job.\<close>

definition jobs_ok ::
  "('f \<times> 'a) list \<Rightarrow> nat \<Rightarrow> (nat \<Rightarrow> (nat \<times> nat \<times> bool) option) \<Rightarrow> (nat \<times> 'f \<times> 'a) list \<Rightarrow> nat set \<Rightarrow> bool" where
  "jobs_ok added np H runs fin \<longleftrightarrow>
     (\<forall>k<np. k \<in> fin \<or> (\<exists>p r. (k, p, r) \<in> ran H)) \<and> fin \<subseteq> {..<np} \<and>
     (\<forall>i k p r. H i = Some (k, p, r) \<longrightarrow> k \<notin> fin) \<and> distinct (map fst runs) \<and>
     (\<forall>k. k \<in> fst ` set runs \<longleftrightarrow> k \<in> fin \<or> (\<exists>p. (k, p, True) \<in> ran H)) \<and>
     (\<forall>k w. (k, w) \<in> set runs \<longrightarrow> w = added ! k)"

fun counted_alive :: "wpc \<Rightarrow> bool" where
  "counted_alive p = (p \<noteq> WNew \<and> p \<noteq> WUnlock \<and> p \<noteq> WDead)"

fun counted_working :: "wpc \<Rightarrow> bool" where
  "counted_working WPull = True"
| "counted_working (WCall k p) = True"
| "counted_working (WBusy k p) = True"
| "counted_working WDone = True"
| "counted_working _ = False"

fun holds_count_lock :: "cpc \<Rightarrow> bool" where
  "holds_count_lock (CHold n) = True"
| "holds_count_lock (CLenZero n) = True"
| "holds_count_lock (CNoGo n) = True"
| "holds_count_lock _ = False"

fun leaving :: "wpc \<Rightarrow> bool" where
  "leaving p = (p = WExit \<or> p = WUnlock \<or> p = WDead)"

definition counts_ok :: "('f, 'a) thpool \<Rightarrow> bool" where
  "counts_ok s \<longleftrightarrow>
     tp_alive s = icount counted_alive (tp_workers s) \<and>
     tp_working s = icount counted_working (tp_workers s) \<and>
     icount holds_count_lock (tp_clients s) + icount ((=) WUnlock) (tp_workers s)
       = of_bool (tp_thcount_lock s) \<and>
     int (length (tp_workers s)) \<le> tp_num_threads s \<and>
     (tp_ready s \<longrightarrow> icount ((=) WNew) (tp_workers s) = 0) \<and>
     (tp_destroying s \<longleftrightarrow> \<not> tp_keepalive s) \<and> (tp_destroying s \<longrightarrow> tp_ready s) \<and>
     (tp_keepalive s \<longrightarrow> icount leaving (tp_workers s) = 0)"

text \<open>
  No wake-up of a worker is lost: a job in the queue has the semaphore up or a worker on its way
  to it, and when the semaphore is up, not all workers inside \<open>bsem_wait\<close> are asleep.
\<close>

definition on_its_way :: "wpc \<Rightarrow> bool" where
  "on_its_way p \<longleftrightarrow> p = WGot \<or> p = WCount \<or> p = WPull"

definition wake_ok :: "bool \<Rightarrow> jobqueue \<Rightarrow> wpc list \<Rightarrow> bool" where
  "wake_ok alive q ws \<longleftrightarrow>
     (alive \<and> jq_len q \<noteq> 0 \<longrightarrow> bs_v (jq_has_jobs q) = 1 \<or> 0 < icount on_its_way ws) \<and>
     (bs_v (jq_has_jobs q) = 1 \<and> 0 < icount ((=) WSleep) ws \<longrightarrow> 0 < icount ((=) WSem) ws)"

fun client_ok :: "nat \<Rightarrow> nat \<Rightarrow> nat set \<Rightarrow> cpc \<Rightarrow> bool" where
  "client_ok na np fin CIdle = True"
| "client_ok na np fin (CLock n) = (n \<le> na)"
| "client_ok na np fin (CHold n) = (n \<le> na)"
| "client_ok na np fin (CLenZero n) = (n \<le> np)"
| "client_ok na np fin (CNoGo n) = (n \<le> na)"
| "client_ok na np fin (CSleep n) = (n \<le> na)"
| "client_ok na np fin (CDone n) = (\<forall>k<n. k \<in> fin)"

fun will_sleep :: "cpc \<Rightarrow> bool" where
  "will_sleep (CNoGo n) = True"
| "will_sleep (CSleep n) = True"
| "will_sleep _ = False"

definition clients_ok :: "('f, 'a) thpool \<Rightarrow> bool" where
  "clients_ok s \<longleftrightarrow>
     list_all (client_ok (length (tp_added s)) (tp_pulled s) (set (tp_finished s))) (tp_clients s) \<and>
     (length (tp_clients s) \<le> 1 \<and> (\<exists>c\<in>set (tp_clients s). will_sleep c) \<longrightarrow>
        jq_len (tp_jobqueue s) \<noteq> 0 \<or> tp_working s \<noteq> 0)"

definition data_ok :: "('f, 'a) thpool \<Rightarrow> bool" where
  "data_ok s \<longleftrightarrow>
     (\<exists>as. heap_ok (tp_heap s) (tp_jobqueue s) (tp_added s) (tp_pulled s) (taken (tp_workers s)) as) \<and>
     jobs_ok (tp_added s) (tp_pulled s) (taken (tp_workers s)) (tp_runs s) (set (tp_finished s))"

definition tp_Inv :: "('f, 'a) thpool \<Rightarrow> bool" where
  "tp_Inv s \<longleftrightarrow> tp_freed s \<or>
     (\<not> tp_fault s \<and> data_ok s \<and> counts_ok s \<and>
      wake_ok (tp_keepalive s) (tp_jobqueue s) (tp_workers s) \<and> clients_ok s)"

section \<open>Facts about updates\<close>

lemma taken_update: "i < length ws \<Longrightarrow> taken (ws[i := p]) = (taken ws)(i := busy p)"
  by (auto simp: taken_def)

lemma taken_same: "i < length ws \<Longrightarrow> busy p = busy (ws ! i) \<Longrightarrow> taken (ws[i := p]) = taken ws"
  by (auto simp: taken_def nth_list_update)

lemma signal_has_jobs_cases:
  assumes "signal_has_jobs w ws = Some ws'"
  obtains "ws' = ws" "WSleep \<notin> set ws"
    | j where "j < length ws" "ws ! j = WSleep" "ws' = ws[j := WSem]"
proof (cases w)
  case None
  with assms that(1) show ?thesis by (simp add: signal_has_jobs_def split: if_splits)
next
  case (Some j)
  with assms that(2) [of j] show ?thesis by (simp add: signal_has_jobs_def split: if_splits)
qed

lemma set_update_other:
  "j < length ws \<Longrightarrow> p \<noteq> ws ! j \<Longrightarrow> p \<in> set (ws[j := q]) \<longleftrightarrow> p = q \<or> p \<in> set ws"
  by (auto simp: in_set_update_iff)

lemma signal_has_jobs_length: "signal_has_jobs w ws = Some ws' \<Longrightarrow> length ws' = length ws"
  by (elim signal_has_jobs_cases) auto

lemma signal_has_jobs_taken: "signal_has_jobs w ws = Some ws' \<Longrightarrow> taken ws' = taken ws"
  by (elim signal_has_jobs_cases) (auto simp: taken_same)

lemma signal_has_jobs_nth:
  "signal_has_jobs w ws = Some ws' \<Longrightarrow> i < length ws \<Longrightarrow> ws ! i \<noteq> WSleep \<Longrightarrow> ws' ! i = ws ! i"
  by (elim signal_has_jobs_cases) (auto simp: nth_list_update)

lemma signal_has_jobs_icount:
  "signal_has_jobs w ws = Some ws' \<Longrightarrow> P WSleep = P WSem \<Longrightarrow> icount P ws' = icount P ws"
  by (elim signal_has_jobs_cases) auto

lemma signal_has_jobs_wakes:
  assumes "signal_has_jobs w ws = Some ws'" "0 < icount ((=) WSleep) ws'"
  shows "0 < icount ((=) WSem) ws'"
  using assms(1)
proof (cases rule: signal_has_jobs_cases)
  case 1
  with assms(2) show ?thesis by (auto simp: icount_pos_iff)
next
  case (2 j)
  then show ?thesis using icount_nonneg [of "(=) WSem" ws] by simp
qed

lemmas signal_has_jobs_facts =
  signal_has_jobs_length signal_has_jobs_taken signal_has_jobs_icount

lemma broadcast_has_jobs_facts:
  "length (broadcast_has_jobs ws) = length ws"
  "taken (broadcast_has_jobs ws) = taken ws"
  "icount ((=) WSleep) (broadcast_has_jobs ws) = 0"
  by (auto simp: broadcast_has_jobs_def taken_def icount_zero_iff)

lemma broadcast_has_jobs_icount:
  "P WSleep = P WSem \<Longrightarrow> icount P (broadcast_has_jobs ws) = icount P ws"
  by (induction ws) (auto simp: broadcast_has_jobs_def)

lemma signal_all_idle_cases:
  assumes "signal_all_idle w cs = Some cs'"
  obtains "cs' = cs" "\<not> (\<exists>c\<in>set cs. sleeping_client c)"
    | j where "j < length cs" "sleeping_client (cs ! j)" "cs' = cs[j := awake (cs ! j)]"
proof (cases w)
  case None
  with assms that(1) show ?thesis by (simp add: signal_all_idle_def split: if_splits)
next
  case (Some j)
  with assms that(2) [of j] show ?thesis by (simp add: signal_all_idle_def split: if_splits)
qed

lemma signal_all_idle_locks:
  "signal_all_idle w cs = Some cs' \<Longrightarrow> icount holds_count_lock cs' = icount holds_count_lock cs"
  by (elim signal_all_idle_cases) (auto elim!: sleeping_client.elims)

lemma signal_all_idle_length: "signal_all_idle w cs = Some cs' \<Longrightarrow> length cs' = length cs"
  by (elim signal_all_idle_cases) auto

section \<open>What each operation does to the jobs\<close>

lemma jq_cells_has_jobs [simp]: "jq_cells h (q\<lparr>jq_has_jobs := b\<rparr>) as = jq_cells h q as"
  by (simp add: jq_cells_def)

lemma heap_ok_has_jobs [simp]: "heap_ok h (q\<lparr>jq_has_jobs := b\<rparr>) added np H as = heap_ok h q added np H as"
  by (simp add: heap_ok_def)

lemma heap_okD:
  assumes "heap_ok h q added np H as"
  shows "jq_cells h q as" "np \<le> length added" "map (work h) as = map Some (drop np added)"
    "dom h = set as \<union> {p. \<exists>k r. (k, p, r) \<in> ran H}"
    "H i = Some (k, p, r) \<Longrightarrow> p \<notin> set as" "H i = Some (k, p, r) \<Longrightarrow> k < np"
    "H i = Some (k, p, r) \<Longrightarrow> work h p = Some (added ! k)"
    "H i = Some (k, p, r) \<Longrightarrow> H j = Some (k', p', r') \<Longrightarrow> i \<noteq> j \<Longrightarrow> k \<noteq> k' \<and> p \<noteq> p'"
  using assms unfolding heap_ok_def by blast+

lemma heap_okI:
  assumes "jq_cells h q as" "np \<le> length added" "map (work h) as = map Some (drop np added)"
    "dom h = set as \<union> {p. \<exists>k r. (k, p, r) \<in> ran H}"
    "\<And>i k p r. H i = Some (k, p, r) \<Longrightarrow> p \<notin> set as \<and> k < np \<and> work h p = Some (added ! k)"
    "\<And>i j k p r k' p' r'. H i = Some (k, p, r) \<Longrightarrow> H j = Some (k', p', r') \<Longrightarrow> i \<noteq> j \<Longrightarrow> k \<noteq> k' \<and> p \<noteq> p'"
  shows "heap_ok h q added np H as"
  using assms unfolding heap_ok_def by blast

lemma heap_ok_length:
  assumes "heap_ok h q added np H as"
  shows "length as = length added - np" "jq_len q = int (length added - np)"
proof -
  have "length (map (work h) as) = length (map Some (drop np added))"
    by (simp only: heap_okD(3) [OF assms])
  then show *: "length as = length added - np" by simp
  from heap_okD(1) [OF assms] show "jq_len q = int (length added - np)"
    by (simp add: jq_cells_def *)
qed

lemma heap_ok_pull_cells:
  assumes ok: "heap_ok h q added np H (p # as)" and q': "jq_cells h q' as" and H: "H i = None"
  shows "heap_ok h q' added (Suc np) (H(i := Some (np, p, False))) as"
proof (rule heap_okI)
  have p: "p \<notin> set as" using jq_cells_distinct [OF heap_okD(1) [OF ok]] by simp
  have np: "np < length added" using heap_ok_length(1) [OF ok] by simp
  then show "Suc np \<le> length added" by simp
  have eq: "work h p # map (work h) as = Some (added ! np) # map Some (drop (Suc np) added)"
    using heap_okD(3) [OF ok] Cons_nth_drop_Suc [OF np, symmetric] by (metis list.simps(9))
  then show "map (work h) as = map Some (drop (Suc np) added)" by simp
  show "dom h = set as \<union> {b. \<exists>k r. (k, b, r) \<in> ran (H(i := Some (np, p, False)))}"
    using heap_okD(4) [OF ok] H by (auto simp: ran_map_upd)
  show "b \<notin> set as \<and> k < Suc np \<and> work h b = Some (added ! k)"
    if "(H(i := Some (np, p, False))) j = Some (k, b, r)" for j k b r
  proof (cases "j = i")
    case True
    with that p eq show ?thesis by auto
  next
    case False
    with that have "H j = Some (k, b, r)" by simp
    then show ?thesis using heap_okD(5-7) [OF ok, of j k b r] by auto
  qed
  show "k \<noteq> k' \<and> b \<noteq> b'"
    if "(H(i := Some (np, p, False))) j = Some (k, b, r)" "(H(i := Some (np, p, False))) j' = Some (k', b', r')"
      "j \<noteq> j'" for j j' k b r k' b' r'
  proof -
    have old: "x \<noteq> np \<and> y \<noteq> p" if "H l = Some (x, y, z)" for l x y z
      using heap_okD(5,6) [OF ok that] by auto
    from that show ?thesis
      using heap_okD(8) [OF ok, of j k b r j' k' b' r'] old [of j k b r] old [of j' k' b' r']
      by (auto split: if_splits)
  qed
qed (rule q')

lemma heap_ok_pull:
  assumes ok: "heap_ok h q added np H as" and len: "jq_len q \<noteq> 0" and H: "H i = None"
  shows "\<exists>p q' as'. jobqueue_pull h q = Returns (Some p, q') \<and>
    heap_ok h q' added (Suc np) (H(i := Some (np, p, False))) as' \<and>
    jq_len q' = jq_len q - 1 \<and>
    bs_v (jq_has_jobs q') = (if jq_len q > 1 then 1 else bs_v (jq_has_jobs q))"
proof -
  note cells = heap_okD(1) [OF ok]
  with len obtain p as' where as: "as = p # as'" by (cases as) (auto simp: jq_cells_def)
  from jobqueue_pull_cells [OF cells [unfolded as]] obtain q' where
    q': "jobqueue_pull h q = Returns (Some p, q')" "jq_cells h q' as'"
      "bs_v (jq_has_jobs q') = (if as' = [] then bs_v (jq_has_jobs q) else 1)" by blast
  have "jq_len q = int (length as') + 1" "jq_len q' = int (length as')"
    using cells q'(2) as by (simp_all add: jq_cells_def)
  moreover from this have "as' = [] \<longleftrightarrow> \<not> jq_len q > 1" by auto
  ultimately show ?thesis
    using q' heap_ok_pull_cells [OF ok [unfolded as] q'(2) H] by auto
qed

lemma jobs_okD:
  assumes "jobs_ok added np H runs fin"
  shows "k < np \<Longrightarrow> k \<in> fin \<or> (\<exists>p r. (k, p, r) \<in> ran H)" "fin \<subseteq> {..<np}"
    "H i = Some (k, p, r) \<Longrightarrow> k \<notin> fin" "distinct (map fst runs)"
    "k \<in> fst ` set runs \<longleftrightarrow> k \<in> fin \<or> (\<exists>p. (k, p, True) \<in> ran H)"
    "(k, w) \<in> set runs \<Longrightarrow> w = added ! k"
proof -
  note u = assms [unfolded jobs_ok_def]
  show "k < np \<Longrightarrow> k \<in> fin \<or> (\<exists>p r. (k, p, r) \<in> ran H)" "fin \<subseteq> {..<np}" "distinct (map fst runs)"
    "k \<in> fst ` set runs \<longleftrightarrow> k \<in> fin \<or> (\<exists>p. (k, p, True) \<in> ran H)"
    using u by simp_all
  show "H i = Some (k, p, r) \<Longrightarrow> k \<notin> fin" using u by metis
  show "(k, w) \<in> set runs \<Longrightarrow> w = added ! k" using u by metis
qed

lemma jobs_okI:
  assumes "\<And>k. k < np \<Longrightarrow> k \<in> fin \<or> (\<exists>p r. (k, p, r) \<in> ran H)" "fin \<subseteq> {..<np}"
    "\<And>i k p r. H i = Some (k, p, r) \<Longrightarrow> k \<notin> fin" "distinct (map fst runs)"
    "\<And>k. k \<in> fst ` set runs \<longleftrightarrow> k \<in> fin \<or> (\<exists>p. (k, p, True) \<in> ran H)"
    "\<And>k w. (k, w) \<in> set runs \<Longrightarrow> w = added ! k"
  shows "jobs_ok added np H runs fin"
  using assms by (simp add: jobs_ok_def)

lemma jobs_ok_pull:
  assumes ok: "jobs_ok added np H runs fin" and H: "H i = None"
  shows "jobs_ok added (Suc np) (H(i := Some (np, p, False))) runs fin"
proof (rule jobs_okI)
  let ?H = "H(i := Some (np, p, False))"
  have ran: "ran ?H = insert (np, p, False) (ran H)" using H by (rule ran_map_upd)
  show "k \<in> fin \<or> (\<exists>p r. (k, p, r) \<in> ran ?H)" if "k < Suc np" for k
    using that jobs_okD(1) [OF ok, of k] unfolding ran by (cases "k = np") auto
  show "fin \<subseteq> {..<Suc np}" using jobs_okD(2) [OF ok] by auto
  show "k \<notin> fin" if "?H j = Some (k, b, r)" for j k b r
    using that jobs_okD(2) [OF ok] jobs_okD(3) [OF ok, of j k b r] by (cases "j = i") auto
  show "k \<in> fst ` set runs \<longleftrightarrow> k \<in> fin \<or> (\<exists>p. (k, p, True) \<in> ran ?H)" for k
    using jobs_okD(5) [OF ok, of k] unfolding ran by simp
qed (use jobs_okD(4,6) [OF ok] in auto)

text \<open>A function is called with the cell's contents; the call is logged.\<close>

lemma ran_move:
  assumes "H i = Some x"
  shows "ran (H(i := y)) = ran (H(i := None)) \<union> set_option y"
    "ran H = insert x (ran (H(i := None)))"
proof -
  show "ran (H(i := y)) = ran (H(i := None)) \<union> set_option y"
    by (cases y) (auto simp: ran_def)
  have "H = (H(i := None))(i \<mapsto> x)" using assms by auto
  then show "ran H = insert x (ran (H(i := None)))"
    using ran_map_upd [of "H(i := None)" i x] by simp
qed

lemma heap_ok_called:
  assumes ok: "heap_ok h q added np H as" and H: "H i = Some (k, p, r)"
  shows "heap_ok h q added np (H(i := Some (k, p, r'))) as"
proof (rule heap_okI)
  show "dom h = set as \<union> {b. \<exists>ka ra. (ka, b, ra) \<in> ran (H(i := Some (k, p, r')))}"
    unfolding ran_move(1) [of H i, OF H, of "Some (k, p, r')"] heap_okD(4) [OF ok]
      ran_move(2) [of H i, OF H] by auto
  show "b \<notin> set as \<and> n < np \<and> work h b = Some (added ! n)"
    if "(H(i := Some (k, p, r'))) j = Some (n, b, z)" for j n b z
    using that heap_okD(5-7) [OF ok, of j n b z] heap_okD(5-7) [OF ok H] by (cases "j = i") auto
  show "n \<noteq> n' \<and> b \<noteq> b'"
    if "(H(i := Some (k, p, r'))) j = Some (n, b, z)" "(H(i := Some (k, p, r'))) j' = Some (n', b', z')"
      "j \<noteq> j'" for j j' n b z n' b' z'
    using that heap_okD(8) [OF ok, of j n b z j' n' b' z'] heap_okD(8) [OF ok H, of j' n' b' z']
      heap_okD(8) [OF ok _ H, of j n b z] by (auto split: if_splits)
qed (use heap_okD(1-3) [OF ok] in auto)

lemma jobs_ok_called:
  assumes ok: "jobs_ok added np H runs fin" and H: "H i = Some (k, p, False)"
    and uniq: "\<And>j k' p' r'. H j = Some (k', p', r') \<Longrightarrow> j \<noteq> i \<Longrightarrow> k' \<noteq> k"
  shows "jobs_ok added np (H(i := Some (k, p, True))) (runs @ [(k, added ! k)]) fin"
proof (rule jobs_okI)
  let ?R = "ran (H(i := None))"
  note new = ran_move(1) [of H i, OF H, of "Some (k, p, True)"]
  note old = ran_move(2) [of H i, OF H]
  have k: "(k, b, z) \<notin> ?R" for b z using uniq by (auto simp: ran_def split: if_splits)
  have nofin: "k \<notin> fin" using jobs_okD(3) [OF ok H] .
  have "k \<notin> fst ` set runs" unfolding jobs_okD(5) [OF ok] old using nofin k by auto
  then show "distinct (map fst (runs @ [(k, added ! k)]))" using jobs_okD(4) [OF ok] by simp
  show "n \<in> fin \<or> (\<exists>b z. (n, b, z) \<in> ran (H(i := Some (k, p, True))))" if "n < np" for n
    using that jobs_okD(1) [OF ok, of n] unfolding new old by auto
  show "n \<notin> fin" if "(H(i := Some (k, p, True))) j = Some (n, b, z)" for j n b z
    using that jobs_okD(3) [OF ok, of j n b z] nofin by (cases "j = i") auto
  show "n \<in> fst ` set (runs @ [(k, added ! k)]) \<longleftrightarrow>
      n \<in> fin \<or> (\<exists>b. (n, b, True) \<in> ran (H(i := Some (k, p, True))))" for n
    using jobs_okD(5) [OF ok, of n] unfolding new old by auto
qed (use jobs_okD(2,6) [OF ok] in auto)

text \<open>A job that returns is finished and its cell is freed.\<close>

lemma heap_ok_finished:
  assumes ok: "heap_ok h q added np H as" and H: "H i = Some (k, p, r)"
  shows "heap_ok (h(p := None)) q added np (H(i := None)) as"
proof (rule heap_okI)
  have p: "p \<notin> set as" using heap_okD(5) [OF ok H] .
  show "jq_cells (h(p := None)) q as" by (rule jq_cells_frame [OF heap_okD(1) [OF ok] p])
  have same: "work (h(p := None)) b = work h b" if "b \<noteq> p" for b
    using that by (simp add: work_def)
  have "map (work (h(p := None))) as = map (work h) as"
    by (rule map_cong [OF refl]) (use p same in metis)
  then show "map (work (h(p := None))) as = map Some (drop np added)"
    using heap_okD(3) [OF ok] by simp
  have others: "b \<noteq> p" if "(n, b, z) \<in> ran (H(i := None))" for n b z
    using that heap_okD(8) [OF ok H] by (auto simp: ran_def split: if_splits)
  show "dom (h(p := None)) = set as \<union> {b. \<exists>n z. (n, b, z) \<in> ran (H(i := None))}"
    using heap_okD(4) [OF ok] p others unfolding ran_move(2) [of H i, OF H] by auto
  show "b \<notin> set as \<and> n < np \<and> work (h(p := None)) b = Some (added ! n)"
    if "(H(i := None)) j = Some (n, b, z)" for j n b z
  proof -
    from that have H: "H j = Some (n, b, z)" and "(n, b, z) \<in> ran (H(i := None))"
      by (auto simp: ran_def split: if_splits)
    then show ?thesis using heap_okD(5-7) [OF ok H] others same by simp
  qed
  show "n \<noteq> n' \<and> b \<noteq> b'"
    if "(H(i := None)) j = Some (n, b, z)" "(H(i := None)) j' = Some (n', b', z')" "j \<noteq> j'"
    for j j' n b z n' b' z'
    using that heap_okD(8) [OF ok, of j n b z j' n' b' z'] by (auto split: if_splits)
qed (rule heap_okD(2) [OF ok])

lemma jobs_ok_finished:
  assumes ok: "jobs_ok added np H runs fin" and H: "H i = Some (k, p, True)" and k: "k < np"
    and uniq: "\<And>j k' p' r'. H j = Some (k', p', r') \<Longrightarrow> j \<noteq> i \<Longrightarrow> k' \<noteq> k"
  shows "jobs_ok added np (H(i := None)) runs (insert k fin)"
proof (rule jobs_okI)
  note old = ran_move(2) [of H i, OF H]
  show "n \<in> insert k fin \<or> (\<exists>b z. (n, b, z) \<in> ran (H(i := None)))" if "n < np" for n
    using that jobs_okD(1) [OF ok, of n] unfolding old by auto
  show "insert k fin \<subseteq> {..<np}" using jobs_okD(2) [OF ok] k by simp
  show "n \<notin> insert k fin" if "(H(i := None)) j = Some (n, b, z)" for j n b z
    using that jobs_okD(3) [OF ok, of j n b z] uniq [of j n b z] by (auto split: if_splits)
  show "n \<in> fst ` set runs \<longleftrightarrow> n \<in> insert k fin \<or> (\<exists>b. (n, b, True) \<in> ran (H(i := None)))" for n
    using jobs_okD(5) [OF ok, of n] unfolding old by auto
qed (use jobs_okD(4,6) [OF ok] in auto)

text \<open>A job that is added is queued behind all others.\<close>

lemma heap_ok_added:
  assumes ok: "heap_ok h q added np H as" and a: "h a = None"
  shows "\<exists>h' q'. thpool_add_work h q (Some a) f x = Returns (0, h', q') \<and>
    heap_ok h' q' (added @ [(f, x)]) np H (as @ [a]) \<and> bs_v (jq_has_jobs q') = 1"
proof -
  from thpool_add_work_cells [OF heap_okD(1) [OF ok] a] obtain h' q' where
    add: "thpool_add_work h q (Some a) f x = Returns (0, h', q')" "jq_cells h' q' (as @ [a])"
      "bs_v (jq_has_jobs q') = 1" "dom h' = insert a (dom h)" "work h' a = Some (f, x)"
      "\<And>b. b \<noteq> a \<Longrightarrow> work h' b = work h b" by blast
  note np = heap_okD(2) [OF ok]
  have na: "a \<notin> set as" "(k, a, r) \<notin> ran H" for k r using heap_okD(4) [OF ok] a by auto
  have "heap_ok h' q' (added @ [(f, x)]) np H (as @ [a])"
  proof (rule heap_okI)
    show "jq_cells h' q' (as @ [a])" by (rule add(2))
    show "np \<le> length (added @ [(f, x)])" using np by simp
    have "map (work h') as = map (work h) as" by (rule map_cong [OF refl]) (use na(1) add(6) in metis)
    then show "map (work h') (as @ [a]) = map Some (drop np (added @ [(f, x)]))"
      using heap_okD(3) [OF ok] add(5) np by simp
    show "dom h' = set (as @ [a]) \<union> {b. \<exists>k r. (k, b, r) \<in> ran H}"
      unfolding add(4) heap_okD(4) [OF ok] by auto
    show "b \<notin> set (as @ [a]) \<and> k < np \<and> work h' b = Some ((added @ [(f, x)]) ! k)"
      if "H i = Some (k, b, r)" for i k b r
    proof -
      have "b \<noteq> a" using that na(2) by (auto simp: ran_def)
      then show ?thesis using heap_okD(5-7) [OF ok that] add(6) [of b] np by (simp add: nth_append)
    qed
    show "k \<noteq> k' \<and> b \<noteq> b'" if "H i = Some (k, b, r)" "H j = Some (k', b', r')" "i \<noteq> j"
      for i j k b r k' b' r'
      by (rule heap_okD(8) [OF ok that])
  qed
  with add(1,3) show ?thesis by blast
qed

lemma jobs_ok_added:
  assumes ok: "jobs_ok added np H runs fin" and np: "np \<le> length added"
    and H: "\<And>i k p r. H i = Some (k, p, r) \<Longrightarrow> k < np"
  shows "jobs_ok (added @ [w]) np H runs fin"
proof (rule jobs_okI)
  fix k v assume kv: "(k, v) \<in> set runs"
  then have "k \<in> fst ` set runs" by force
  then have "k < np" using jobs_okD(2) [OF ok] H unfolding jobs_okD(5) [OF ok] by (auto simp: ran_def)
  with np jobs_okD(6) [OF ok kv] show "v = (added @ [w]) ! k" by (simp add: nth_append)
qed (use jobs_okD(1-5) [OF ok] in auto)

section \<open>The worker keeps the invariant\<close>

lemma thread_do_cases [consumes 1, case_names New Top Down Up Got Count PullFault PullNone Pull
    CallFault Call Busy Done Exit Unlock]:
  assumes "thread_do i w s = Some t"
  obtains
    "tp_workers s ! i = WNew" "\<not> tp_thcount_lock s" "t = goto i WTop (s\<lparr>tp_alive := tp_alive s + 1\<rparr>)"
  | "tp_workers s ! i = WTop" "t = goto i (if tp_keepalive s then WSem else WExit) s"
  | "tp_workers s ! i = WSem" "bs_v (jq_has_jobs (tp_jobqueue s)) \<noteq> 1" "t = goto i WSleep s"
  | "tp_workers s ! i = WSem" "bs_v (jq_has_jobs (tp_jobqueue s)) = 1"
    "t = goto i WGot (s\<lparr>tp_jobqueue := (tp_jobqueue s)\<lparr>jq_has_jobs := (jq_has_jobs (tp_jobqueue s))\<lparr>bs_v := 0\<rparr>\<rparr>\<rparr>)"
  | "tp_workers s ! i = WGot" "t = goto i (if tp_keepalive s then WCount else WTop) s"
  | "tp_workers s ! i = WCount" "\<not> tp_thcount_lock s" "t = goto i WPull (s\<lparr>tp_working := tp_working s + 1\<rparr>)"
  | m where "tp_workers s ! i = WPull" "jobqueue_pull (tp_heap s) (tp_jobqueue s) = Dies m"
    "t = s\<lparr>tp_fault := True\<rparr>"
  | q where "tp_workers s ! i = WPull" "jobqueue_pull (tp_heap s) (tp_jobqueue s) = Returns (None, q)"
    "t = goto i WDone (s\<lparr>tp_jobqueue := q\<rparr>)"
  | p q ws where "tp_workers s ! i = WPull"
    "jobqueue_pull (tp_heap s) (tp_jobqueue s) = Returns (Some p, q)"
    "(if jq_len (tp_jobqueue s) > 1 then signal_has_jobs w (tp_workers s) else Some (tp_workers s)) = Some ws"
    "t = s\<lparr>tp_jobqueue := q, tp_workers := ws[i := WCall (tp_pulled s) p], tp_pulled := tp_pulled s + 1\<rparr>"
  | k p m where "tp_workers s ! i = WCall k p" "deref (tp_heap s) (Some p) = Dies m" "t = s\<lparr>tp_fault := True\<rparr>"
  | k p j where "tp_workers s ! i = WCall k p" "tp_heap s p = Some j"
    "t = goto i (WBusy k p) (s\<lparr>tp_runs := tp_runs s @ [(k, job_function j, job_arg j)]\<rparr>)"
  | k p where "tp_workers s ! i = WBusy k p"
    "t = goto i WDone (s\<lparr>tp_heap := (tp_heap s)(p := None), tp_finished := tp_finished s @ [k]\<rparr>)"
  | cs where "tp_workers s ! i = WDone" "\<not> tp_thcount_lock s"
    "(if tp_working s - 1 = 0 then signal_all_idle w (tp_clients s) else Some (tp_clients s)) = Some cs"
    "t = goto i WTop (s\<lparr>tp_working := tp_working s - 1, tp_clients := cs\<rparr>)"
  | "tp_workers s ! i = WExit" "\<not> tp_thcount_lock s"
    "t = goto i WUnlock (s\<lparr>tp_alive := tp_alive s - 1, tp_thcount_lock := True\<rparr>)"
  | "tp_workers s ! i = WUnlock" "t = goto i WDead (s\<lparr>tp_thcount_lock := False\<rparr>)"
proof (cases "tp_workers s ! i")
  case WSem
  with assms that(3,4) show ?thesis by (simp add: thread_do_def bsem_wait_def split: if_splits)
next
  case WPull
  then show ?thesis
  proof (cases "jobqueue_pull (tp_heap s) (tp_jobqueue s)")
    case (Dies m)
    with WPull assms that(7) show ?thesis by (simp add: thread_do_def)
  next
    case (Returns r)
    obtain po q where r: "r = (po, q)" by (cases r)
    show ?thesis
    proof (cases po)
      case None
      with WPull Returns r assms that(8) show ?thesis by (simp add: thread_do_def)
    next
      case (Some p)
      with WPull Returns r assms obtain ws where
        "(if jq_len (tp_jobqueue s) > 1 then signal_has_jobs w (tp_workers s) else Some (tp_workers s)) = Some ws"
        "t = s\<lparr>tp_jobqueue := q, tp_workers := ws[i := WCall (tp_pulled s) p], tp_pulled := tp_pulled s + 1\<rparr>"
        by (auto simp add: thread_do_def split: option.splits)
      with WPull Returns r Some that(9) show ?thesis by simp
    qed
  qed
next
  case (WCall k p)
  with assms that(10,11) show ?thesis
    by (cases "tp_heap s p") (simp_all add: thread_do_def deref_def)
next
  case WDone
  with assms obtain cs where "\<not> tp_thcount_lock s"
    "(if tp_working s - 1 = 0 then signal_all_idle w (tp_clients s) else Some (tp_clients s)) = Some cs"
    "t = goto i WTop (s\<lparr>tp_working := tp_working s - 1, tp_clients := cs\<rparr>)"
    by (auto simp add: thread_do_def split: if_splits option.splits)
  with WDone that(13) show ?thesis by blast
qed (use assms that(1,2,5,6,12,14,15) in \<open>simp_all add: thread_do_def free_job_def split: if_splits\<close>)

lemma thread_do_counts:
  assumes ok: "counts_ok s" and i: "i < length (tp_workers s)" and step: "thread_do i w s = Some t"
  shows "counts_ok t"
  using step
proof (cases rule: thread_do_cases)
  case (Pull p q ws)
  then have "length ws = length (tp_workers s)" "ws ! i = WPull"
    "\<And>P. P WSleep = P WSem \<Longrightarrow> icount P ws = icount P (tp_workers s)"
    using i by (auto split: if_splits simp: signal_has_jobs_facts signal_has_jobs_nth)
  with Pull(1,4) i ok show ?thesis by (simp add: counts_ok_def)
next
  case (Done cs)
  then have "icount holds_count_lock cs = icount holds_count_lock (tp_clients s)"
    by (auto split: if_splits simp: signal_all_idle_locks)
  with Done(1,4) i ok show ?thesis by (simp add: counts_ok_def goto_def)
next
  case New
  with icount_pos_nth [of i "tp_workers s" "(=) WNew"] i ok show ?thesis
    by (auto simp: counts_ok_def goto_def)
next
  case Unlock
  have "1 \<le> icount ((=) WUnlock) (tp_workers s)" by (rule icount_pos_nth) (use Unlock i in auto)
  moreover have "0 \<le> icount holds_count_lock (tp_clients s)" by simp
  moreover have "icount holds_count_lock (tp_clients s) + icount ((=) WUnlock) (tp_workers s)
       = of_bool (tp_thcount_lock s)" using ok by (simp add: counts_ok_def)
  ultimately have "of_bool (tp_thcount_lock s) \<noteq> (0::int)"
    "icount holds_count_lock (tp_clients s) + icount ((=) WUnlock) (tp_workers s) = of_bool (tp_thcount_lock s)"
    by linarith+
  with Unlock i ok show ?thesis by (simp add: counts_ok_def goto_def)
qed (use i ok in \<open>simp_all add: counts_ok_def goto_def\<close>)

lemma data_okD:
  assumes "data_ok s"
  obtains as where "heap_ok (tp_heap s) (tp_jobqueue s) (tp_added s) (tp_pulled s) (taken (tp_workers s)) as"
    "jobs_ok (tp_added s) (tp_pulled s) (taken (tp_workers s)) (tp_runs s) (set (tp_finished s))"
  using assms by (auto simp: data_ok_def)

lemma data_ok_pull:
  assumes "data_ok s" "i < length (tp_workers s)" "tp_workers s ! i = WPull"
    "jobqueue_pull (tp_heap s) (tp_jobqueue s) = r"
  obtains "r = Returns (None, tp_jobqueue s)" "jq_len (tp_jobqueue s) = 0"
  | p q as where "r = Returns (Some p, q)" "jq_len (tp_jobqueue s) \<noteq> 0"
    "heap_ok (tp_heap s) q (tp_added s) (Suc (tp_pulled s))
       ((taken (tp_workers s))(i := Some (tp_pulled s, p, False))) as"
    "jq_len q = jq_len (tp_jobqueue s) - 1"
    "bs_v (jq_has_jobs q) = (if jq_len (tp_jobqueue s) > 1 then 1 else bs_v (jq_has_jobs (tp_jobqueue s)))"
proof -
  from assms(1) obtain as where
    ok: "heap_ok (tp_heap s) (tp_jobqueue s) (tp_added s) (tp_pulled s) (taken (tp_workers s)) as"
    by (rule data_okD)
  show thesis
  proof (cases "jq_len (tp_jobqueue s) = 0")
    case True
    with heap_okD(1) [OF ok] have "jq_cells (tp_heap s) (tp_jobqueue s) []" by (auto simp: jq_cells_def)
    from jobqueue_pull_empty [OF this] True assms(4) that(1) show thesis by simp
  next
    case False
    have "taken (tp_workers s) i = None" using assms(2,3) by (simp add: taken_def)
    from heap_ok_pull [OF ok False this] assms(4) False that(2) show thesis by auto
  qed
qed

lemma data_ok_cell:
  assumes "data_ok s" "i < length (tp_workers s)" "busy (tp_workers s ! i) = Some (k, p, r)"
  shows "work (tp_heap s) p = Some (tp_added s ! k)" "k < tp_pulled s" "tp_pulled s \<le> length (tp_added s)"
proof -
  from assms(1) obtain as where
    ok: "heap_ok (tp_heap s) (tp_jobqueue s) (tp_added s) (tp_pulled s) (taken (tp_workers s)) as"
    by (rule data_okD)
  have "taken (tp_workers s) i = Some (k, p, r)" using assms(2,3) by (simp add: taken_def)
  with heap_okD(2,6,7) [OF ok] show "work (tp_heap s) p = Some (tp_added s ! k)" "k < tp_pulled s"
    "tp_pulled s \<le> length (tp_added s)" by blast+
qed

lemma thread_do_data:
  assumes ok: "data_ok s" and i: "i < length (tp_workers s)" and step: "thread_do i w s = Some t"
  shows "data_ok t \<and> tp_fault t = tp_fault s"
proof -
  from ok obtain as where
    h: "heap_ok (tp_heap s) (tp_jobqueue s) (tp_added s) (tp_pulled s) (taken (tp_workers s)) as"
    and j: "jobs_ok (tp_added s) (tp_pulled s) (taken (tp_workers s)) (tp_runs s) (set (tp_finished s))"
    by (rule data_okD)
  from step show ?thesis
  proof (cases rule: thread_do_cases)
    case (PullFault m)
    show ?thesis by (cases rule: data_ok_pull [OF ok i PullFault(1) PullFault(2)]) simp_all
  next
    case (PullNone q)
    have "q = tp_jobqueue s" by (cases rule: data_ok_pull [OF ok i PullNone(1) PullNone(2)]) simp_all
    with PullNone(1,3) ok i show ?thesis by (simp add: data_ok_def goto_def taken_same)
  next
    case (Pull p q ws)
    then have ws: "taken ws = taken (tp_workers s)" "length ws = length (tp_workers s)"
      by (auto split: if_splits simp: signal_has_jobs_facts)
    from data_ok_pull [OF ok i Pull(1) Pull(2)] obtain as' where
      "heap_ok (tp_heap s) q (tp_added s) (Suc (tp_pulled s))
       ((taken (tp_workers s))(i := Some (tp_pulled s, p, False))) as'" by auto
    moreover have "taken (tp_workers s) i = None" using i Pull(1) by (simp add: taken_def)
    ultimately show ?thesis
      using Pull(4) ws i jobs_ok_pull [OF j, of i p] by (auto simp: data_ok_def taken_update)
  next
    case (CallFault k p m)
    from data_ok_cell [OF ok i, of k p False] CallFault show ?thesis
      by (auto simp: deref_def work_def)
  next
    case (Call k p c)
    then have H: "taken (tp_workers s) i = Some (k, p, False)" using i by (simp add: taken_def)
    from data_ok_cell(1) [OF ok i, of k p False] Call have
      "(job_function c, job_arg c) = tp_added s ! k" by (simp add: work_def)
    with jobs_ok_called [OF j H] heap_okD(8) [OF h _ H] have
      "jobs_ok (tp_added s) (tp_pulled s) ((taken (tp_workers s))(i := Some (k, p, True)))
        (tp_runs s @ [(k, job_function c, job_arg c)]) (set (tp_finished s))" by metis
    with Call(3) heap_ok_called [OF h H, of True] i show ?thesis
      by (auto simp: data_ok_def goto_def taken_update)
  next
    case (Busy k p)
    then have H: "taken (tp_workers s) i = Some (k, p, True)" using i by (simp add: taken_def)
    from jobs_ok_finished [OF j H heap_okD(6) [OF h H]] heap_okD(8) [OF h _ H] have
      "jobs_ok (tp_added s) (tp_pulled s) ((taken (tp_workers s))(i := None)) (tp_runs s)
         (insert k (set (tp_finished s)))" by metis
    with Busy(2) heap_ok_finished [OF h H] i show ?thesis
      by (auto simp: data_ok_def goto_def taken_update)
  qed (use i ok in \<open>simp_all add: data_ok_def goto_def taken_same\<close>)
qed

lemma thread_do_wake:
  assumes ok: "wake_ok (tp_keepalive s) (tp_jobqueue s) (tp_workers s)" and d: "data_ok s"
    and i: "i < length (tp_workers s)" and step: "thread_do i w s = Some t"
  shows "wake_ok (tp_keepalive t) (tp_jobqueue t) (tp_workers t)"
  using step
proof (cases rule: thread_do_cases)
  case (PullNone q)
  have "q = tp_jobqueue s" "jq_len q = 0"
    by (cases rule: data_ok_pull [OF d i PullNone(1) PullNone(2)], simp_all)+
  with PullNone(1,3) ok i show ?thesis by (simp add: wake_ok_def goto_def)
next
  case (Pull p q ws)
  have len: "jq_len q = jq_len (tp_jobqueue s) - 1" "jq_len (tp_jobqueue s) \<noteq> 0"
    "bs_v (jq_has_jobs q) = (if jq_len (tp_jobqueue s) > 1 then 1 else bs_v (jq_has_jobs (tp_jobqueue s)))"
    by (cases rule: data_ok_pull [OF d i Pull(1) Pull(2)], simp_all)+
  have nn: "0 \<le> jq_len (tp_jobqueue s)"
    by (rule data_okD [OF d]) (simp add: heap_ok_length(2))
  show ?thesis
  proof (cases "jq_len (tp_jobqueue s) > 1")
    case True
    then have ws: "signal_has_jobs w (tp_workers s) = Some ws" using Pull(3) by simp
    then have "length ws = length (tp_workers s)" "ws ! i = WPull"
      using i Pull(1) by (auto simp: signal_has_jobs_facts signal_has_jobs_nth)
    with signal_has_jobs_wakes [OF ws] Pull(4) i len True show ?thesis by (simp add: wake_ok_def)
  next
    case False
    with len nn have "jq_len q = 0" "bs_v (jq_has_jobs q) = bs_v (jq_has_jobs (tp_jobqueue s))" by auto
    with False Pull(1,3,4) ok i show ?thesis by (simp add: wake_ok_def)
  qed
next
  case Down
  with ok i show ?thesis by (auto simp: wake_ok_def goto_def on_its_way_def)
next
  case Up
  with ok i show ?thesis
    using icount_nonneg [of on_its_way "tp_workers s"] by (auto simp: wake_ok_def goto_def on_its_way_def)
next
  case Count
  with ok i icount_nonneg [of on_its_way "tp_workers s"] show ?thesis
    by (auto simp: wake_ok_def goto_def on_its_way_def)
qed (use i ok in \<open>auto simp: wake_ok_def goto_def on_its_way_def\<close>)

text \<open>The callers: what is known of each only grows, and the last worker to finish wakes one.\<close>

lemma client_ok_mono:
  "client_ok na np fin c \<Longrightarrow> na \<le> na' \<Longrightarrow> np \<le> np' \<Longrightarrow> fin \<subseteq> fin' \<Longrightarrow> client_ok na' np' fin' c"
  by (cases c) auto

lemma clients_ok_keep:
  assumes ok: "clients_ok s" and "tp_clients t = tp_clients s" "length (tp_added s) \<le> length (tp_added t)"
    "tp_pulled s \<le> tp_pulled t" "set (tp_finished s) \<subseteq> set (tp_finished t)"
    "jq_len (tp_jobqueue s) \<noteq> 0 \<or> tp_working s \<noteq> 0 \<longrightarrow> jq_len (tp_jobqueue t) \<noteq> 0 \<or> tp_working t \<noteq> 0"
  shows "clients_ok t"
  using assms client_ok_mono unfolding clients_ok_def list_all_iff by metis

lemma signal_all_idle_ok:
  assumes "signal_all_idle w cs = Some cs'" "list_all (client_ok na np fin) cs"
  shows "list_all (client_ok na np fin) cs'"
  using assms(1)
proof (cases rule: signal_all_idle_cases)
  case (2 j)
  then have "client_ok na np fin (awake (cs ! j))"
    using assms(2) by (auto simp: list_all_length elim!: sleeping_client.elims)
  with 2 assms(2) show ?thesis by (auto simp: list_all_length nth_list_update)
qed (use assms in simp)

lemma signal_all_idle_single:
  assumes "signal_all_idle w cs = Some cs'" "length cs \<le> 1" "icount holds_count_lock cs = 0"
  shows "\<not> (\<exists>c\<in>set cs'. will_sleep c)"
proof (cases cs)
  case Nil
  with assms(1) show ?thesis by (auto simp: signal_all_idle_def split: option.splits)
next
  case (Cons c ds)
  with assms(2) have cs: "cs = [c]" by simp
  from assms(1) show ?thesis
  proof (cases rule: signal_all_idle_cases)
    case 1
    with cs assms(3) show ?thesis by (cases c) auto
  next
    case (2 j)
    with cs show ?thesis by (cases c) auto
  qed
qed

lemma counts_ok_lock:
  assumes "counts_ok s" "\<not> tp_thcount_lock s"
  shows "icount holds_count_lock (tp_clients s) = 0"
proof -
  have "0 \<le> icount holds_count_lock (tp_clients s)" "0 \<le> icount ((=) WUnlock) (tp_workers s)" by simp_all
  with assms show ?thesis unfolding counts_ok_def by (simp add: add_nonneg_eq_0_iff)
qed

lemma counts_ok_working:
  assumes "counts_ok s" "i < length (tp_workers s)" "counted_working (tp_workers s ! i)"
  shows "tp_working s \<noteq> 0"
  using icount_pos_nth [of i "tp_workers s" counted_working] assms by (auto simp: counts_ok_def)

lemma thread_do_clients:
  assumes ok: "clients_ok s" and c: "counts_ok s" and d: "data_ok s"
    and i: "i < length (tp_workers s)" and step: "thread_do i w s = Some t"
  shows "clients_ok t"
  using step
proof (cases rule: thread_do_cases)
  case (PullNone q)
  then have "tp_working s \<noteq> 0" by (intro counts_ok_working [OF c i]) simp
  then show ?thesis by (intro clients_ok_keep [OF ok]) (simp_all add: PullNone(3) goto_def)
next
  case (Pull p q ws)
  then have "tp_working s \<noteq> 0" by (intro counts_ok_working [OF c i]) simp
  then show ?thesis by (intro clients_ok_keep [OF ok]) (simp_all add: Pull(4))
next
  case Count
  have "tp_working s = icount counted_working (tp_workers s)" using c by (simp add: counts_ok_def)
  then have "0 \<le> tp_working s" by simp
  then have "tp_working s + 1 \<noteq> 0" by linarith
  then show ?thesis by (intro clients_ok_keep [OF ok]) (simp_all add: Count(3) goto_def)
next
  case (Busy k p)
  then show ?thesis by (intro clients_ok_keep [OF ok]) (auto simp: goto_def)
next
  case (Done cs)
  show ?thesis
  proof (cases "tp_working s - 1 = 0")
    case True
    with Done(3) have cs: "signal_all_idle w (tp_clients s) = Some cs" by simp
    have "list_all (client_ok (length (tp_added s)) (tp_pulled s) (set (tp_finished s))) cs"
      using signal_all_idle_ok [OF cs] ok by (simp add: clients_ok_def)
    moreover have "\<not> (\<exists>c\<in>set cs. will_sleep c)" if "length cs \<le> 1"
      using signal_all_idle_single [OF cs] signal_all_idle_length [OF cs] counts_ok_lock [OF c Done(2)] that
      by simp
    ultimately show ?thesis by (auto simp: clients_ok_def Done(4) goto_def)
  next
    case False
    with Done(3) have "cs = tp_clients s" by simp
    with False show ?thesis by (intro clients_ok_keep [OF ok]) (simp_all add: Done(4) goto_def)
  qed
qed (use ok in \<open>simp_all add: clients_ok_def goto_def\<close>)

lemma worker_step_Inv:
  assumes "tp_Inv s" "worker_step i w s = Some t"
  shows "tp_Inv t"
proof (cases "tp_freed s")
  case True
  with assms(2) show ?thesis
    by (cases "tp_workers s ! i = WDead")
      (auto simp: worker_step_def thread_do_def tp_Inv_def split: if_splits)
next
  case False
  with assms(2) have i: "i < length (tp_workers s)" and step: "thread_do i w s = Some t"
    by (auto simp: worker_step_def split: if_splits)
  from assms(1) False have ok: "\<not> tp_fault s" "data_ok s" "counts_ok s"
    "wake_ok (tp_keepalive s) (tp_jobqueue s) (tp_workers s)" "clients_ok s"
    by (auto simp: tp_Inv_def)
  from thread_do_data [OF ok(2) i step] thread_do_counts [OF ok(3) i step]
    thread_do_wake [OF ok(4) ok(2) i step] thread_do_clients [OF ok(5) ok(3) ok(2) i step] ok(1)
  show ?thesis by (simp add: tp_Inv_def)
qed

section \<open>The callers keep the invariant\<close>

lemma InvD:
  assumes "tp_Inv s" "\<not> tp_freed s"
  shows "\<not> tp_fault s" "data_ok s" "counts_ok s"
    "wake_ok (tp_keepalive s) (tp_jobqueue s) (tp_workers s)" "clients_ok s"
  using assms by (auto simp: tp_Inv_def)

lemma add_work_step_Inv:
  assumes inv: "tp_Inv s" and step: "add_work_step f x m w s = Some t"
  shows "tp_Inv t"
proof -
  from step have nf: "\<not> tp_freed s" by (auto simp: add_work_step_def split: if_splits)
  note ok = InvD [OF inv nf]
  show ?thesis
  proof (cases m)
    case None
    with step nf have "t = s" by (simp add: add_work_step_def thpool_add_work_def)
    with inv show ?thesis by simp
  next
    case (Some a)
    with step have a: "tp_heap s a = None" by (auto simp: add_work_step_def split: if_splits)
    from ok(2) obtain as where
      h: "heap_ok (tp_heap s) (tp_jobqueue s) (tp_added s) (tp_pulled s) (taken (tp_workers s)) as"
      and j: "jobs_ok (tp_added s) (tp_pulled s) (taken (tp_workers s)) (tp_runs s) (set (tp_finished s))"
      by (rule data_okD)
    from heap_ok_added [OF h a] obtain h' q' where
      add: "thpool_add_work (tp_heap s) (tp_jobqueue s) (Some a) f x = Returns (0, h', q')"
        "heap_ok h' q' (tp_added s @ [(f, x)]) (tp_pulled s) (taken (tp_workers s)) (as @ [a])"
        "bs_v (jq_has_jobs q') = 1" by blast
    from step nf Some a add(1) obtain ws where
      ws: "signal_has_jobs w (tp_workers s) = Some ws" and
      t: "t = s\<lparr>tp_heap := h', tp_jobqueue := q', tp_workers := ws, tp_added := tp_added s @ [(f, x)]\<rparr>"
      by (auto simp: add_work_step_def split: option.splits)
    have "jobs_ok (tp_added s @ [(f, x)]) (tp_pulled s) (taken (tp_workers s)) (tp_runs s) (set (tp_finished s))"
      by (rule jobs_ok_added [OF j heap_okD(2) [OF h] heap_okD(6) [OF h]])
    with add(2) have "data_ok t" by (auto simp: data_ok_def t signal_has_jobs_facts [OF ws])
    moreover have "counts_ok t" using ok(3) by (simp add: counts_ok_def t signal_has_jobs_facts [OF ws])
    moreover have "wake_ok (tp_keepalive t) (tp_jobqueue t) (tp_workers t)"
      using signal_has_jobs_wakes [OF ws] add(3) by (simp add: wake_ok_def t)
    moreover have "jq_len q' \<noteq> 0"
      using heap_ok_length(1,2) [OF add(2)] by simp
    then have "clients_ok t" by (intro clients_ok_keep [OF ok(5)]) (simp_all add: t)
    ultimately show ?thesis using ok(1) by (simp add: tp_Inv_def t)
  qed
qed

text \<open>A change of the callers only: what must hold of them, and of the lock.\<close>

lemma clients_change:
  assumes inv: "tp_Inv s" and nf: "\<not> tp_freed s" and i: "i < length (tp_clients s)"
    and t: "t = s\<lparr>tp_clients := (tp_clients s)[i := c], tp_thcount_lock := l\<rparr>"
    and lock: "of_bool l = of_bool (tp_thcount_lock s) - of_bool (holds_count_lock (tp_clients s ! i)) + (of_bool (holds_count_lock c) :: int)"
    and c: "client_ok (length (tp_added s)) (tp_pulled s) (set (tp_finished s)) c"
    and sleep: "will_sleep c \<Longrightarrow> will_sleep (tp_clients s ! i) \<or> jq_len (tp_jobqueue s) \<noteq> 0 \<or> tp_working s \<noteq> 0"
  shows "tp_Inv t"
proof -
  note ok = InvD [OF inv nf]
  have "counts_ok t" using ok(3) i lock by (simp add: counts_ok_def t)
  moreover have "clients_ok t"
    unfolding clients_ok_def
  proof (intro conjI impI)
    show "list_all (client_ok (length (tp_added t)) (tp_pulled t) (set (tp_finished t))) (tp_clients t)"
      using ok(5) c by (auto simp: clients_ok_def t intro: list_all_update)
    assume *: "length (tp_clients t) \<le> 1 \<and> (\<exists>c\<in>set (tp_clients t). will_sleep c)"
    then have "length (tp_clients s) \<le> 1" by (simp add: t)
    with i obtain c0 where cs: "tp_clients s = [c0]" by (cases "tp_clients s") auto
    with i have i0: "i = 0" by simp
    with * cs have "will_sleep c" by (simp add: t)
    with sleep cs i0 have "will_sleep c0 \<or> jq_len (tp_jobqueue s) \<noteq> 0 \<or> tp_working s \<noteq> 0" by simp
    with ok(5) cs show "jq_len (tp_jobqueue t) \<noteq> 0 \<or> tp_working t \<noteq> 0"
      by (auto simp: clients_ok_def t)
  qed
  ultimately show ?thesis using ok nf by (simp add: tp_Inv_def t data_ok_def)
qed

lemma counts_ok_holder:
  assumes "counts_ok s" "i < length (tp_clients s)" "holds_count_lock (tp_clients s ! i)"
  shows "tp_thcount_lock s"
proof -
  have "1 \<le> icount holds_count_lock (tp_clients s)" by (rule icount_pos_nth) (use assms in auto)
  then show ?thesis using counts_ok_lock [OF assms(1)] by auto
qed

lemma jobs_ok_idle:
  assumes c: "counts_ok s" and d: "data_ok s" and idle: "tp_working s = 0" and k: "k < tp_pulled s"
  shows "k \<in> set (tp_finished s)"
proof -
  have "taken (tp_workers s) i = None" for i
  proof (cases "i < length (tp_workers s)")
    case True
    then have "\<not> counted_working (tp_workers s ! i)" using counts_ok_working [OF c] idle by blast
    with True show ?thesis by (cases "tp_workers s ! i") (simp_all add: taken_def)
  qed (simp add: taken_def)
  then have "ran (taken (tp_workers s)) = {}" by (auto simp: ran_def)
  with d k show ?thesis by (auto simp: data_ok_def jobs_ok_def)
qed

lemma thpool_wait_Inv:
  assumes inv: "tp_Inv s" and nf: "\<not> tp_freed s" and step: "thpool_wait i s = Some t"
  shows "tp_Inv t"
proof -
  note ok = InvD [OF inv nf]
  from step have i: "i < length (tp_clients s)" by (auto simp: thpool_wait_def split: if_splits)
  have c: "client_ok (length (tp_added s)) (tp_pulled s) (set (tp_finished s)) (tp_clients s ! i)"
    using ok(5) i by (auto simp: clients_ok_def list_all_length)
  obtain as where
    h: "heap_ok (tp_heap s) (tp_jobqueue s) (tp_added s) (tp_pulled s) (taken (tp_workers s)) as"
    by (rule data_okD [OF ok(2)])
  note change = clients_change [OF inv nf i]
  note holder = counts_ok_holder [OF ok(3) i]
  show ?thesis
  proof (cases "tp_clients s ! i")
    case CIdle
    with step i show ?thesis
      by (intro change [where c = "CLock (length (tp_added s))" and l = "tp_thcount_lock s"])
        (auto simp: thpool_wait_def cgoto_def split: if_splits)
  next
    case (CLock n)
    with step i c show ?thesis
      by (intro change [where c = "CHold n" and l = True]) (auto simp: thpool_wait_def cgoto_def split: if_splits)
  next
    case (CHold n)
    show ?thesis
    proof (cases "jq_len (tp_jobqueue s) = 0")
      case True
      with heap_ok_length(2) [OF h] c CHold have "n \<le> tp_pulled s" by simp
      with True step i CHold show ?thesis
        by (intro change [where c = "CLenZero n" and l = "tp_thcount_lock s"]) (auto simp: thpool_wait_def cgoto_def)
    next
      case False
      with step i CHold c show ?thesis
        by (intro change [where c = "CNoGo n" and l = "tp_thcount_lock s"]) (auto simp: thpool_wait_def cgoto_def)
    qed
  next
    case (CLenZero n)
    show ?thesis
    proof (cases "tp_working s = 0")
      case True
      with jobs_ok_idle [OF ok(3,2)] c CLenZero have "\<forall>k<n. k \<in> set (tp_finished s)" by auto
      with True step i CLenZero holder show ?thesis
        by (intro change [where c = "CDone n" and l = False]) (auto simp: thpool_wait_def cgoto_def)
    next
      case False
      with step i CLenZero c heap_okD(2) [OF h] show ?thesis
        by (intro change [where c = "CNoGo n" and l = "tp_thcount_lock s"]) (auto simp: thpool_wait_def cgoto_def)
    qed
  next
    case (CNoGo n)
    with step i c holder show ?thesis
      by (intro change [where c = "CSleep n" and l = False]) (auto simp: thpool_wait_def cgoto_def)
  next
    case (CDone n)
    with step i show ?thesis
      by (intro change [where c = CIdle and l = "tp_thcount_lock s"]) (auto simp: thpool_wait_def cgoto_def)
  qed (use step i in \<open>simp add: thpool_wait_def\<close>)
qed

lemma destroy_poll_Inv:
  assumes inv: "tp_Inv s" and step: "destroy_poll s = Some t"
  shows "tp_Inv t"
proof -
  from step have nf: "\<not> tp_freed s" and d: "tp_destroying s" by (auto simp: destroy_poll_def split: if_splits)
  note ok = InvD [OF inv nf]
  show ?thesis
  proof (cases "tp_alive s = 0")
    case True
    obtain as where
      "heap_ok (tp_heap s) (tp_jobqueue s) (tp_added s) (tp_pulled s) (taken (tp_workers s)) as"
      by (rule data_okD [OF ok(2)])
    from jobqueue_destroy_frees [OF heap_okD(1) [OF this]] True step nf d show ?thesis
      by (auto simp: destroy_poll_def tp_Inv_def)
  next
    case False
    with step nf d have t: "t = s\<lparr>tp_jobqueue := (tp_jobqueue s)\<lparr>jq_has_jobs := bsem_post_all (jq_has_jobs (tp_jobqueue s))\<rparr>,
                   tp_workers := broadcast_has_jobs (tp_workers s)\<rparr>"
      by (simp add: destroy_poll_def)
    have "data_ok t" using ok(2) by (simp add: data_ok_def t broadcast_has_jobs_facts)
    moreover have "counts_ok t"
      using ok(3) by (simp add: counts_ok_def t broadcast_has_jobs_facts broadcast_has_jobs_icount)
    moreover have "wake_ok (tp_keepalive t) (tp_jobqueue t) (tp_workers t)"
      by (simp add: wake_ok_def t broadcast_has_jobs_facts bsem_post_all_def)
    moreover have "clients_ok t" using ok(5) by (simp add: clients_ok_def t)
    ultimately show ?thesis using ok(1) by (simp add: tp_Inv_def t)
  qed
qed

lemma data_ok_cong:
  "tp_heap t = tp_heap s \<Longrightarrow> tp_jobqueue t = tp_jobqueue s \<Longrightarrow> tp_added t = tp_added s \<Longrightarrow>
   tp_pulled t = tp_pulled s \<Longrightarrow> taken (tp_workers t) = taken (tp_workers s) \<Longrightarrow> tp_runs t = tp_runs s \<Longrightarrow>
   tp_finished t = tp_finished s \<Longrightarrow> data_ok s \<Longrightarrow> data_ok t"
  by (simp add: data_ok_def)

lemma spurious_worker_Inv:
  assumes inv: "tp_Inv s" and i: "i < length (tp_workers s)" "tp_workers s ! i = WSleep"
  shows "tp_Inv (goto i WSem s)"
proof (cases "tp_freed s")
  case False
  note ok = InvD [OF inv False]
  have "data_ok (goto i WSem s)" using ok(2) i by (simp add: data_ok_def goto_def taken_same)
  moreover have "counts_ok (goto i WSem s)" using ok(3) i by (simp add: counts_ok_def goto_def)
  moreover have "0 < icount ((=) WSem) ((tp_workers s)[i := WSem])"
    using icount_nonneg [of "(=) WSem" "tp_workers s"] i by simp
  then have "wake_ok (tp_keepalive s) (tp_jobqueue s) ((tp_workers s)[i := WSem])"
    using ok(4) i by (simp add: wake_ok_def on_its_way_def)
  moreover have "clients_ok (goto i WSem s)" using ok(5) by (simp add: clients_ok_def goto_def)
  ultimately show ?thesis using ok(1) by (simp add: tp_Inv_def goto_def)
qed (simp add: tp_Inv_def goto_def)

lemma spurious_client_Inv:
  assumes inv: "tp_Inv s" and i: "i < length (tp_clients s)" "sleeping_client (tp_clients s ! i)"
  shows "tp_Inv (cgoto i (awake (tp_clients s ! i)) s)"
proof (cases "tp_freed s")
  case False
  obtain n where n: "tp_clients s ! i = CSleep n" using i(2) by (cases "tp_clients s ! i") auto
  have "client_ok (length (tp_added s)) (tp_pulled s) (set (tp_finished s)) (tp_clients s ! i)"
    using InvD(5) [OF inv False] i by (auto simp: clients_ok_def list_all_length)
  with n show ?thesis
    by (intro clients_change [OF inv False i(1), where c = "CLock n" and l = "tp_thcount_lock s"])
      (auto simp: cgoto_def)
qed (simp add: tp_Inv_def cgoto_def)

lemma flags_Inv:
  assumes "tp_Inv s"
  shows "tp_Inv (s\<lparr>tp_pending := a, tp_held := b, tp_on_hold := c\<rparr>)"
  using assms by (simp add: tp_Inv_def data_ok_def counts_ok_def clients_ok_def)

lemma thread_hold_Inv: "tp_Inv s \<Longrightarrow> thread_hold i s = Some t \<Longrightarrow> tp_Inv t"
  using flags_Inv [of s, where a = "tp_pending s" and b = "(tp_held s)[i := False]" and c = "tp_on_hold s"]
    flags_Inv [of s, where a = "(tp_pending s)[i := False]" and b = "(tp_held s)[i := True]" and c = True]
  by (auto simp: thread_hold_def split: if_splits)

lemma all_counted:
  assumes "icount P xs = int (length xs)"
  shows "x \<in> set xs \<Longrightarrow> P x"
  using assms length_filter_less [of x xs P] by (auto simp: icount_def)

lemma thpool_init_return_Inv:
  assumes inv: "tp_Inv s" and step: "thpool_init_return s = Some t"
  shows "tp_Inv t"
proof (cases "tp_freed s")
  case False
  note ok = InvD [OF inv False]
  from step have al: "tp_alive s = tp_num_threads s" and t: "t = s\<lparr>tp_ready := True\<rparr>"
    by (auto simp: thpool_init_return_def split: if_splits)
  have "icount counted_alive (tp_workers s) \<le> int (length (tp_workers s))" by (simp add: icount_def)
  with ok(3) al have "icount counted_alive (tp_workers s) = int (length (tp_workers s))"
    by (simp add: counts_ok_def)
  from all_counted [OF this] have "icount ((=) WNew) (tp_workers s) = 0" by (auto simp: icount_zero_iff)
  with ok False t show ?thesis by (simp add: tp_Inv_def data_ok_def counts_ok_def clients_ok_def)
qed (use step in \<open>auto simp: tp_Inv_def thpool_init_return_def split: if_splits\<close>)

lemma destroy_begin_Inv:
  assumes inv: "tp_Inv s" and r: "tp_ready s" and step: "destroy_begin s = Some t"
  shows "tp_Inv t"
proof -
  from step have t: "t = s\<lparr>tp_destroying := True, tp_keepalive := False\<rparr>"
    by (auto simp: destroy_begin_def split: if_splits)
  show ?thesis
  proof (cases "tp_freed s")
    case False
    note ok = InvD [OF inv False]
    have "counts_ok t" using ok(3) r by (simp add: counts_ok_def t)
    moreover have "wake_ok (tp_keepalive t) (tp_jobqueue t) (tp_workers t)"
      using ok(4) by (simp add: wake_ok_def t)
    ultimately show ?thesis using ok by (simp add: tp_Inv_def data_ok_def clients_ok_def t)
  qed (simp add: tp_Inv_def t)
qed

interpretation tp: event_invariant "tp_exec :: ('f, 'a) thpool \<Rightarrow> ('f, 'a) tp_event \<Rightarrow> ('f, 'a) thpool option" tp_Inv
proof
  fix s t :: "('f, 'a) thpool" and e
  assume inv: "tp_Inv s" and step: "tp_exec s e = Some t"
  show "tp_Inv t"
  proof (cases e)
    case InitReturn
    with inv step show ?thesis by (auto intro: thpool_init_return_Inv split: if_splits)
  next
    case (Worker i w)
    with inv step show ?thesis by (auto intro: worker_step_Inv split: if_splits)
  next
    case (WorkerSpurious i)
    with inv step show ?thesis by (auto intro: spurious_worker_Inv split: if_splits)
  next
    case (AddWork f x m w)
    with inv step show ?thesis by (auto intro: add_work_step_Inv split: if_splits)
  next
    case (Client i)
    show ?thesis
    proof (cases "tp_freed s")
      case True
      with Client step show ?thesis
        by (auto simp: thpool_wait_def tp_Inv_def cgoto_def split: if_splits cpc.splits)
    next
      case False
      with Client inv step show ?thesis by (auto intro: thpool_wait_Inv split: if_splits)
    qed
  next
    case (ClientSpurious i)
    with inv step show ?thesis by (auto intro: spurious_client_Inv split: if_splits)
  next
    case Pause
    with step flags_Inv [OF inv, where b = "tp_held s" and c = "tp_on_hold s"] show ?thesis
      by (auto simp: thpool_pause_def split: if_splits)
  next
    case Resume
    with step flags_Inv [OF inv, where a = "tp_pending s" and b = "tp_held s" and c = False] show ?thesis
      by (auto simp: thpool_resume_def)
  next
    case (Hold i)
    with inv step show ?thesis by (auto intro: thread_hold_Inv)
  next
    case DestroyBegin
    with inv step show ?thesis by (auto intro: destroy_begin_Inv split: if_splits)
  next
    case DestroyPoll
    with inv step show ?thesis by (auto intro: destroy_poll_Inv split: if_splits)
  qed
qed

lemma tp_start_Inv: "tp_Inv (tp_start n cl)"
proof -
  have taken: "taken (replicate n WNew) = Map.empty" by (auto simp: taken_def)
  have "data_ok (tp_start n cl)"
    unfolding data_ok_def tp_start_eq by (auto simp: taken heap_ok_def jobs_ok_def jq_cells_def)
  moreover have "counts_ok (tp_start n cl)" by (simp add: tp_start_eq counts_ok_def)
  moreover have "wake_ok True (tp_jobqueue (tp_start n cl)) (tp_workers (tp_start n cl))"
    by (simp add: tp_start_eq wake_ok_def)
  moreover have "clients_ok (tp_start n cl)" by (auto simp: tp_start_eq clients_ok_def list_all_length)
  ultimately show ?thesis by (simp add: tp_Inv_def) (simp add: tp_start_eq)
qed

lemma tp_run_Inv: "run_events tp_exec (tp_start n cl) es = Some s \<Longrightarrow> tp_Inv s"
  using tp.run_Inv [OF tp_start_Inv] .

end
