(* ===== verification/Thpool_Correct.thy ===== *)
theory Thpool_Correct
  imports Thpool
begin

text \<open>
  What the thread pool promises, from its invariant: jobs are taken in the order they were added
  and each is called once with its own argument, no pointer is followed into freed memory while the
  pool exists, \<open>thpool_wait\<close> returns after the jobs added before it have finished, and a queued job
  is always reached by some worker. The last section has the runs in which the pool misbehaves.
\<close>

section \<open>Concrete runs\<close>

text \<open>One worker takes and finishes one job, and a caller waits for it.\<close>

definition run_one :: "(nat, nat) tp_event list" where
  "run_one = [Worker 0 None, InitReturn, AddWork 7 5 (Some 0) None, Client 0,
     Worker 0 None, Worker 0 None, Worker 0 None, Worker 0 None, Worker 0 None, Worker 0 None,
     Worker 0 None, Worker 0 None, Client 0, Client 0, Client 0]"

definition run_queued :: "(nat, nat) tp_event list" where
  "run_queued = [Worker 0 None, InitReturn, Worker 0 None, Worker 0 None,
     AddWork 7 5 (Some 0) (Some 0), AddWork 8 6 (Some 1) None]"

definition run_sleeping :: "(nat, nat) tp_event list" where
  "run_sleeping = [Worker 0 None, InitReturn, AddWork 7 5 (Some 0) None,
     Client 0, Client 0, Client 0, Client 0]"

lemma run_one_ends:
  "run_ends tp_exec (tp_start 1 1) run_one (\<lambda>s. \<not> tp_freed s \<and> CDone 1 \<in> set (tp_clients s) \<and> tp_runs s = [(0, 7, 5)])"
  by code_simp

lemma run_queued_ends:
  "run_ends tp_exec (tp_start 1 0) run_queued (\<lambda>s. \<not> tp_freed s \<and> tp_keepalive s \<and> \<not> tp_thcount_lock s \<and>
     jq_len (tp_jobqueue s) = 2 \<and> tp_held s = [False] \<and> tp_workers s = [WSem])"
  by code_simp

lemma run_sleeping_ends:
  "run_ends tp_exec (tp_start 1 1) run_sleeping (\<lambda>s. \<not> tp_freed s \<and> CSleep 1 \<in> set (tp_clients s))"
  by code_simp

section \<open>Safety\<close>

lemma runs_of_pulled:
  assumes h: "heap_ok h q added np H as" and j: "jobs_ok added np H runs fin"
  shows "\<forall>(k, w) \<in> set runs. k < np \<and> w = added ! k"
proof clarify
  fix k f x assume r: "(k, f, x) \<in> set runs"
  then have "k \<in> fst ` set runs" by force
  then have "k < np"
    using jobs_okD(2) [OF j] heap_okD(6) [OF h] unfolding jobs_okD(5) [OF j] by (auto simp: ran_def)
  with jobs_okD(6) [OF j r] show "k < np \<and> (f, x) = added ! k" by simp
qed

lemma pulled_not_lost:
  assumes j: "jobs_ok added np (taken ws) runs fin"
  shows "\<forall>k<np. k \<in> fin \<or> (\<exists>i p. i < length ws \<and> (ws ! i = WCall k p \<or> ws ! i = WBusy k p))"
proof -
  have held: "\<exists>i. i < length ws \<and> busy (ws ! i) = Some x" if "x \<in> ran (taken ws)" for x
    using that by (auto simp: ran_def taken_def split: if_splits)
  have busyD: "pc = WCall k p \<or> pc = WBusy k p" if "busy pc = Some (k, p, r)" for pc k p r
    using that by (cases pc) auto
  show ?thesis using jobs_okD(1) [OF j] held busyD by metis
qed

text \<open>The threads that call \<open>thpool_wait\<close> stay the same in number.\<close>

lemma tp_exec_clients: "tp_exec s e = Some t \<Longrightarrow> length (tp_clients t) = length (tp_clients s)"
proof (cases e)
  case (Worker i w)
  moreover assume "tp_exec s e = Some t"
  ultimately have "t = s\<lparr>tp_fault := True\<rparr> \<or> thread_do i w s = Some t"
    by (auto simp: worker_step_def split: if_splits)
  then show ?thesis
    by (auto elim!: thread_do_cases simp: goto_def signal_all_idle_length split: if_splits)
next
  case (AddWork f x m w)
  moreover assume "tp_exec s e = Some t"
  ultimately show ?thesis by (auto simp: add_work_step_def split: if_splits option.splits outcome.splits)
qed (auto simp: thpool_init_return_def goto_def thpool_wait_def cgoto_def thpool_pause_def thpool_resume_def
    thread_hold_def destroy_begin_def destroy_poll_def split: if_splits cpc.splits option.splits outcome.splits)

lemma tp_run_clients:
  "run_events tp_exec s es = Some t \<Longrightarrow> length (tp_clients t) = length (tp_clients s)"
  by (induction es arbitrary: s) (auto split: option.splits dest: tp_exec_clients)



text \<open>
  The pool's counters are exact in every reachable state: \<open>num_threads_working\<close> is the
  number of workers between its increment and its decrement, \<open>num_threads_alive\<close> the number of
  workers that have counted themselves and not yet left.
\<close>

theorem thpool_counters_exact:
  assumes "run_events tp_exec (tp_start n cl) es = Some s" "\<not> tp_freed s"
  shows "thpool_num_threads_working s = icount counted_working (tp_workers s) \<and>
    tp_alive s = icount counted_alive (tp_workers s)"
  using InvD(3) [OF tp_run_Inv [OF assms(1)] assms(2)]
  by (simp add: counts_ok_def thpool_num_threads_working_def)

theorem thpool_counters_exact_witness:
  "\<exists>s. run_events tp_exec (tp_start 1 1) run_one = Some s \<and> \<not> tp_freed s \<and>
     thpool_num_threads_working s = icount counted_working (tp_workers s) \<and>
     tp_alive s = icount counted_alive (tp_workers s)"
proof -
  from run_events_ex [OF run_one_ends] obtain s where
    s: "run_events tp_exec (tp_start 1 1) run_one = Some s" "\<not> tp_freed s" by blast
  with thpool_counters_exact [OF s] show ?thesis by blast
qed

text \<open>
  C19. \<open>thpool_wait\<close> is a barrier: when a caller has returned from it, every job that had been
  added before the call has finished.
\<close>

theorem thpool_wait_barrier:
  assumes "run_events tp_exec (tp_start n cl) es = Some s" "\<not> tp_freed s"
    and "CDone m \<in> set (tp_clients s)" "k < m"
  shows "k \<in> set (tp_finished s)"
  using InvD(5) [OF tp_run_Inv [OF assms(1)] assms(2)] assms(3,4)
  by (auto simp: clients_ok_def list_all_iff)

theorem thpool_wait_barrier_witness:
  "\<exists>s. run_events tp_exec (tp_start 1 1) run_one = Some s \<and> \<not> tp_freed s \<and>
     CDone 1 \<in> set (tp_clients s) \<and> 0 \<in> set (tp_finished s)"
proof -
  from run_events_ex [OF run_one_ends] obtain s where
    s: "run_events tp_exec (tp_start 1 1) run_one = Some s" "\<not> tp_freed s" "CDone 1 \<in> set (tp_clients s)"
    by blast
  with thpool_wait_barrier [OF s] show ?thesis by auto
qed

text \<open>
  With a single caller the wake-up of \<open>thpool_wait\<close> is never lost: while the caller is
  asleep on \<open>threads_all_idle\<close> there is a queued job or a working thread, so a later decrement of
  \<open>num_threads_working\<close> to zero will signal it.
\<close>

theorem thpool_wait_single_caller:
  assumes "run_events tp_exec (tp_start n 1) es = Some s" "\<not> tp_freed s"
    and "CSleep m \<in> set (tp_clients s)"
  shows "jq_len (tp_jobqueue s) \<noteq> 0 \<or> tp_working s \<noteq> 0"
proof -
  have "length (tp_clients s) = 1" using tp_run_clients [OF assms(1)] by (simp add: tp_start_eq)
  with InvD(5) [OF tp_run_Inv [OF assms(1)] assms(2)] assms(3) show ?thesis
    by (auto simp: clients_ok_def intro: bexI [of _ "CSleep m"])
qed

theorem thpool_wait_single_caller_witness:
  "\<exists>s. run_events tp_exec (tp_start 1 1) run_sleeping = Some s \<and> \<not> tp_freed s \<and>
     CSleep 1 \<in> set (tp_clients s) \<and> (jq_len (tp_jobqueue s) \<noteq> 0 \<or> tp_working s \<noteq> 0)"
proof -
  from run_events_ex [OF run_sleeping_ends] obtain s where
    s: "run_events tp_exec (tp_start 1 1) run_sleeping = Some s" "\<not> tp_freed s" "CSleep 1 \<in> set (tp_clients s)"
    by blast
  with thpool_wait_single_caller [OF s] show ?thesis by blast
qed

section \<open>Progress\<close>

text \<open>
  A schedule of worker steps alone that ends with one more job pulled.
\<close>

fun is_worker :: "('f, 'a) tp_event \<Rightarrow> bool" where
  "is_worker (Worker i w) = True"
| "is_worker _ = False"

definition leads_to_pull :: "('f, 'a) thpool \<Rightarrow> bool" where
  "leads_to_pull s \<longleftrightarrow>
     (\<exists>es t. list_all is_worker es \<and> run_events tp_exec s es = Some t \<and> tp_pulled t = Suc (tp_pulled s))"

text \<open>The workers may run: the lock is free, nobody is paused, the pool is not being destroyed.\<close>

definition runnable :: "('f, 'a) thpool \<Rightarrow> bool" where
  "runnable s \<longleftrightarrow> tp_Inv s \<and> \<not> tp_freed s \<and> tp_keepalive s \<and> \<not> tp_thcount_lock s \<and>
     (\<forall>i < length (tp_workers s). \<not> tp_held s ! i) \<and> jq_len (tp_jobqueue s) \<noteq> 0"

text \<open>What a worker's step on its way to the queue leaves as it is.\<close>

definition same_frame :: "('f, 'a) thpool \<Rightarrow> ('f, 'a) thpool \<Rightarrow> bool" where
  "same_frame s t \<longleftrightarrow> tp_freed t = tp_freed s \<and> tp_keepalive t = tp_keepalive s \<and>
     tp_thcount_lock t = tp_thcount_lock s \<and> tp_held t = tp_held s \<and> tp_pulled t = tp_pulled s \<and>
     jq_len (tp_jobqueue t) = jq_len (tp_jobqueue s) \<and> length (tp_workers t) = length (tp_workers s)"

lemma leads_via:
  assumes r: "runnable s" and i: "i < length (tp_workers s)" and step: "thread_do i w s = Some t"
    and same: "same_frame s t" and t: "runnable t \<Longrightarrow> leads_to_pull t"
  shows "leads_to_pull s"
proof -
  have ok: "tp_Inv s" "\<not> tp_freed s" "\<not> tp_held s ! i" using r i by (auto simp: runnable_def)
  then have w: "worker_step i w s = Some t" using i step by (simp add: worker_step_def)
  with ok InvD(1) have e: "tp_exec s (Worker i w) = Some t" by simp
  have "runnable t" using r same worker_step_Inv [OF ok(1) w] by (simp add: runnable_def same_frame_def)
  from t [OF this] obtain es u where "list_all is_worker es" "run_events tp_exec t es = Some u"
    "tp_pulled u = Suc (tp_pulled t)" by (auto simp: leads_to_pull_def)
  with e same show ?thesis
    unfolding leads_to_pull_def by (intro exI [of _ "Worker i w # es"] exI [of _ u]) (simp add: same_frame_def)
qed

lemma some_signal: "\<exists>w ws'. signal_has_jobs w ws = Some ws'"
proof (cases "WSleep \<in> set ws")
  case True
  then obtain j where "j < length ws" "ws ! j = WSleep" by (auto simp: in_set_conv_nth)
  then show ?thesis by (intro exI [of _ "Some j"]) (simp add: signal_has_jobs_def)
qed (auto simp: signal_has_jobs_def intro!: exI [of _ None])

lemma some_idle_signal: "\<exists>w cs'. signal_all_idle w cs = Some cs'"
proof (cases "\<exists>c\<in>set cs. sleeping_client c")
  case True
  then obtain j where "j < length cs" "sleeping_client (cs ! j)" by (auto simp: in_set_conv_nth)
  then show ?thesis by (intro exI [of _ "Some j"]) (simp add: signal_all_idle_def)
qed (auto simp: signal_all_idle_def intro!: exI [of _ None])

lemma pull_leads:
  assumes r: "runnable s" and i: "i < length (tp_workers s)" "tp_workers s ! i = WPull"
  shows "leads_to_pull s"
proof -
  have len: "jq_len (tp_jobqueue s) \<noteq> 0" and d: "data_ok s"
    using r InvD(2) by (auto simp: runnable_def)
  obtain p q where q: "jobqueue_pull (tp_heap s) (tp_jobqueue s) = Returns (Some p, q)"
    by (cases rule: data_ok_pull [OF d i refl]) (use len in auto)
  obtain w ws where "signal_has_jobs w (tp_workers s) = Some ws" using some_signal by blast
  then obtain ws' where ws': "(if jq_len (tp_jobqueue s) > 1 then signal_has_jobs w (tp_workers s)
      else Some (tp_workers s)) = Some ws'" by (cases "jq_len (tp_jobqueue s) > 1") auto
  have "\<exists>t. thread_do i w s = Some t \<and> tp_pulled t = Suc (tp_pulled s)"
    using i q ws' by (auto simp: thread_do_def split: if_splits)
  then obtain t where "thread_do i w s = Some t" "tp_pulled t = Suc (tp_pulled s)" by blast
  then have "run_events tp_exec s [Worker i w] = Some t"
    using r i(1) InvD(1) [of s] by (auto simp: runnable_def worker_step_def)
  with \<open>tp_pulled t = _\<close> show ?thesis
    unfolding leads_to_pull_def by (intro exI [of _ "[Worker i w]"] exI [of _ t]) simp
qed

lemma count_leads:
  assumes r: "runnable s" and i: "i < length (tp_workers s)" "tp_workers s ! i = WCount"
  shows "leads_to_pull s"
proof -
  let ?t = "goto i WPull (s\<lparr>tp_working := tp_working s + 1\<rparr>)"
  have step: "thread_do i None s = Some ?t" using r i by (simp add: thread_do_def runnable_def)
  show ?thesis by (rule leads_via [OF r i(1) step]) (use i in \<open>auto simp: same_frame_def goto_def intro: pull_leads [of _ i]\<close>)
qed

lemma got_leads:
  assumes r: "runnable s" and i: "i < length (tp_workers s)" "tp_workers s ! i = WGot"
  shows "leads_to_pull s"
proof -
  let ?t = "goto i WCount s"
  have step: "thread_do i None s = Some ?t" using r i by (simp add: thread_do_def runnable_def)
  show ?thesis by (rule leads_via [OF r i(1) step]) (use i in \<open>auto simp: same_frame_def goto_def intro: count_leads [of _ i]\<close>)
qed

lemma sem_leads:
  assumes r: "runnable s" and i: "i < length (tp_workers s)" "tp_workers s ! i = WSem"
    and v: "bs_v (jq_has_jobs (tp_jobqueue s)) = 1"
  shows "leads_to_pull s"
proof -
  let ?t = "goto i WGot (s\<lparr>tp_jobqueue := (tp_jobqueue s)\<lparr>jq_has_jobs := (jq_has_jobs (tp_jobqueue s))\<lparr>bs_v := 0\<rparr>\<rparr>\<rparr>)"
  have step: "thread_do i None s = Some ?t" using i v by (simp add: thread_do_def bsem_wait_def)
  show ?thesis by (rule leads_via [OF r i(1) step]) (use i in \<open>auto simp: same_frame_def goto_def intro: got_leads [of _ i]\<close>)
qed

lemma top_leads:
  assumes r: "runnable s" and i: "i < length (tp_workers s)" "tp_workers s ! i = WTop"
    and v: "bs_v (jq_has_jobs (tp_jobqueue s)) = 1"
  shows "leads_to_pull s"
proof -
  let ?t = "goto i WSem s"
  have step: "thread_do i None s = Some ?t" using r i by (simp add: thread_do_def runnable_def)
  show ?thesis by (rule leads_via [OF r i(1) step]) (use i v in \<open>auto simp: same_frame_def goto_def intro: sem_leads [of _ i]\<close>)
qed

lemma new_leads:
  assumes r: "runnable s" and i: "i < length (tp_workers s)" "tp_workers s ! i = WNew"
    and v: "bs_v (jq_has_jobs (tp_jobqueue s)) = 1"
  shows "leads_to_pull s"
proof -
  let ?t = "goto i WTop (s\<lparr>tp_alive := tp_alive s + 1\<rparr>)"
  have step: "thread_do i None s = Some ?t" using r i by (simp add: thread_do_def runnable_def)
  show ?thesis by (rule leads_via [OF r i(1) step]) (use i v in \<open>auto simp: same_frame_def goto_def intro: top_leads [of _ i]\<close>)
qed

lemma done_leads:
  assumes r: "runnable s" and i: "i < length (tp_workers s)" "tp_workers s ! i = WDone"
    and v: "bs_v (jq_has_jobs (tp_jobqueue s)) = 1"
  shows "leads_to_pull s"
proof -
  obtain w cs where "signal_all_idle w (tp_clients s) = Some cs" using some_idle_signal by blast
  then obtain cs' where cs': "(if tp_working s - 1 = 0 then signal_all_idle w (tp_clients s)
      else Some (tp_clients s)) = Some cs'" by (cases "tp_working s - 1 = 0") auto
  let ?t = "goto i WTop (s\<lparr>tp_working := tp_working s - 1, tp_clients := cs'\<rparr>)"
  have "\<not> tp_thcount_lock s" using r by (simp add: runnable_def)
  then have step: "thread_do i w s = Some ?t" 
    using cs' i by (cases "tp_working s - 1 = 0") (simp_all add: thread_do_def)
  show ?thesis by (rule leads_via [OF r i(1) step]) (use i v in \<open>auto simp: same_frame_def goto_def intro: top_leads [of _ i]\<close>)
qed

lemma busy_leads:
  assumes r: "runnable s" and i: "i < length (tp_workers s)" "tp_workers s ! i = WBusy k p"
    and v: "bs_v (jq_has_jobs (tp_jobqueue s)) = 1"
  shows "leads_to_pull s"
proof -
  let ?t = "goto i WDone (s\<lparr>tp_heap := free_job (tp_heap s) (Some p), tp_finished := tp_finished s @ [k]\<rparr>)"
  have step: "thread_do i None s = Some ?t" using i by (simp add: thread_do_def)
  show ?thesis by (rule leads_via [OF r i(1) step]) (use i v in \<open>auto simp: same_frame_def goto_def intro: done_leads [of _ i]\<close>)
qed

lemma call_leads:
  assumes r: "runnable s" and i: "i < length (tp_workers s)" "tp_workers s ! i = WCall k p"
    and v: "bs_v (jq_has_jobs (tp_jobqueue s)) = 1"
  shows "leads_to_pull s"
proof -
  have "data_ok s" using r InvD(2) by (auto simp: runnable_def)
  from data_ok_cell(1) [OF this i(1), of k p False] i(2) obtain j where "tp_heap s p = Some j"
    by (auto simp: work_def)
  then have step: "thread_do i None s = Some (goto i (WBusy k p) (s\<lparr>tp_runs := tp_runs s @ [(k, job_function j, job_arg j)]\<rparr>))"
    using i by (simp add: thread_do_def deref_def)
  show ?thesis by (rule leads_via [OF r i(1) step]) (use i v in \<open>auto simp: same_frame_def goto_def intro: busy_leads [of _ i]\<close>)
qed

lemmas way_leads = got_leads count_leads pull_leads
lemmas up_leads = new_leads top_leads sem_leads call_leads busy_leads done_leads

lemma runnable_leads:
  assumes r: "runnable s" and n: "tp_workers s \<noteq> []"
  shows "leads_to_pull s"
proof -
  have wake: "wake_ok True (tp_jobqueue s) (tp_workers s)" and c: "counts_ok s"
    and len: "jq_len (tp_jobqueue s) \<noteq> 0" and k: "tp_keepalive s"
    using r InvD(3,4) [of s] by (auto simp: runnable_def)
  show ?thesis
  proof (cases "0 < icount on_its_way (tp_workers s)")
    case True
    then obtain i where "i < length (tp_workers s)" "on_its_way (tp_workers s ! i)"
      by (auto simp: icount_pos_iff in_set_conv_nth)
    with way_leads [OF r] show ?thesis by (auto simp: on_its_way_def)
  next
    case False
    with wake len have v: "bs_v (jq_has_jobs (tp_jobqueue s)) = 1" by (simp add: wake_ok_def)
    have "\<exists>i < length (tp_workers s). tp_workers s ! i \<noteq> WSleep"
    proof (cases "tp_workers s ! 0 = WSleep")
      case True
      with n have "WSleep \<in> set (tp_workers s)" using nth_mem [of 0 "tp_workers s"] by simp
      then have "0 < icount ((=) WSleep) (tp_workers s)" by (auto simp: icount_pos_iff)
      with wake v have "0 < icount ((=) WSem) (tp_workers s)" by (simp add: wake_ok_def)
      then show ?thesis by (auto simp: icount_pos_iff in_set_conv_nth)
    qed (use n in auto)
    then obtain i where i: "i < length (tp_workers s)" "tp_workers s ! i \<noteq> WSleep" by blast
    have "\<not> leaving (tp_workers s ! i)" using c k i by (simp add: counts_ok_def icount_zero_iff)
    moreover have "\<not> on_its_way (tp_workers s ! i)" using False i by (auto simp: icount_pos_iff)
    ultimately show ?thesis using i v up_leads [OF r i(1)]
      by (cases "tp_workers s ! i") (auto simp: on_its_way_def)
  qed
qed

text \<open>
  C18. A queued job is never stranded: in every reachable state with a job in the queue, a pool of
  at least one thread that is not being destroyed, no paused thread and \<open>thcount_lock\<close> free, the
  workers by themselves can go on until one of them pulls a job.
\<close>

theorem thpool_queued_job_progress:
  assumes "run_events tp_exec (tp_start n cl) es = Some s" "\<not> tp_freed s" "tp_keepalive s"
    and "tp_workers s \<noteq> []" "\<forall>i < length (tp_workers s). \<not> tp_held s ! i"
    and "\<not> tp_thcount_lock s" "jq_len (tp_jobqueue s) \<noteq> 0"
  shows "\<exists>fs t. list_all is_worker fs \<and> run_events tp_exec s fs = Some t \<and> tp_pulled t = Suc (tp_pulled s)"
  using runnable_leads [of s] assms tp_run_Inv [OF assms(1)]
  by (simp add: runnable_def leads_to_pull_def)

theorem thpool_queued_job_progress_witness:
  "\<exists>s fs t. run_events tp_exec (tp_start 1 0) run_queued = Some s \<and> list_all is_worker fs \<and>
     run_events tp_exec s fs = Some t \<and> tp_pulled t = Suc (tp_pulled s)"
proof -
  from run_events_ex [OF run_queued_ends] obtain s where
    s: "run_events tp_exec (tp_start 1 0) run_queued = Some s" "\<not> tp_freed s" "tp_keepalive s"
      "\<not> tp_thcount_lock s" "jq_len (tp_jobqueue s) = 2" "tp_held s = [False]" "tp_workers s = [WSem]"
    by blast
  with thpool_queued_job_progress [OF s(1-3)] show ?thesis by auto
qed

section \<open>Destruction\<close>

text \<open>
  The step of \<open>thpool_destroy\<close> that frees the pool, taken in any reachable state with no
  thread alive, frees every job cell ever allocated, and \<open>thpool_destroy\<close> itself follows no
  freed or null pointer.
\<close>

theorem thpool_destroy_frees_all:
  assumes "run_events tp_exec (tp_start n cl) es = Some s" "\<not> tp_freed s"
    and "tp_destroying s" "tp_alive s = 0"
  shows "\<exists>t. tp_exec s DestroyPoll = Some t \<and> tp_freed t \<and> \<not> tp_fault t \<and> tp_heap t = Map.empty"
proof -
  note ok = InvD [OF tp_run_Inv [OF assms(1)] assms(2)]
  obtain as where
    h: "heap_ok (tp_heap s) (tp_jobqueue s) (tp_added s) (tp_pulled s) (taken (tp_workers s)) as"
    by (rule data_okD [OF ok(2)])
  have "\<forall>p\<in>set (tp_workers s). \<not> counted_alive p"
    using ok(3) assms(4) by (simp add: counts_ok_def icount_zero_iff)
  then have "busy p = None" if "p \<in> set (tp_workers s)" for p using that by (cases p) auto
  then have "taken (tp_workers s) i = None" for i by (simp add: taken_def)
  then have "dom (tp_heap s) = set as" using heap_okD(4) [OF h] by (simp add: ran_def)
  then have "tp_heap s |` (- set as) = Map.empty" by (auto simp: restrict_map_def fun_eq_iff domIff)
  with jobqueue_destroy_frees [OF heap_okD(1) [OF h]] assms ok(1) show ?thesis
    by (simp add: destroy_poll_def)
qed

text \<open>The worker leaves its loop and stops before it unlocks \<open>thcount_lock\<close>; the pool is freed.\<close>

definition run_destroy :: "(nat, nat) tp_event list" where
  "run_destroy = [Worker 0 None, InitReturn, AddWork 7 5 (Some 0) None, DestroyBegin,
     Worker 0 None, Worker 0 None]"

lemma run_destroy_ends:
  "run_ends tp_exec (tp_start 1 0) run_destroy (\<lambda>s. \<not> tp_freed s \<and> tp_destroying s \<and> tp_alive s = 0 \<and>
     tp_workers s = [WUnlock])"
  by code_simp

theorem thpool_destroy_frees_all_witness:
  "\<exists>s t. run_events tp_exec (tp_start 1 0) run_destroy = Some s \<and>
     tp_exec s DestroyPoll = Some t \<and> tp_freed t \<and> \<not> tp_fault t \<and> tp_heap t = Map.empty"
proof -
  from run_events_ex [OF run_destroy_ends] obtain s where
    s: "run_events tp_exec (tp_start 1 0) run_destroy = Some s" "\<not> tp_freed s" "tp_destroying s" "tp_alive s = 0"
    by blast
  from thpool_destroy_frees_all [OF s] s(1) show ?thesis by blast
qed

section \<open>Runs in which the pool misbehaves\<close>

text \<open>
  \<open>thpool_destroy\<close> races with the last worker: the worker decrements \<open>num_threads_alive\<close> under
  \<open>thcount_lock\<close>, \<open>thpool_destroy\<close> sees zero and frees the pool, and the worker then unlocks a
  mutex in freed memory.
\<close>

theorem thpool_destroy_use_after_free:
  "run_ends tp_exec (tp_start 1 0) (run_destroy @ [DestroyPoll, Worker 0 None]) tp_fault"
  by code_simp

text \<open>Two callers wait for one job.\<close>

definition run_two_waiters :: "(nat, nat) tp_event list" where
  "run_two_waiters = [Worker 0 None, InitReturn, AddWork 7 5 (Some 0) None,
     Client 0, Client 0, Client 0, Client 0, Client 1, Client 1, Client 1, Client 1,
     Worker 0 None, Worker 0 None, Worker 0 None, Worker 0 None, Worker 0 None, Worker 0 None,
     Worker 0 None, Worker 0 (Some 0), Worker 0 None, Worker 0 None,
     Client 0, Client 0, Client 0]"

text \<open>
  With two callers in \<open>thpool_wait\<close> the last worker wakes only one of them: a run of one job
  ends with the queue empty, no thread working, the first caller returned, the worker asleep, and
  the second caller still asleep although nothing is left that could signal it.
\<close>

theorem thpool_wait_strands_second_caller:
  "run_ends tp_exec (tp_start 1 2) run_two_waiters
     (\<lambda>s. tp_clients s = [CDone 1, CSleep 1] \<and> tp_workers s = [WSleep] \<and>
          jq_len (tp_jobqueue s) = 0 \<and> tp_working s = 0)"
  by code_simp

text \<open>
  A pause signal delivered after \<open>thpool_resume\<close> stops its worker although the pool was
  resumed: the handler sets \<open>threads_on_hold\<close> again, and the worker does not run until another
  \<open>thpool_resume\<close>.
\<close>

theorem thpool_late_pause_sticks:
  "run_ends tp_exec (tp_start 1 0)
     [Worker 0 None, InitReturn, Pause, Resume, Hold 0]
     (\<lambda>s. tp_held s = [True] \<and> tp_on_hold s \<and> tp_exec s (Worker 0 None) = None \<and> tp_exec s (Hold 0) = None)"
  by code_simp

end
