(* ===== verification/Msgqueue.thy ===== *)
theory Msgqueue
  imports Fifo
begin

unbundle bit_operations_syntax

text \<open>
  The message queues of \<open>extra_lib/unpv22e/my_pxmsg_mmap\<close>, which live in a mapped file: a header,
  then \<open>mq_maxmsg\<close> slots for messages, each on one of two lists linked by byte index, the
  messages by falling priority and the free slots. An index of 0 ends a list. The functions run
  under the queue's mutex; this theory has each of them up to the point where it would wait, and
  shows that together they implement a bounded stable priority queue. \<open>Msgqueue_System\<close> has the
  threads that wait, \<open>Msgqueue_Open\<close> has \<open>mymq_open\<close>.
\<close>

section \<open>Data\<close>

type_synonym bytes = "8 word list"

record mymq_attr =
  mq_flags :: "64 word"
  mq_maxmsg :: int
  mq_msgsize :: int
  mq_curmsgs :: int

record sigevent =
  sigev_notify :: int
  sigev_signo :: int
  sigev_value :: int

record mymq_hdr =
  mqh_attr :: mymq_attr
  mqh_head :: nat
  mqh_free :: nat
  mqh_nwait :: int
  mqh_pid :: int
  mqh_event :: sigevent

text \<open>A message slot: its header and the bytes behind it.\<close>

record mymsg_hdr =
  msg_next :: nat
  msg_len :: nat
  msg_prio :: "32 word"
  msg_data :: bytes

record mq_file =
  mf_hdr :: mymq_hdr
  mf_msg :: "nat \<Rightarrow> mymsg_hdr"

record mymq_info =
  mqi_magic :: "64 word"
  mqi_flags :: "32 word"

definition MQI_MAGIC :: "64 word" where
  "MQI_MAGIC = 0x98765432"

definition O_NONBLOCK :: "32 word" where
  "O_NONBLOCK = 0x800"

definition SIGEV_SIGNAL :: int where
  "SIGEV_SIGNAL = 0"

text \<open>Sizes in bytes: of a \<open>long\<close>, and of a message header with its padding.\<close>

definition SIZEOF_LONG :: nat where "SIZEOF_LONG = 8"
definition SIZEOF_MSGHDR :: nat where "SIZEOF_MSGHDR = 24"

definition MSGSIZE :: "nat \<Rightarrow> nat" where
  "MSGSIZE i = ((i + SIZEOF_LONG - 1) div SIZEOF_LONG) * SIZEOF_LONG"

text \<open>The file size that \<open>mymq_open\<close> sets and \<open>mymq_close\<close> unmaps; \<open>hs\<close> is the header's size.\<close>

definition mq_filesize :: "nat \<Rightarrow> mymq_attr \<Rightarrow> nat" where
  "mq_filesize hs a = hs + nat (mq_maxmsg a) * (SIZEOF_MSGHDR + MSGSIZE (nat (mq_msgsize a)))"

text \<open>
  How a function ends that does not have to wait: with an errno, waiting on the condition
  variable, having returned a value, or in \<open>err_dump\<close>.
\<close>

datatype 'a mq_result = MqErr int | MqWait | MqDone 'a | MqDump

section \<open>Sending\<close>

text \<open>
  The search for the place of a message: from the slot \<open>index\<close>, with \<open>prev\<close> the slot before it
  (\<open>None\<close> is the header's \<open>mqh_head\<close>), to the first slot of lower priority or the end.
\<close>

partial_function (option) mq_find_place ::
  "(nat \<Rightarrow> mymsg_hdr) \<Rightarrow> 32 word \<Rightarrow> nat option \<Rightarrow> nat \<Rightarrow> (nat option \<times> nat) option" where
  "mq_find_place c prio prev index =
     (if index = 0 then Some (prev, 0)
      else if prio > msg_prio (c index) then Some (prev, index)
      else mq_find_place c prio (Some index) (msg_next (c index)))"

declare mq_find_place.simps [code]

text \<open>The store through \<open>pmsghdr\<close>, which points to a slot or to \<open>mqh_head\<close>.\<close>

definition set_prev_next :: "nat option \<Rightarrow> nat \<Rightarrow> mq_file \<Rightarrow> mq_file" where
  "set_prev_next prev n f =
     (case prev of
        None \<Rightarrow> f\<lparr>mf_hdr := (mf_hdr f)\<lparr>mqh_head := n\<rparr>\<rparr>
      | Some p \<Rightarrow> f\<lparr>mf_msg := (mf_msg f)(p := (mf_msg f p)\<lparr>msg_next := n\<rparr>)\<rparr>)"

definition set_curmsgs :: "int \<Rightarrow> mq_file \<Rightarrow> mq_file" where
  "set_curmsgs n f = f\<lparr>mf_hdr := (mf_hdr f)\<lparr>mqh_attr := (mqh_attr (mf_hdr f))\<lparr>mq_curmsgs := n\<rparr>\<rparr>\<rparr>"

text \<open>
  The second half of \<open>mymq_send\<close>, when there is room. The result says whether the condition
  variable is signalled; the outer \<open>None\<close> is a list that does not end.
\<close>

definition mq_send_put :: "mq_file \<Rightarrow> bytes \<Rightarrow> 32 word \<Rightarrow> (mq_file \<times> bool) mq_result option" where
  "mq_send_put f ptr prio =
     (let freeindex = mqh_free (mf_hdr f) in
      if freeindex = 0 then Some MqDump
      else
        let old = mf_msg f freeindex;
            new = old\<lparr>msg_prio := prio, msg_len := length ptr,
                      msg_data := ptr @ drop (length ptr) (msg_data old)\<rparr>;
            f1 = f\<lparr>mf_msg := (mf_msg f)(freeindex := new),
                   mf_hdr := (mf_hdr f)\<lparr>mqh_free := msg_next new\<rparr>\<rparr>
        in case mq_find_place (mf_msg f1) prio None (mqh_head (mf_hdr f1)) of
             None \<Rightarrow> None
           | Some (prev, index) \<Rightarrow>
               let f2 = f1\<lparr>mf_msg := (mf_msg f1)(freeindex := (mf_msg f1 freeindex)\<lparr>msg_next := index\<rparr>)\<rparr>;
                   f3 = set_prev_next prev freeindex f2;
                   cur = mq_curmsgs (mqh_attr (mf_hdr f3))
               in Some (MqDone (set_curmsgs (cur + 1) f3, cur = 0)))"

text \<open>The notification of a registered process; the list is what is passed to \<open>sigqueue\<close>.\<close>

definition mq_send_notify :: "mq_file \<Rightarrow> mq_file \<times> (int \<times> int \<times> int) list" where
  "mq_send_notify f =
     (let h = mf_hdr f in
      if mqh_pid h \<noteq> 0 \<and> mqh_nwait h = 0
      then (f\<lparr>mf_hdr := h\<lparr>mqh_pid := 0\<rparr>\<rparr>,
            if sigev_notify (mqh_event h) = SIGEV_SIGNAL
            then [(mqh_pid h, sigev_signo (mqh_event h), sigev_value (mqh_event h))] else [])
      else (f, []))"

definition mq_nonblock :: "mymq_info \<Rightarrow> bool" where
  "mq_nonblock i \<longleftrightarrow> mqi_flags i AND O_NONBLOCK \<noteq> 0"

text \<open>
  \<open>mymq_send\<close>; \<open>lk\<close> is what \<open>pthread_mutex_lock\<close> returns. The result holds the file, whether the
  condition variable is signalled, and the signals queued.
\<close>

definition mymq_send ::
  "int \<Rightarrow> mymq_info \<Rightarrow> mq_file \<Rightarrow> bytes \<Rightarrow> 32 word \<Rightarrow> (mq_file \<times> bool \<times> (int \<times> int \<times> int) list) mq_result option" where
  "mymq_send lk i f ptr prio =
     (let a = mqh_attr (mf_hdr f) in
      if mqi_magic i \<noteq> MQI_MAGIC then Some (MqErr EBADF)
      else if lk \<noteq> 0 then Some (MqErr lk)
      else if int (length ptr) > mq_msgsize a then Some (MqErr EMSGSIZE)
      else if mq_curmsgs a \<noteq> 0 \<and> mq_curmsgs a \<ge> mq_maxmsg a
      then Some (if mq_nonblock i then MqErr EAGAIN else MqWait)
      else
        let (f1, sigs) = (if mq_curmsgs a = 0 then mq_send_notify f else (f, [])) in
        (case mq_send_put f1 ptr prio of
           None \<Rightarrow> None
         | Some (MqDone (f2, sg)) \<Rightarrow> Some (MqDone (f2, sg, sigs))
         | Some _ \<Rightarrow> Some MqDump))"

text \<open>The loop of a sender that waits for room, each time it holds the mutex again.\<close>

definition mymq_send_resume ::
  "mq_file \<Rightarrow> bytes \<Rightarrow> 32 word \<Rightarrow> (mq_file \<times> bool) mq_result option" where
  "mymq_send_resume f ptr prio =
     (let a = mqh_attr (mf_hdr f) in
      if mq_curmsgs a \<ge> mq_maxmsg a then Some MqWait else mq_send_put f ptr prio)"

section \<open>Receiving\<close>

text \<open>
  The second half of \<open>mymq_receive\<close>: the first message is unlinked and its slot goes to the front
  of the free list. The value is the message's bytes, whose number is the return value, and its
  priority.
\<close>

definition mq_receive_get :: "mq_file \<Rightarrow> (mq_file \<times> bool \<times> bytes \<times> 32 word) mq_result" where
  "mq_receive_get f =
     (let index = mqh_head (mf_hdr f) in
      if index = 0 then MqDump
      else
        let msg = mf_msg f index;
            f1 = f\<lparr>mf_hdr := (mf_hdr f)\<lparr>mqh_head := msg_next msg\<rparr>\<rparr>;
            f2 = f1\<lparr>mf_msg := (mf_msg f1)(index := msg\<lparr>msg_next := mqh_free (mf_hdr f1)\<rparr>),
                    mf_hdr := (mf_hdr f1)\<lparr>mqh_free := index\<rparr>\<rparr>;
            a = mqh_attr (mf_hdr f2)
        in MqDone (set_curmsgs (mq_curmsgs a - 1) f2, mq_curmsgs a = mq_maxmsg a,
                   take (msg_len msg) (msg_data msg), msg_prio msg))"

definition mymq_receive ::
  "int \<Rightarrow> mymq_info \<Rightarrow> mq_file \<Rightarrow> nat \<Rightarrow> (mq_file \<times> bool \<times> bytes \<times> 32 word) mq_result" where
  "mymq_receive lk i f maxlen =
     (let a = mqh_attr (mf_hdr f) in
      if mqi_magic i \<noteq> MQI_MAGIC then MqErr EBADF
      else if lk \<noteq> 0 then MqErr lk
      else if int maxlen < mq_msgsize a then MqErr EMSGSIZE
      else if mq_curmsgs a = 0 then (if mq_nonblock i then MqErr EAGAIN else MqWait)
      else mq_receive_get f)"

text \<open>A receiver that starts to wait counts itself; it uncounts itself when it has a message.\<close>

definition mq_add_nwait :: "int \<Rightarrow> mq_file \<Rightarrow> mq_file" where
  "mq_add_nwait n f = f\<lparr>mf_hdr := (mf_hdr f)\<lparr>mqh_nwait := mqh_nwait (mf_hdr f) + n\<rparr>\<rparr>"

definition mymq_receive_resume :: "mq_file \<Rightarrow> (mq_file \<times> bool \<times> bytes \<times> 32 word) mq_result" where
  "mymq_receive_resume f =
     (if mq_curmsgs (mqh_attr (mf_hdr f)) = 0 then MqWait
      else mq_receive_get (mq_add_nwait (- 1) f))"

section \<open>Attributes, notification, closing\<close>

definition mymq_getattr :: "int \<Rightarrow> mymq_info \<Rightarrow> mq_file \<Rightarrow> int + mymq_attr" where
  "mymq_getattr lk i f =
     (if mqi_magic i \<noteq> MQI_MAGIC then Inl EBADF
      else if lk \<noteq> 0 then Inl lk
      else Inr (let a = mqh_attr (mf_hdr f) in
        \<lparr>mq_flags = ucast (mqi_flags i), mq_maxmsg = mq_maxmsg a, mq_msgsize = mq_msgsize a,
         mq_curmsgs = mq_curmsgs a\<rparr>))"

text \<open>\<open>mymq_setattr\<close> changes the descriptor only, and returns the previous attributes.\<close>

definition mymq_setattr ::
  "int \<Rightarrow> mymq_info \<Rightarrow> mq_file \<Rightarrow> mymq_attr \<Rightarrow> int + (mymq_info \<times> mymq_attr)" where
  "mymq_setattr lk i f mqstat =
     (case mymq_getattr lk i f of
        Inl e \<Rightarrow> Inl e
      | Inr omqstat \<Rightarrow>
          Inr (i\<lparr>mqi_flags := (if mq_flags mqstat AND ucast O_NONBLOCK \<noteq> 0
                               then mqi_flags i OR O_NONBLOCK
                               else mqi_flags i AND NOT O_NONBLOCK)\<rparr>, omqstat))"

text \<open>
  \<open>mymq_notify\<close> in process \<open>pid\<close>; \<open>kill0 p\<close> is 0 or the errno of \<open>kill(p, 0)\<close>, which tells
  whether process \<open>p\<close> still exists.
\<close>

definition mymq_notify ::
  "int \<Rightarrow> (int \<Rightarrow> int) \<Rightarrow> int \<Rightarrow> mymq_info \<Rightarrow> mq_file \<Rightarrow> sigevent option \<Rightarrow> int + mq_file" where
  "mymq_notify lk kill0 pid i f notification =
     (let h = mf_hdr f in
      if mqi_magic i \<noteq> MQI_MAGIC then Inl EBADF
      else if lk \<noteq> 0 then Inl lk
      else case notification of
        None \<Rightarrow> Inr (if mqh_pid h = pid then f\<lparr>mf_hdr := h\<lparr>mqh_pid := 0\<rparr>\<rparr> else f)
      | Some n \<Rightarrow>
          if mqh_pid h \<noteq> 0 \<and> kill0 (mqh_pid h) \<noteq> ESRCH then Inl EBUSY
          else Inr (f\<lparr>mf_hdr := h\<lparr>mqh_pid := pid, mqh_event := n\<rparr>\<rparr>))"

text \<open>
  \<open>mymq_close\<close>; \<open>mu\<close> is the errno of \<open>munmap\<close> or 0. The result holds the file, the descriptor,
  and the number of bytes unmapped.
\<close>

definition mymq_close ::
  "int \<Rightarrow> (int \<Rightarrow> int) \<Rightarrow> int \<Rightarrow> int \<Rightarrow> nat \<Rightarrow> mymq_info \<Rightarrow> mq_file \<Rightarrow> int + (mq_file \<times> mymq_info \<times> nat)" where
  "mymq_close lk kill0 pid mu hs i f =
     (if mqi_magic i \<noteq> MQI_MAGIC then Inl EBADF
      else case mymq_notify lk kill0 pid i f None of
        Inl e \<Rightarrow> Inl e
      | Inr f' \<Rightarrow> if mu \<noteq> 0 then Inl mu
                  else Inr (f', i\<lparr>mqi_magic := 0\<rparr>, mq_filesize hs (mqh_attr (mf_hdr f))))"

definition mymq_unlink :: "int \<Rightarrow> int + unit" where
  "mymq_unlink ul = (if ul \<noteq> 0 then Inl ul else Inr ())"

text \<open>The wrappers end the process on an error.\<close>

definition Mymq_err :: "string \<Rightarrow> int + 'a \<Rightarrow> 'a outcome" where
  "Mymq_err m r = (case r of Inl e \<Rightarrow> Dies m | Inr x \<Rightarrow> Returns x)"

definition Mymq_send ::
  "int \<Rightarrow> mymq_info \<Rightarrow> mq_file \<Rightarrow> bytes \<Rightarrow> 32 word \<Rightarrow>
     (mq_file \<times> bool \<times> (int \<times> int \<times> int) list) option outcome option" where
  "Mymq_send lk i f ptr prio =
     map_option (\<lambda>r. case r of
         MqErr e \<Rightarrow> Dies ''mymq_send error'' | MqDump \<Rightarrow> Dies ''mymq_send: free = 0''
       | MqWait \<Rightarrow> Returns None | MqDone x \<Rightarrow> Returns (Some x)) (mymq_send lk i f ptr prio)"

definition Mymq_receive ::
  "int \<Rightarrow> mymq_info \<Rightarrow> mq_file \<Rightarrow> nat \<Rightarrow> (mq_file \<times> bool \<times> bytes \<times> 32 word) option outcome" where
  "Mymq_receive lk i f maxlen =
     (case mymq_receive lk i f maxlen of
         MqErr e \<Rightarrow> Dies ''mymq_receive error'' | MqDump \<Rightarrow> Dies ''mymq_receive: head = 0''
       | MqWait \<Rightarrow> Returns None | MqDone x \<Rightarrow> Returns (Some x))"

definition Mymq_getattr :: "int \<Rightarrow> mymq_info \<Rightarrow> mq_file \<Rightarrow> mymq_attr outcome" where
  "Mymq_getattr lk i f = Mymq_err ''mymq_getattr error'' (mymq_getattr lk i f)"

definition Mymq_setattr ::
  "int \<Rightarrow> mymq_info \<Rightarrow> mq_file \<Rightarrow> mymq_attr \<Rightarrow> (mymq_info \<times> mymq_attr) outcome" where
  "Mymq_setattr lk i f a = Mymq_err ''mymq_setattr error'' (mymq_setattr lk i f a)"

definition Mymq_notify ::
  "int \<Rightarrow> (int \<Rightarrow> int) \<Rightarrow> int \<Rightarrow> mymq_info \<Rightarrow> mq_file \<Rightarrow> sigevent option \<Rightarrow> mq_file outcome" where
  "Mymq_notify lk kill0 pid i f n = Mymq_err ''mymq_notify error'' (mymq_notify lk kill0 pid i f n)"

definition Mymq_close ::
  "int \<Rightarrow> (int \<Rightarrow> int) \<Rightarrow> int \<Rightarrow> int \<Rightarrow> nat \<Rightarrow> mymq_info \<Rightarrow> mq_file \<Rightarrow> (mq_file \<times> mymq_info \<times> nat) outcome" where
  "Mymq_close lk kill0 pid mu hs i f = Mymq_err ''mymq_close error'' (mymq_close lk kill0 pid mu hs i f)"

definition Mymq_unlink :: "int \<Rightarrow> unit outcome" where
  "Mymq_unlink ul = Mymq_err ''mymq_unlink error'' (mymq_unlink ul)"

section \<open>A new queue\<close>

text \<open>
  The part of \<open>mymq_open\<close> that initialises the file, all zero at first: the loop that links each
  slot to the next, and the header. \<open>w\<close> is the distance between slots.
\<close>

fun mq_init_links :: "nat \<Rightarrow> nat \<Rightarrow> nat \<Rightarrow> (nat \<Rightarrow> mymsg_hdr) \<Rightarrow> (nat \<Rightarrow> mymsg_hdr) \<times> nat" where
  "mq_init_links 0 index w c = (c, index)"
| "mq_init_links (Suc n) index w c =
     mq_init_links n (index + w) w (c(index := (c index)\<lparr>msg_next := index + w\<rparr>))"

definition mq_init :: "nat \<Rightarrow> mymq_attr \<Rightarrow> mq_file" where
  "mq_init hs attr =
     (let msgsize = MSGSIZE (nat (mq_msgsize attr));
          zero = \<lparr>msg_next = 0, msg_len = 0, msg_prio = 0, msg_data = replicate msgsize 0\<rparr>;
          (c, index) = mq_init_links (nat (mq_maxmsg attr - 1)) hs (SIZEOF_MSGHDR + msgsize) (\<lambda>_. zero)
      in \<lparr>mf_hdr = \<lparr>mqh_attr = \<lparr>mq_flags = 0, mq_maxmsg = mq_maxmsg attr, mq_msgsize = mq_msgsize attr, mq_curmsgs = 0\<rparr>,
            mqh_head = 0, mqh_free = hs, mqh_nwait = 0, mqh_pid = 0,
            mqh_event = \<lparr>sigev_notify = 0, sigev_signo = 0, sigev_value = 0\<rparr>\<rparr>,
          mf_msg = c(index := (c index)\<lparr>msg_next := 0\<rparr>)\<rparr>)"

section \<open>The representation\<close>

definition mq_next :: "(nat \<Rightarrow> mymsg_hdr) \<Rightarrow> nat \<Rightarrow> nat option" where
  "mq_next c a = ix (msg_next (c a))"

text \<open>The slots of a file and the message a slot holds.\<close>

definition slot :: "nat \<Rightarrow> nat \<Rightarrow> nat \<Rightarrow> nat" where
  "slot hs msz k = hs + k * (SIZEOF_MSGHDR + MSGSIZE msz)"

definition message :: "(nat \<Rightarrow> mymsg_hdr) \<Rightarrow> nat \<Rightarrow> 32 word \<times> bytes" where
  "message c a = (msg_prio (c a), take (msg_len (c a)) (msg_data (c a)))"

text \<open>
  The file holds the message slots \<open>ms\<close>, by falling priority, and the free slots \<open>fs\<close>; together
  they are all the slots, and no message is longer than the queue allows.
\<close>

definition mq_rep :: "nat \<Rightarrow> mq_file \<Rightarrow> nat list \<Rightarrow> nat list \<Rightarrow> bool" where
  "mq_rep hs f ms fs \<longleftrightarrow>
     (let h = mf_hdr f; a = mqh_attr h; c = mf_msg f in
      chain (mq_next c) (ix (mqh_head h)) ms \<and> chain (mq_next c) (ix (mqh_free h)) fs \<and>
      distinct (ms @ fs) \<and> 0 < hs \<and> 0 < mq_maxmsg a \<and> 0 < mq_msgsize a \<and>
      set (ms @ fs) = slot hs (nat (mq_msgsize a)) ` {..<nat (mq_maxmsg a)} \<and>
      mq_curmsgs a = int (length ms) \<and>
      sorted_wrt (\<lambda>x y. msg_prio (c y) \<le> msg_prio (c x)) ms \<and>
      (\<forall>m\<in>set ms. msg_len (c m) \<le> nat (mq_msgsize a) \<and> msg_len (c m) \<le> length (msg_data (c m))))"

definition mq_contents :: "mq_file \<Rightarrow> nat list \<Rightarrow> (32 word \<times> bytes) list" where
  "mq_contents f ms = map (message (mf_msg f)) ms"

text \<open>The abstract queue: a message goes behind those of the same or a higher priority.\<close>

definition enqueue :: "32 word \<times> bytes \<Rightarrow> (32 word \<times> bytes) list \<Rightarrow> (32 word \<times> bytes) list" where
  "enqueue m q = takeWhile (\<lambda>x. fst m \<le> fst x) q @ m # dropWhile (\<lambda>x. fst m \<le> fst x) q"

section \<open>Facts about lists of slots\<close>

lemma mq_next_upd [simp]: "mq_next (c(a := m)) = (mq_next c)(a := ix (msg_next m))"
  by (auto simp: mq_next_def fun_eq_iff)

lemma chain_pos: "chain (mq_next c) (ix n) as \<Longrightarrow> a \<in> set as \<Longrightarrow> 0 < a"
proof (induction as arbitrary: n)
  case Nil
  then show ?case by simp
next
  case (Cons b bs)
  then have "chain (mq_next c) (mq_next c b) bs" "0 < b" by auto
  with Cons show ?case by (auto simp: mq_next_def [of c b])
qed

text \<open>The index in front of a list of slots.\<close>

definition first_index :: "nat list \<Rightarrow> nat" where
  "first_index as = (case as of [] \<Rightarrow> 0 | a # _ \<Rightarrow> a)"

lemma first_index_ix: "(\<And>a. a \<in> set as \<Longrightarrow> 0 < a) \<Longrightarrow> ix (first_index as) = cut_ptr as"
  by (cases as) (auto simp: first_index_def)

text \<open>The search ends, between the slots of at least the new priority and the others.\<close>

lemma mq_find_place_chain:
  assumes "chain (mq_next c) (ix n) as"
  shows "mq_find_place c prio prev n =
    (let bs = takeWhile (\<lambda>a. prio \<le> msg_prio (c a)) as in
     Some (if bs = [] then prev else Some (last bs), first_index (dropWhile (\<lambda>a. prio \<le> msg_prio (c a)) as)))"
  using assms
proof (induction as arbitrary: n prev)
  case Nil
  then show ?case by (subst mq_find_place.simps) (simp add: first_index_def)
next
  case (Cons a as)
  then have n: "n = a" "0 < a" and "chain (mq_next c) (mq_next c a) as" by auto
  then have tl: "chain (mq_next c) (ix (msg_next (c a))) as" by (simp only: mq_next_def [symmetric])
  show ?case
  proof (cases "prio \<le> msg_prio (c a)")
    case True
    with n have "mq_find_place c prio prev n = mq_find_place c prio (Some a) (msg_next (c a))"
      by (subst mq_find_place.simps) auto
    with Cons.IH [OF tl, of "Some a"] True show ?thesis by (simp add: Let_def)
  next
    case False
    with n show ?thesis by (subst mq_find_place.simps) (auto simp: first_index_def)
  qed
qed

section \<open>Sending implements the abstract insertion\<close>

text \<open>Linking a slot between two parts of a list.\<close>

lemma link_between:
  assumes ch: "chain nx p (bs @ ds)" and a: "a \<notin> set bs" "a \<notin> set ds" and d: "distinct (bs @ ds)"
  shows "bs = [] \<Longrightarrow> chain (nx(a := cut_ptr ds)) (Some a) (bs @ a # ds)"
    and "bs = xs @ [b] \<Longrightarrow> chain (nx(a := cut_ptr ds, b := Some a)) p (bs @ a # ds)"
proof -
  show "bs = [] \<Longrightarrow> chain (nx(a := cut_ptr ds)) (Some a) (bs @ a # ds)"
    using ch a chain_hd [of nx p ds] by auto
  assume bs: "bs = xs @ [b]"
  from ch have "chain_to nx p bs (cut_ptr ds)" and ds: "chain nx (cut_ptr ds) ds"
    by (simp_all only: chain_append)
  with bs have xs: "chain_to nx p xs (Some b)" by (simp add: chain_to_append)
  from bs d a have b: "b \<notin> set xs" "b \<notin> set ds" "b \<noteq> a" "a \<notin> set xs" by auto
  have "chain_to (nx(a := cut_ptr ds, b := Some a)) p bs (Some a)"
    using xs b bs by (simp add: chain_to_append)
  moreover have "chain (nx(a := cut_ptr ds, b := Some a)) (Some a) (a # ds)" using ds b a by simp
  ultimately show "chain (nx(a := cut_ptr ds, b := Some a)) p (bs @ a # ds)"
    by (simp only: chain_append cut_ptr.simps simp_thms)
qed

lemma mq_repD:
  assumes "mq_rep hs f ms fs"
  shows "chain (mq_next (mf_msg f)) (ix (mqh_head (mf_hdr f))) ms"
    "chain (mq_next (mf_msg f)) (ix (mqh_free (mf_hdr f))) fs"
    "distinct (ms @ fs)" "0 < hs" "0 < mq_maxmsg (mqh_attr (mf_hdr f))" "0 < mq_msgsize (mqh_attr (mf_hdr f))"
    "set (ms @ fs) = slot hs (nat (mq_msgsize (mqh_attr (mf_hdr f)))) ` {..<nat (mq_maxmsg (mqh_attr (mf_hdr f)))}"
    "mq_curmsgs (mqh_attr (mf_hdr f)) = int (length ms)"
    "sorted_wrt (\<lambda>x y. msg_prio (mf_msg f y) \<le> msg_prio (mf_msg f x)) ms"
    "m \<in> set ms \<Longrightarrow> msg_len (mf_msg f m) \<le> nat (mq_msgsize (mqh_attr (mf_hdr f)))"
    "m \<in> set ms \<Longrightarrow> msg_len (mf_msg f m) \<le> length (msg_data (mf_msg f m))"
  using assms by (simp_all add: mq_rep_def Let_def)

lemma mq_repI:
  assumes "chain (mq_next (mf_msg f)) (ix (mqh_head (mf_hdr f))) ms"
    "chain (mq_next (mf_msg f)) (ix (mqh_free (mf_hdr f))) fs"
    "distinct (ms @ fs)" "0 < hs" "0 < mq_maxmsg (mqh_attr (mf_hdr f))" "0 < mq_msgsize (mqh_attr (mf_hdr f))"
    "set (ms @ fs) = slot hs (nat (mq_msgsize (mqh_attr (mf_hdr f)))) ` {..<nat (mq_maxmsg (mqh_attr (mf_hdr f)))}"
    "mq_curmsgs (mqh_attr (mf_hdr f)) = int (length ms)"
    "sorted_wrt (\<lambda>x y. msg_prio (mf_msg f y) \<le> msg_prio (mf_msg f x)) ms"
    "\<And>m. m \<in> set ms \<Longrightarrow> msg_len (mf_msg f m) \<le> nat (mq_msgsize (mqh_attr (mf_hdr f)))"
    "\<And>m. m \<in> set ms \<Longrightarrow> msg_len (mf_msg f m) \<le> length (msg_data (mf_msg f m))"
  shows "mq_rep hs f ms fs"
  using assms unfolding mq_rep_def Let_def by blast

text \<open>The priorities stay sorted.\<close>

lemma sorted_insert:
  assumes s: "sorted_wrt (\<lambda>x y. k y \<le> k x) as" and na: "a \<notin> set as"
    and k': "\<And>x. x \<noteq> a \<Longrightarrow> k' x = k x" "k' a = (p :: 'b :: linorder)"
  shows "sorted_wrt (\<lambda>x y. k' y \<le> k' x) (takeWhile (\<lambda>x. p \<le> k x) as @ a # dropWhile (\<lambda>x. p \<le> k x) as)"
  using s na
proof (induction as)
  case Nil
  then show ?case by simp
next
  case (Cons b as)
  have eq: "k' x = k x" if "x \<in> set (b # as)" for x using that Cons.prems k'(1) by metis
  show ?case
  proof (cases "p \<le> k b")
    case True
    let ?r = "takeWhile (\<lambda>x. p \<le> k x) as @ a # dropWhile (\<lambda>x. p \<le> k x) as"
    have "set ?r \<subseteq> insert a (set as)" by (auto dest: set_takeWhileD set_dropWhileD)
    then have "\<forall>y\<in>set ?r. k' y \<le> k' b" using True Cons.prems eq k'(2) by fastforce
    moreover have "sorted_wrt (\<lambda>x y. k' y \<le> k' x) ?r" using Cons by simp
    ultimately show ?thesis using True by simp
  next
    case False
    have "sorted_wrt (\<lambda>x y. k' y \<le> k' x) (b # as)"
      by (rule sorted_wrt_mono_rel [OF _ Cons.prems(1)]) (simp add: eq)
    moreover have "\<forall>y\<in>set (b # as). k' y \<le> p" using False Cons.prems eq by fastforce
    ultimately show ?thesis using False k'(2) by simp
  qed
qed

text \<open>What an operation leaves as it is in the header.\<close>

definition same_header :: "mq_file \<Rightarrow> mq_file \<Rightarrow> bool" where
  "same_header f g \<longleftrightarrow>
     mq_maxmsg (mqh_attr (mf_hdr g)) = mq_maxmsg (mqh_attr (mf_hdr f)) \<and>
     mq_msgsize (mqh_attr (mf_hdr g)) = mq_msgsize (mqh_attr (mf_hdr f)) \<and>
     mqh_nwait (mf_hdr g) = mqh_nwait (mf_hdr f) \<and> mqh_pid (mf_hdr g) = mqh_pid (mf_hdr f) \<and>
     mqh_event (mf_hdr g) = mqh_event (mf_hdr f)"

text \<open>The file after a message was put into slot \<open>a\<close>, between \<open>bs\<close> and \<open>ds\<close>.\<close>

definition put_slot :: "mymsg_hdr \<Rightarrow> bytes \<Rightarrow> 32 word \<Rightarrow> nat list \<Rightarrow> mymsg_hdr" where
  "put_slot old ptr prio ds = old\<lparr>msg_prio := prio, msg_len := length ptr,
     msg_data := ptr @ drop (length ptr) (msg_data old), msg_next := first_index ds\<rparr>"

definition put_file :: "mq_file \<Rightarrow> nat \<Rightarrow> bytes \<Rightarrow> 32 word \<Rightarrow> nat list \<Rightarrow> nat list \<Rightarrow> mq_file" where
  "put_file f a ptr prio bs ds =
     set_curmsgs (mq_curmsgs (mqh_attr (mf_hdr f)) + 1)
       (set_prev_next (if bs = [] then None else Some (last bs)) a
         (f\<lparr>mf_msg := (mf_msg f)(a := put_slot (mf_msg f a) ptr prio ds),
            mf_hdr := (mf_hdr f)\<lparr>mqh_free := msg_next (mf_msg f a)\<rparr>\<rparr>))"

abbreviation ahead :: "mq_file \<Rightarrow> 32 word \<Rightarrow> nat list \<Rightarrow> nat list" where
  "ahead f prio ms \<equiv> takeWhile (\<lambda>x. prio \<le> msg_prio (mf_msg f x)) ms"

abbreviation behind :: "mq_file \<Rightarrow> 32 word \<Rightarrow> nat list \<Rightarrow> nat list" where
  "behind f prio ms \<equiv> dropWhile (\<lambda>x. prio \<le> msg_prio (mf_msg f x)) ms"

lemma mq_send_put_eq:
  assumes rep: "mq_rep hs f ms (a # fs)"
  shows "mq_send_put f ptr prio =
    Some (MqDone (put_file f a ptr prio (ahead f prio ms) (behind f prio ms), ms = []))"
proof -
  note r = mq_repD [OF rep]
  let ?new = "(mf_msg f a)\<lparr>msg_prio := prio, msg_len := length ptr,
                msg_data := ptr @ drop (length ptr) (msg_data (mf_msg f a))\<rparr>"
  let ?c = "(mf_msg f)(a := ?new)"
  have a: "a \<notin> set ms" "mqh_free (mf_hdr f) = a" "0 < a" using r(2,3) by auto
  have "chain (mq_next ?c) (ix (mqh_head (mf_hdr f))) ms" using r(1) a(1) by simp
  note find = mq_find_place_chain [OF this, of prio None]
  have "takeWhile (\<lambda>x. prio \<le> msg_prio (?c x)) ms = ahead f prio ms"
    "dropWhile (\<lambda>x. prio \<le> msg_prio (?c x)) ms = behind f prio ms"
    using a(1) by (auto intro!: takeWhile_cong dropWhile_cong)
  with find have "mq_find_place ?c prio None (mqh_head (mf_hdr f)) =
      Some (if ahead f prio ms = [] then None else Some (last (ahead f prio ms)), first_index (behind f prio ms))"
    by (simp add: Let_def)
  with a(2,3) r(8) show ?thesis
    by (simp add: mq_send_put_def Let_def put_file_def put_slot_def set_prev_next_def)
qed

lemma put_file_slots:
  assumes "a \<notin> set bs"
  shows "msg_prio (mf_msg (put_file f a ptr prio bs ds) x) = (if x = a then prio else msg_prio (mf_msg f x))"
    "msg_len (mf_msg (put_file f a ptr prio bs ds) x) = (if x = a then length ptr else msg_len (mf_msg f x))"
    "msg_data (mf_msg (put_file f a ptr prio bs ds) x) =
       (if x = a then ptr @ drop (length ptr) (msg_data (mf_msg f a)) else msg_data (mf_msg f x))"
  using assms last_in_set [of bs]
  by (auto simp: put_file_def put_slot_def set_curmsgs_def set_prev_next_def split: option.splits)

lemma put_file_header: "same_header f (put_file f a ptr prio bs ds)"
  "mq_curmsgs (mqh_attr (mf_hdr (put_file f a ptr prio bs ds))) = mq_curmsgs (mqh_attr (mf_hdr f)) + 1"
  "mqh_free (mf_hdr (put_file f a ptr prio bs ds)) = msg_next (mf_msg f a)"
  "mqh_head (mf_hdr (put_file f a ptr prio bs ds)) = (if bs = [] then a else mqh_head (mf_hdr f))"
  by (auto simp: put_file_def same_header_def set_curmsgs_def set_prev_next_def split: option.splits)

lemma put_file_links:
  "mq_next (mf_msg (put_file f a ptr prio bs ds)) =
     (if bs = [] then (mq_next (mf_msg f))(a := ix (first_index ds))
      else (mq_next (mf_msg f))(a := ix (first_index ds), last bs := ix a))"
  by (auto simp: put_file_def put_slot_def set_curmsgs_def set_prev_next_def)

lemma put_file_chains:
  assumes rep: "mq_rep hs f ms (a # fs)" and ms: "ms = bs @ ds"
  shows "chain (mq_next (mf_msg (put_file f a ptr prio bs ds)))
      (ix (mqh_head (mf_hdr (put_file f a ptr prio bs ds)))) (bs @ a # ds)"
    "chain (mq_next (mf_msg (put_file f a ptr prio bs ds)))
      (ix (mqh_free (mf_hdr (put_file f a ptr prio bs ds)))) fs"
proof -
  note r = mq_repD [OF rep]
  have d: "a \<notin> set bs" "a \<notin> set ds" "distinct (bs @ ds)" "a \<notin> set fs" and pos: "0 < a"
    using r(2,3) ms by auto
  have dpos: "ix (first_index ds) = cut_ptr ds"
    by (rule first_index_ix) (use chain_pos [OF r(1)] ms in auto)
  note link = link_between [OF r(1) [unfolded ms] d(1,2,3)]
  show "chain (mq_next (mf_msg (put_file f a ptr prio bs ds)))
      (ix (mqh_head (mf_hdr (put_file f a ptr prio bs ds)))) (bs @ a # ds)"
  proof (cases bs rule: rev_cases)
    case Nil
    with link(1) pos show ?thesis by (simp add: put_file_links put_file_header dpos)
  next
    case (snoc xs b)
    with link(2) [OF snoc] pos show ?thesis by (simp add: put_file_links put_file_header dpos)
  qed
  have "last bs \<notin> set fs" if "bs \<noteq> []" using last_in_set [OF that] r(3) ms by auto
  moreover have "chain (mq_next (mf_msg f)) (ix (msg_next (mf_msg f a))) fs"
    using r(2) by (simp add: mq_next_def [of "mf_msg f" a])
  ultimately show "chain (mq_next (mf_msg (put_file f a ptr prio bs ds)))
      (ix (mqh_free (mf_hdr (put_file f a ptr prio bs ds)))) fs"
    using d(4) by (simp add: put_file_links put_file_header)
qed

lemma takeWhile_map_message:
  "takeWhile (\<lambda>x. p \<le> fst x) (map (message c) ms) = map (message c) (takeWhile (\<lambda>a. p \<le> msg_prio (c a)) ms)"
  "dropWhile (\<lambda>x. p \<le> fst x) (map (message c) ms) = map (message c) (dropWhile (\<lambda>a. p \<le> msg_prio (c a)) ms)"
  by (induction ms) (auto simp: message_def)

lemma mq_send_put_rep:
  assumes rep: "mq_rep hs f ms (a # fs)" and len: "length ptr \<le> nat (mq_msgsize (mqh_attr (mf_hdr f)))"
  shows "\<exists>f' ms'. mq_send_put f ptr prio = Some (MqDone (f', ms = [])) \<and> mq_rep hs f' ms' fs \<and>
    mq_contents f' ms' = enqueue (prio, ptr) (mq_contents f ms) \<and> same_header f f'"
proof -
  note r = mq_repD [OF rep]
  let ?b = "ahead f prio ms" and ?d = "behind f prio ms"
  let ?f = "put_file f a ptr prio ?b ?d" and ?ms = "?b @ a # ?d"
  have ms: "ms = ?b @ ?d" by simp
  have a: "a \<notin> set ms" using r(3) by auto
  then have ab: "a \<notin> set ?b" by (auto dest: set_takeWhileD)
  note slots = put_file_slots [OF ab]
  note hd = put_file_header [of f a ptr prio ?b ?d, unfolded same_header_def]
  have "set ?b \<union> set ?d = set ms" by (metis set_append takeWhile_dropWhile_id)
  then have mem: "set ?ms = insert a (set ms)" by auto
  have dist: "distinct (?ms @ fs)"
  proof -
    have "mset ?b + mset ?d = mset ms" by (metis mset_append takeWhile_dropWhile_id)
    then have "mset (?ms @ fs) = mset (ms @ a # fs)" by simp
    then show ?thesis using r(3) mset_eq_imp_distinct_iff by blast
  qed
  have sorted: "sorted_wrt (\<lambda>x y. msg_prio (mf_msg ?f y) \<le> msg_prio (mf_msg ?f x)) ?ms"
    by (rule sorted_insert [OF r(9) a]) (simp_all add: slots)
  have "length ?b + length ?d = length ms" by (metis length_append takeWhile_dropWhile_id)
  then have length: "length ?ms = Suc (length ms)" by simp
  have lens: "\<forall>m\<in>set ?ms. msg_len (mf_msg ?f m) \<le> nat (mq_msgsize (mqh_attr (mf_hdr f))) \<and>
      msg_len (mf_msg ?f m) \<le> length (msg_data (mf_msg ?f m))"
    unfolding mem using r(10,11) len by (simp add: slots)
  have all: "set (?ms @ fs) = set (ms @ a # fs)" using mem by auto
  have "mq_rep hs ?f ?ms fs"
  proof (rule mq_repI)
    show "set (?ms @ fs) = slot hs (nat (mq_msgsize (mqh_attr (mf_hdr ?f)))) ` {..<nat (mq_maxmsg (mqh_attr (mf_hdr ?f)))}"
      using r(7) hd(1) all by simp
    show "mq_curmsgs (mqh_attr (mf_hdr ?f)) = int (length ?ms)" using hd(2) r(8) length by simp
    show "msg_len (mf_msg ?f m) \<le> nat (mq_msgsize (mqh_attr (mf_hdr ?f)))"
      "msg_len (mf_msg ?f m) \<le> length (msg_data (mf_msg ?f m))" if "m \<in> set ?ms" for m
      using lens that hd(1) by auto
    show "0 < mq_maxmsg (mqh_attr (mf_hdr ?f))" "0 < mq_msgsize (mqh_attr (mf_hdr ?f))"
      using r(5,6) hd(1) by auto
  qed (rule put_file_chains [OF rep ms] dist r(4) sorted)+
  moreover have "mq_contents ?f ?ms = enqueue (prio, ptr) (mq_contents f ms)"
  proof -
    have old: "message (mf_msg ?f) x = message (mf_msg f) x" if "x \<in> set ms" for x
      using that a by (auto simp: message_def slots)
    have "map (message (mf_msg ?f)) ?b = map (message (mf_msg f)) ?b"
      by (rule map_cong [OF refl]) (metis old set_takeWhileD)
    moreover have "map (message (mf_msg ?f)) ?d = map (message (mf_msg f)) ?d"
      by (rule map_cong [OF refl]) (metis old set_dropWhileD)
    moreover have "message (mf_msg ?f) a = (prio, ptr)" by (simp add: message_def slots)
    ultimately show ?thesis by (simp add: mq_contents_def enqueue_def takeWhile_map_message)
  qed
  ultimately show ?thesis using mq_send_put_eq [OF rep] put_file_header(1) by blast
qed

section \<open>Receiving takes the first message\<close>

lemma mq_receive_get_rep:
  assumes rep: "mq_rep hs f (m # ms) fs"
  shows "\<exists>f'. mq_receive_get f = MqDone (f', mq_curmsgs (mqh_attr (mf_hdr f)) = mq_maxmsg (mqh_attr (mf_hdr f)),
      snd (message (mf_msg f) m), fst (message (mf_msg f) m)) \<and>
    mq_rep hs f' ms (m # fs) \<and> mq_contents f' ms = mq_contents f ms \<and> same_header f f'"
proof -
  note r = mq_repD [OF rep]
  have m: "mqh_head (mf_hdr f) = m" "0 < m" "m \<notin> set ms" "m \<notin> set fs" using r(1,3) by auto
  let ?c = "(mf_msg f)(m := (mf_msg f m)\<lparr>msg_next := mqh_free (mf_hdr f)\<rparr>)"
  let ?f = "set_curmsgs (mq_curmsgs (mqh_attr (mf_hdr f)) - 1) (f\<lparr>mf_msg := ?c,
      mf_hdr := (mf_hdr f)\<lparr>mqh_head := msg_next (mf_msg f m), mqh_free := m\<rparr>\<rparr>)"
  have get: "mq_receive_get f = MqDone (?f, mq_curmsgs (mqh_attr (mf_hdr f)) = mq_maxmsg (mqh_attr (mf_hdr f)),
      snd (message (mf_msg f) m), fst (message (mf_msg f) m))"
    using m by (simp add: mq_receive_get_def Let_def message_def set_curmsgs_def)
  have upd: "mf_msg ?f = ?c" "mqh_head (mf_hdr ?f) = msg_next (mf_msg f m)" "mqh_free (mf_hdr ?f) = m"
    "mq_curmsgs (mqh_attr (mf_hdr ?f)) = mq_curmsgs (mqh_attr (mf_hdr f)) - 1"
    by (simp_all add: set_curmsgs_def)
  have same: "same_header f ?f" by (simp add: same_header_def set_curmsgs_def)
  have "chain (mq_next ?c) (ix (msg_next (mf_msg f m))) ms"
    using r(1) m(3) by (simp add: mq_next_def [of "mf_msg f" m])
  moreover have "chain (mq_next ?c) (ix m) (m # fs)" using r(2) m(2,4) by simp
  moreover have "sorted_wrt (\<lambda>x y. msg_prio (?c y) \<le> msg_prio (?c x)) ms"
    by (rule sorted_wrt_mono_rel [of ms "\<lambda>x y. msg_prio (mf_msg f y) \<le> msg_prio (mf_msg f x)"])
      (use r(9) in auto)
  moreover have "\<forall>x\<in>set ms. msg_len (?c x) \<le> nat (mq_msgsize (mqh_attr (mf_hdr f))) \<and>
      msg_len (?c x) \<le> length (msg_data (?c x))" using r(10,11) by simp
  ultimately have "mq_rep hs ?f ms (m # fs)"
    unfolding mq_rep_def Let_def upd
    using r(3-8) same by (simp add: same_header_def insert_commute)
  moreover have "mq_contents ?f ms = mq_contents f ms"
    using m(3) by (auto simp: mq_contents_def upd(1) message_def)
  ultimately show ?thesis using get same by blast
qed

section \<open>A new queue is empty and well formed\<close>

lemma mq_init_links_chain:
  assumes "0 < w" "0 < index" "mq_init_links n index w c = (c', e)"
  shows "e = index + n * w \<and> (\<forall>b<index. c' b = c b) \<and>
    chain (mq_next (c'(e := (c' e)\<lparr>msg_next := 0\<rparr>))) (ix index) (map (\<lambda>k. index + k * w) [0..<Suc n])"
  using assms
proof (induction n arbitrary: index c)
  case 0
  then show ?case by (auto simp: mq_next_def)
next
  case (Suc n)
  let ?c = "c(index := (c index)\<lparr>msg_next := index + w\<rparr>)"
  have pre: "0 < index + w" "mq_init_links n (index + w) w ?c = (c', e)" using Suc.prems by simp_all
  from Suc.IH [OF Suc.prems(1) pre]
  have IH: "e = (index + w) + n * w" "\<forall>b<index + w. c' b = ?c b"
    "chain (mq_next (c'(e := (c' e)\<lparr>msg_next := 0\<rparr>))) (ix (index + w)) (map (\<lambda>k. (index + w) + k * w) [0..<Suc n])"
    by blast+
  have "c' index = ?c index" "index < e" using IH(1,2) Suc.prems(1) by auto
  then have "mq_next (c'(e := (c' e)\<lparr>msg_next := 0\<rparr>)) index = ix (index + w)" by (simp add: mq_next_def)
  moreover have "map (\<lambda>k. index + k * w) [0..<Suc (Suc n)] = index # map (\<lambda>k. (index + w) + k * w) [0..<Suc n]"
    by (simp add: upt_conv_Cons map_Suc_upt [symmetric] del: upt_Suc)
  ultimately have "chain (mq_next (c'(e := (c' e)\<lparr>msg_next := 0\<rparr>))) (ix index) (map (\<lambda>k. index + k * w) [0..<Suc (Suc n)])"
    using IH(3) Suc.prems(2) by (metis chain.simps(2) ix_simps(2))
  moreover have "e = index + Suc n * w" "\<forall>b<index. c' b = c b" using IH(1,2) by simp_all
  ultimately show ?case by blast
qed

lemma mq_init_rep:
  assumes "0 < hs" "0 < mq_maxmsg attr" "0 < mq_msgsize attr"
  shows "mq_rep hs (mq_init hs attr) []
    (map (slot hs (nat (mq_msgsize attr))) [0..<nat (mq_maxmsg attr)])"
proof -
  let ?w = "SIZEOF_MSGHDR + MSGSIZE (nat (mq_msgsize attr))"
  let ?z = "\<lparr>msg_next = 0, msg_len = 0, msg_prio = 0, msg_data = replicate (MSGSIZE (nat (mq_msgsize attr))) 0\<rparr>"
  obtain c e where init: "mq_init_links (nat (mq_maxmsg attr - 1)) hs ?w (\<lambda>_. ?z) = (c, e)"
    by (cases "mq_init_links (nat (mq_maxmsg attr - 1)) hs ?w (\<lambda>_. ?z)")
  have w: "0 < ?w" by (simp add: SIZEOF_MSGHDR_def)
  have n: "Suc (nat (mq_maxmsg attr - 1)) = nat (mq_maxmsg attr)" using assms(2) by simp
  have "chain (mq_next (c(e := (c e)\<lparr>msg_next := 0\<rparr>))) (ix hs) (map (slot hs (nat (mq_msgsize attr))) [0..<nat (mq_maxmsg attr)])"
    using mq_init_links_chain [OF w assms(1) init] unfolding n slot_def [abs_def] by blast
  moreover have "inj_on (slot hs (nat (mq_msgsize attr))) A" for A
    by (auto simp: inj_on_def slot_def SIZEOF_MSGHDR_def)
  ultimately show ?thesis
    using assms init by (auto simp: mq_rep_def mq_init_def Let_def distinct_map atLeast0LessThan)
qed

section \<open>The contract\<close>

lemma mq_rep_full:
  assumes "mq_rep hs f ms fs"
  shows "length ms + length fs = nat (mq_maxmsg (mqh_attr (mf_hdr f)))"
    "fs = [] \<longleftrightarrow> mq_curmsgs (mqh_attr (mf_hdr f)) \<ge> mq_maxmsg (mqh_attr (mf_hdr f))"
proof -
  note r = mq_repD [OF assms]
  have inj: "inj_on (slot hs n) A" for n A
    by (auto simp: inj_on_def slot_def SIZEOF_MSGHDR_def)
  have "card (set (ms @ fs)) = length (ms @ fs)" using distinct_card [OF r(3)] .
  also have "card (set (ms @ fs)) = nat (mq_maxmsg (mqh_attr (mf_hdr f)))"
    unfolding r(7) by (simp add: card_image [OF inj])
  finally show *: "length ms + length fs = nat (mq_maxmsg (mqh_attr (mf_hdr f)))" by simp
  with r(5,8) show "fs = [] \<longleftrightarrow> mq_curmsgs (mqh_attr (mf_hdr f)) \<ge> mq_maxmsg (mqh_attr (mf_hdr f))"
    by (cases fs) auto
qed

text \<open>A change of the header fields that the lists do not use.\<close>

lemma mq_rep_header:
  "mq_rep hs (f\<lparr>mf_hdr := (mf_hdr f)\<lparr>mqh_pid := p\<rparr>\<rparr>) ms fs = mq_rep hs f ms fs"
  "mq_rep hs (f\<lparr>mf_hdr := (mf_hdr f)\<lparr>mqh_pid := p, mqh_event := e\<rparr>\<rparr>) ms fs = mq_rep hs f ms fs"
  "mq_rep hs (f\<lparr>mf_hdr := (mf_hdr f)\<lparr>mqh_nwait := n\<rparr>\<rparr>) ms fs = mq_rep hs f ms fs"
  by (simp_all add: mq_rep_def Let_def)

lemma mq_send_notify_rep:
  assumes "mq_send_notify f = (g, sigs)"
  shows "mq_rep hs g ms fs = mq_rep hs f ms fs" "mq_contents g ms = mq_contents f ms"
    "mqh_attr (mf_hdr g) = mqh_attr (mf_hdr f)" "mqh_nwait (mf_hdr g) = mqh_nwait (mf_hdr f)"
  using assms by (auto simp: mq_send_notify_def Let_def mq_rep_header mq_contents_def split: if_splits)

text \<open>
  C3. \<open>mymq_send\<close> on a well-formed queue never reaches \<open>err_dump\<close> and never loops: it fails with
  \<open>EMSGSIZE\<close> exactly when the message is too long, otherwise, when the queue is full, it fails with
  \<open>EAGAIN\<close> or waits, and otherwise it inserts the message behind all messages of the same or higher
  priority and before the others, keeping the file well formed; the condition variable is
  signalled exactly when the queue was empty.
\<close>

theorem mymq_send_correct:
  assumes rep: "mq_rep hs f ms fs" and i: "mqi_magic i = MQI_MAGIC"
  shows "if int (length ptr) > mq_msgsize (mqh_attr (mf_hdr f)) then mymq_send 0 i f ptr prio = Some (MqErr EMSGSIZE)
    else if fs = [] then mymq_send 0 i f ptr prio = Some (if mq_nonblock i then MqErr EAGAIN else MqWait)
    else \<exists>f' sigs ms' fs'. mymq_send 0 i f ptr prio = Some (MqDone (f', ms = [], sigs)) \<and> mq_rep hs f' ms' fs' \<and>
      mq_contents f' ms' = enqueue (prio, ptr) (mq_contents f ms) \<and> mqh_nwait (mf_hdr f') = mqh_nwait (mf_hdr f)"
proof (cases "int (length ptr) > mq_msgsize (mqh_attr (mf_hdr f))")
  case True
  with i show ?thesis by (simp add: mymq_send_def Let_def)
next
  case short: False
  note r = mq_repD [OF rep]
  show ?thesis
  proof (cases fs)
    case Nil
    then have "mq_curmsgs (mqh_attr (mf_hdr f)) \<ge> mq_maxmsg (mqh_attr (mf_hdr f))"
      using mq_rep_full(2) [OF rep] by simp
    with Nil short i r(5) show ?thesis by (simp add: mymq_send_def Let_def)
  next
    case (Cons a fs')
    have room: "\<not> mq_curmsgs (mqh_attr (mf_hdr f)) \<ge> mq_maxmsg (mqh_attr (mf_hdr f))"
      using mq_rep_full(2) [OF rep] Cons by simp
    obtain g sigs where g: "(if mq_curmsgs (mqh_attr (mf_hdr f)) = 0 then mq_send_notify f else (f, [])) = (g, sigs)"
      by (cases "if mq_curmsgs (mqh_attr (mf_hdr f)) = 0 then mq_send_notify f else (f, [])")
    then have gf: "mq_rep hs g ms fs" "mq_contents g ms = mq_contents f ms"
      "mqh_attr (mf_hdr g) = mqh_attr (mf_hdr f)" "mqh_nwait (mf_hdr g) = mqh_nwait (mf_hdr f)"
      using rep mq_send_notify_rep [of f g sigs] by (auto split: if_splits)
    have len: "length ptr \<le> nat (mq_msgsize (mqh_attr (mf_hdr g)))" using short gf(3) by simp
    from mq_send_put_rep [OF gf(1) [unfolded Cons] len, of prio] obtain f' ms' where
      put: "mq_send_put g ptr prio = Some (MqDone (f', ms = []))" "mq_rep hs f' ms' fs'"
        "mq_contents f' ms' = enqueue (prio, ptr) (mq_contents g ms)" "same_header g f'" by blast
    have "mymq_send 0 i f ptr prio = Some (MqDone (f', ms = [], sigs))"
      using short room i g put(1) by (simp add: mymq_send_def Let_def)
    with put gf Cons short show ?thesis by (auto simp: same_header_def)
  qed
qed

text \<open>A queue of two messages of at most eight bytes, and an open descriptor.\<close>

definition attr2 :: mymq_attr where
  "attr2 = \<lparr>mq_flags = 0, mq_maxmsg = 2, mq_msgsize = 8, mq_curmsgs = 0\<rparr>"

definition info0 :: mymq_info where
  "info0 = \<lparr>mqi_magic = MQI_MAGIC, mqi_flags = 0\<rparr>"

lemma attr2_rep: "mq_rep 100 (mq_init 100 attr2) [] [100, 132]"
proof -
  have "[0..<2] = [0, 1::nat]" by (simp add: upt_rec)
  then show ?thesis
    using mq_init_rep [of 100 attr2] by (simp add: attr2_def slot_def SIZEOF_MSGHDR_def MSGSIZE_def SIZEOF_LONG_def)
qed

lemma attr2_header: "mqh_attr (mf_hdr (mq_init 100 attr2)) = attr2"
  by (simp add: mq_init_def attr2_def Let_def split: prod.splits)

lemma attr2_msgsize: "mq_msgsize attr2 = 8"
  by (simp add: attr2_def)

lemma mq_contents_Nil: "mq_contents f [] = []"
  by (simp add: mq_contents_def)

theorem mymq_send_correct_witness:
  "\<exists>f' sigs ms' fs'. mymq_send 0 info0 (mq_init 100 attr2) [1, 2] 5 = Some (MqDone (f', True, sigs)) \<and>
     mq_rep 100 f' ms' fs' \<and> mq_contents f' ms' = [(5, [1, 2])]"
proof -
  have "mq_msgsize (mqh_attr (mf_hdr (mq_init 100 attr2))) = 8" by (simp add: attr2_header attr2_msgsize)
  with mymq_send_correct [OF attr2_rep, of info0 "[1, 2]" 5] obtain f' sigs ms' fs' where
    "mymq_send 0 info0 (mq_init 100 attr2) [1, 2] 5 = Some (MqDone (f', True, sigs))" "mq_rep 100 f' ms' fs'"
    "mq_contents f' ms' = [(5, [1, 2])]"
    by (auto simp: info0_def mq_contents_Nil enqueue_def)
  then show ?thesis by blast
qed

text \<open>
  C21. \<open>mymq_receive\<close> on a well-formed queue never reaches \<open>err_dump\<close>: it fails with
  \<open>EMSGSIZE\<close> when the buffer is smaller than the queue's message size, on an empty queue it fails
  with \<open>EAGAIN\<close> or waits, and otherwise it returns the first message, which fits the buffer, and
  leaves the others in a well-formed file; the condition variable is signalled exactly when the
  queue was full.
\<close>

theorem mymq_receive_correct:
  assumes rep: "mq_rep hs f ms fs" and i: "mqi_magic i = MQI_MAGIC"
  shows "if int maxlen < mq_msgsize (mqh_attr (mf_hdr f)) then mymq_receive 0 i f maxlen = MqErr EMSGSIZE
    else if ms = [] then mymq_receive 0 i f maxlen = (if mq_nonblock i then MqErr EAGAIN else MqWait)
    else \<exists>f' dat prio ms' fs'. mymq_receive 0 i f maxlen = MqDone (f', fs = [], dat, prio) \<and> mq_rep hs f' ms' fs' \<and>
      mq_contents f ms = (prio, dat) # mq_contents f' ms' \<and> length dat \<le> maxlen"
proof (cases "int maxlen < mq_msgsize (mqh_attr (mf_hdr f))")
  case True
  with i show ?thesis by (simp add: mymq_receive_def)
next
  case big: False
  note r = mq_repD [OF rep]
  show ?thesis
  proof (cases ms)
    case Nil
    with big i r(8) show ?thesis by (simp add: mymq_receive_def)
  next
    case (Cons m ms')
    from mq_receive_get_rep [OF rep [unfolded Cons]] obtain f' where
      f': "mq_receive_get f = MqDone (f', mq_curmsgs (mqh_attr (mf_hdr f)) = mq_maxmsg (mqh_attr (mf_hdr f)),
          snd (message (mf_msg f) m), fst (message (mf_msg f) m))"
        "mq_rep hs f' ms' (m # fs)" "mq_contents f' ms' = mq_contents f ms'" by blast
    have full: "mq_curmsgs (mqh_attr (mf_hdr f)) = mq_maxmsg (mqh_attr (mf_hdr f)) \<longleftrightarrow> fs = []"
      using mq_rep_full [OF rep] r(5,8) by auto
    have "length (snd (message (mf_msg f) m)) \<le> maxlen"
      using r(10,11) [of m] Cons big by (simp add: message_def)
    moreover have "mymq_receive 0 i f maxlen =
        MqDone (f', fs = [], snd (message (mf_msg f) m), fst (message (mf_msg f) m))"
      using big i Cons r(8) f'(1) full by (simp add: mymq_receive_def)
    moreover have "mq_contents f ms = (fst (message (mf_msg f) m), snd (message (mf_msg f) m)) # mq_contents f' ms'"
      using Cons f'(3) by (simp add: mq_contents_def)
    ultimately show ?thesis using big Cons f'(2) by (metis list.distinct(1))
  qed
qed

theorem mymq_receive_correct_witness:
  "\<exists>f ms fs f' dat prio ms' fs'. mq_rep 100 f ms fs \<and>
     mymq_receive 0 info0 f 8 = MqDone (f', fs = [], dat, prio) \<and> mq_rep 100 f' ms' fs' \<and>
     mq_contents f ms = (prio, dat) # mq_contents f' ms' \<and> length dat \<le> 8"
proof -
  have "\<exists>f ms. mq_send_put (mq_init 100 attr2) [1, 2] 5 = Some (MqDone (f, True)) \<and> mq_rep 100 f ms [132] \<and>
      mq_contents f ms = [(5, [1, 2])] \<and> same_header (mq_init 100 attr2) f"
    using mq_send_put_rep [OF attr2_rep, of "[1, 2]" 5]
    by (simp add: attr2_header attr2_msgsize mq_contents_Nil enqueue_def)
  then obtain f ms where f: "mq_rep 100 f ms [132]" "mq_contents f ms = [(5, [1, 2])]"
    "same_header (mq_init 100 attr2) f" by blast
  have "mq_msgsize (mqh_attr (mf_hdr f)) = 8" using f(3) attr2_header by (simp add: same_header_def attr2_def)
  moreover have "ms \<noteq> []" using f(2) by (auto simp: mq_contents_def)
  ultimately show ?thesis using mymq_receive_correct [OF f(1), of info0 8] f(1) by (force simp: info0_def)
qed

lemma MSGSIZE_ge: "n \<le> MSGSIZE n"
  unfolding MSGSIZE_def SIZEOF_LONG_def by simp



section \<open>The priority queue contract\<close>

text \<open>The queued messages, read by following the list from its head.\<close>

fun mq_walk :: "(nat \<Rightarrow> mymsg_hdr) \<Rightarrow> nat \<Rightarrow> nat \<Rightarrow> (32 word \<times> bytes) list" where
  "mq_walk c 0 index = []"
| "mq_walk c (Suc n) index =
     (if index = 0 then [] else message c index # mq_walk c n (msg_next (c index)))"

definition mq_elems :: "mq_file \<Rightarrow> (32 word \<times> bytes) list" where
  "mq_elems f = mq_walk (mf_msg f) (nat (mq_curmsgs (mqh_attr (mf_hdr f)))) (mqh_head (mf_hdr f))"

definition mq_inv :: "mq_file \<Rightarrow> bool" where
  "mq_inv f \<longleftrightarrow> (\<exists>hs ms fs. mq_rep hs f ms fs)"

definition mq_room :: "32 word \<times> bytes \<Rightarrow> mq_file \<Rightarrow> bool" where
  "mq_room m f \<longleftrightarrow> int (length (snd m)) \<le> mq_msgsize (mqh_attr (mf_hdr f)) \<and>
     mq_curmsgs (mqh_attr (mf_hdr f)) < mq_maxmsg (mqh_attr (mf_hdr f))"

definition mq_put :: "32 word \<times> bytes \<Rightarrow> mq_file \<Rightarrow> mq_file" where
  "mq_put m f = (case mq_send_put f (snd m) (fst m) of Some (MqDone (f', _)) \<Rightarrow> f' | _ \<Rightarrow> f)"

definition mq_take :: "mq_file \<Rightarrow> ((32 word \<times> bytes) \<times> mq_file) option" where
  "mq_take f = (case mq_receive_get f of MqDone (f', _, dat, prio) \<Rightarrow> Some ((prio, dat), f') | _ \<Rightarrow> None)"

lemma mq_walk_chain: "chain (mq_next c) (ix n) as \<Longrightarrow> mq_walk c (length as) n = map (message c) as"
proof (induction as arbitrary: n)
  case Nil
  then show ?case by simp
next
  case (Cons a as)
  then have "n = a" "0 < a" "chain (mq_next c) (ix (msg_next (c a))) as"
    by (auto simp: mq_next_def [of c a])
  with Cons.IH show ?case by simp
qed

lemma mq_elems_rep: "mq_rep hs f ms fs \<Longrightarrow> mq_elems f = mq_contents f ms"
  using mq_repD(1,8) [of hs f ms fs] mq_walk_chain by (simp add: mq_elems_def mq_contents_def)

interpretation mq: ordered_queue enqueue mq_inv mq_elems mq_room mq_put mq_take
proof unfold_locales
  fix f m
  assume inv: "mq_inv f" and room: "mq_room m f"
  obtain hs ms fs where rep: "mq_rep hs f ms fs" using inv by (auto simp: mq_inv_def)
  with room mq_rep_full(2) [OF rep] obtain a fs' where fs: "fs = a # fs'"
    by (cases fs) (auto simp: mq_room_def)
  have "length (snd m) \<le> nat (mq_msgsize (mqh_attr (mf_hdr f)))" using room unfolding mq_room_def by linarith
  from mq_send_put_rep [OF rep [unfolded fs] this, of "fst m"] obtain f' ms' where
    put: "mq_send_put f (snd m) (fst m) = Some (MqDone (f', ms = []))" "mq_rep hs f' ms' fs'"
      "mq_contents f' ms' = enqueue m (mq_contents f ms)" by auto
  then show "mq_inv (mq_put m f)" "mq_elems (mq_put m f) = enqueue m (mq_elems f)"
    using mq_elems_rep [OF rep] mq_elems_rep [OF put(2)] by (auto simp: mq_put_def mq_inv_def)
next
  fix f
  assume "mq_inv f" "mq_elems f = []"
  then obtain hs ms fs where rep: "mq_rep hs f ms fs" "mq_contents f ms = []"
    by (auto simp: mq_inv_def mq_elems_rep)
  then have "mqh_head (mf_hdr f) = 0" using mq_repD(1) [OF rep(1)] by (simp add: mq_contents_def)
  then show "mq_take f = None" by (simp add: mq_take_def mq_receive_get_def)
next
  fix f m q
  assume "mq_inv f" "mq_elems f = m # q"
  then obtain hs ms fs where rep: "mq_rep hs f ms fs" "mq_contents f ms = m # q"
    by (auto simp: mq_inv_def mq_elems_rep)
  then obtain a ms' where ms: "ms = a # ms'" "message (mf_msg f) a = m" "mq_contents f ms' = q"
    by (auto simp: mq_contents_def)
  from mq_receive_get_rep [OF rep(1) [unfolded ms(1)]] ms obtain f' sg where
    get: "mq_receive_get f = MqDone (f', sg, snd m, fst m)" "mq_rep hs f' ms' (a # fs)"
      "mq_contents f' ms' = q" by auto
  then show "\<exists>f'. mq_take f = Some (m, f') \<and> mq_inv f' \<and> mq_elems f' = q"
    using mq_elems_rep [OF get(2)] by (auto simp: mq_take_def mq_inv_def)
qed

text \<open>
  Draining a well-formed queue with \<open>mymq_receive\<close> yields all its messages, in the order of
  the queue, and leaves a well-formed file.
\<close>

theorem mq_drain:
  assumes "mq_inv f" "n \<le> length (mq_elems f)"
  shows "\<exists>g. mq.drain n f = Some (take n (mq_elems f), g) \<and> mq_inv g \<and> mq_elems g = drop n (mq_elems f)"
  by (rule mq.drain_order [OF assms])

theorem mq_drain_witness:
  "\<exists>g. mq.drain 1 (mq_put (5, [1, 2]) (mq_init 100 attr2)) = Some ([(5, [1, 2])], g) \<and> mq_inv g \<and> mq_elems g = []"
proof -
  have inv: "mq_inv (mq_init 100 attr2)" using attr2_rep by (auto simp: mq_inv_def)
  have room: "mq_room (5, [1, 2]) (mq_init 100 attr2)" by (simp add: mq_room_def attr2_header) (simp add: attr2_def)
  have "mq_elems (mq_put (5, [1, 2]) (mq_init 100 attr2)) = [(5, [1, 2])]"
    using mq.put_elems [OF inv room] mq_elems_rep [OF attr2_rep] by (simp add: mq_contents_def enqueue_def)
  with mq_drain [OF mq.put_inv [OF inv room], of 1] show ?thesis by simp
qed

section \<open>Notification and attributes\<close>

text \<open>
  A process that registers with \<open>mymq_notify\<close> on an empty queue that nobody waits on gets its
  signal, with its value, from the next message sent, and the same send unregisters it.
\<close>

theorem mymq_notify_delivers:
  assumes rep: "mq_rep hs f [] fs" and i: "mqi_magic i = MQI_MAGIC" and nw: "mqh_nwait (mf_hdr f) = 0"
    and pid: "pid \<noteq> 0" and reg: "mymq_notify 0 kill0 pid i f (Some ev) = Inr g"
    and ev: "sigev_notify ev = SIGEV_SIGNAL"
    and len: "int (length ptr) \<le> mq_msgsize (mqh_attr (mf_hdr f))"
  shows "\<exists>f'. mymq_send 0 i g ptr prio = Some (MqDone (f', True, [(pid, sigev_signo ev, sigev_value ev)])) \<and>
    mqh_pid (mf_hdr f') = 0"
proof -
  have g: "g = f\<lparr>mf_hdr := (mf_hdr f)\<lparr>mqh_pid := pid, mqh_event := ev\<rparr>\<rparr>"
    using reg i by (auto simp: mymq_notify_def Let_def split: if_splits)
  let ?h = "f\<lparr>mf_hdr := (mf_hdr f)\<lparr>mqh_pid := 0, mqh_event := ev\<rparr>\<rparr>"
  have ntf: "mq_send_notify g = (?h, [(pid, sigev_signo ev, sigev_value ev)])"
    using nw pid ev by (simp add: mq_send_notify_def g)
  have rep': "mq_rep hs ?h [] fs" using rep by (simp add: mq_rep_header)
  note r = mq_repD(5,8) [OF rep]
  obtain a fs' where fs: "fs = a # fs'" using mq_rep_full(2) [OF rep] r by (cases fs) auto
  have "length ptr \<le> nat (mq_msgsize (mqh_attr (mf_hdr ?h)))" using len by simp
  from mq_send_put_rep [OF rep' [unfolded fs] this, of prio] obtain f' where
    put: "mq_send_put ?h ptr prio = Some (MqDone (f', True))" "same_header ?h f'" by auto
  have "mymq_send 0 i g ptr prio = Some (MqDone (f', True, [(pid, sigev_signo ev, sigev_value ev)]))"
    using i len r ntf put(1) by (simp add: mymq_send_def g)
  with put(2) show ?thesis by (simp add: same_header_def)
qed

theorem mymq_notify_delivers_witness:
  "\<exists>g f'. mymq_notify 0 (\<lambda>_. 0) 77 info0 (mq_init 100 attr2) (Some \<lparr>sigev_notify = 0, sigev_signo = 10, sigev_value = 4\<rparr>) = Inr g \<and>
     mymq_send 0 info0 g [1] 0 = Some (MqDone (f', True, [(77, 10, 4)])) \<and> mqh_pid (mf_hdr f') = 0"
proof -
  let ?e = "\<lparr>sigev_notify = 0, sigev_signo = 10, sigev_value = 4\<rparr>"
  have h: "mqh_pid (mf_hdr (mq_init 100 attr2)) = 0" "mqh_nwait (mf_hdr (mq_init 100 attr2)) = 0"
    by (simp_all add: mq_init_def Let_def split: prod.splits)
  then obtain g where g: "mymq_notify 0 (\<lambda>_. 0) 77 info0 (mq_init 100 attr2) (Some ?e) = Inr g"
    by (simp add: mymq_notify_def info0_def)
  from mymq_notify_delivers [OF attr2_rep _ h(2) _ g, of "[1]" 0] g show ?thesis
    by (auto simp: info0_def SIGEV_SIGNAL_def attr2_header attr2_msgsize)
qed

text \<open>
  \<open>mymq_setattr\<close> on an open descriptor returns the attributes that \<open>mymq_getattr\<close> would have
  returned before, sets the descriptor's blocking mode to the one asked for, leaves its other flags
  and its magic number, and so does not affect the queue other processes see.
\<close>

theorem mymq_setattr_mode:
  assumes "mqi_magic i = MQI_MAGIC"
  shows "\<exists>i' old. mymq_setattr 0 i f a = Inr (i', old) \<and> mymq_getattr 0 i f = Inr old \<and>
    mqi_magic i' = MQI_MAGIC \<and> (mq_nonblock i' \<longleftrightarrow> mq_flags a AND ucast O_NONBLOCK \<noteq> 0) \<and>
    mqi_flags i' AND NOT O_NONBLOCK = mqi_flags i AND NOT O_NONBLOCK"
proof -
  have "(x OR O_NONBLOCK) AND O_NONBLOCK = O_NONBLOCK" "(x AND NOT O_NONBLOCK) AND O_NONBLOCK = 0"
    "(x OR O_NONBLOCK) AND NOT O_NONBLOCK = x AND NOT O_NONBLOCK"
    "(x AND NOT O_NONBLOCK) AND NOT O_NONBLOCK = x AND NOT O_NONBLOCK" for x :: "32 word"
    by (auto simp: bit_eq_iff bit_simps)
  moreover have "O_NONBLOCK \<noteq> 0" by (simp add: O_NONBLOCK_def)
  ultimately show ?thesis using assms by (simp add: mymq_setattr_def mymq_getattr_def mq_nonblock_def)
qed

theorem mymq_setattr_mode_witness:
  "\<exists>i' old. mymq_setattr 0 info0 (mq_init 100 attr2) (attr2\<lparr>mq_flags := 0x800\<rparr>) = Inr (i', old) \<and> mq_nonblock i'"
  using mymq_setattr_mode [of info0 "mq_init 100 attr2" "attr2\<lparr>mq_flags := 0x800\<rparr>"]
  by (auto simp: info0_def O_NONBLOCK_def)

end
