(* ===== verification/Msgqueue_System.thy ===== *)
theory Msgqueue_System
  imports Msgqueue
begin

text \<open>
  Threads that send to and receive from one message queue and wait for each other on its single
  condition variable: \<open>mymq_send\<close> of a full queue and \<open>mymq_receive\<close> of an empty one sleep until a
  signal, which the other functions give only when the queue stops being empty or full.
\<close>

section \<open>The system\<close>

text \<open>Asleep in one of the two functions, or woken and about to test the condition again.\<close>

datatype mq_pc = MIdle | MSend bytes "32 word" | MSendWoken bytes "32 word" | MRecv | MRecvWoken

record mq_sys =
  my_file :: mq_file
  my_threads :: "mq_pc list"
  my_dumped :: bool

fun mq_asleep :: "mq_pc \<Rightarrow> bool" where
  "mq_asleep (MSend m p) = True"
| "mq_asleep MRecv = True"
| "mq_asleep _ = False"

fun mq_woken :: "mq_pc \<Rightarrow> mq_pc" where
  "mq_woken (MSend m p) = MSendWoken m p"
| "mq_woken MRecv = MRecvWoken"
| "mq_woken p = p"

fun mq_receiving :: "mq_pc \<Rightarrow> bool" where
  "mq_receiving MRecv = True"
| "mq_receiving MRecvWoken = True"
| "mq_receiving _ = False"

text \<open>\<open>pthread_cond_signal\<close> on \<open>mqh_wait\<close>, if \<open>sg\<close>; \<open>w\<close> is the thread it wakes.\<close>

definition mq_signal :: "bool \<Rightarrow> nat option \<Rightarrow> mq_pc list \<Rightarrow> mq_pc list option" where
  "mq_signal sg w ts =
     (if \<not> sg then Some ts
      else case w of
        None \<Rightarrow> if (\<exists>p\<in>set ts. mq_asleep p) then None else Some ts
      | Some j \<Rightarrow> if j < length ts \<and> mq_asleep (ts ! j) then Some (ts[j := mq_woken (ts ! j)]) else None)"

datatype mq_event = SendCall nat bytes "32 word" "nat option" | RecvCall nat nat "nat option"
  | Again nat "nat option" | MqSpurious nat

text \<open>Thread \<open>i\<close> leaves the function with the file \<open>f\<close>, signalling if \<open>sg\<close>.\<close>

definition mq_finish :: "nat \<Rightarrow> nat option \<Rightarrow> mq_sys \<Rightarrow> mq_file \<Rightarrow> bool \<Rightarrow> mq_sys option" where
  "mq_finish i w s f sg =
     map_option (\<lambda>ts. s\<lparr>my_file := f, my_threads := ts\<rparr>) (mq_signal sg w ((my_threads s)[i := MIdle]))"

definition mq_exec_send :: "nat \<Rightarrow> bytes \<Rightarrow> 32 word \<Rightarrow> nat option \<Rightarrow> mq_sys \<Rightarrow> mq_sys option" where
  "mq_exec_send i ptr prio w s =
     (case mymq_send 0 info0 (my_file s) ptr prio of
        None \<Rightarrow> None
      | Some (MqErr e) \<Rightarrow> Some s
      | Some MqWait \<Rightarrow> Some (s\<lparr>my_threads := (my_threads s)[i := MSend ptr prio]\<rparr>)
      | Some MqDump \<Rightarrow> Some (s\<lparr>my_dumped := True\<rparr>)
      | Some (MqDone (f, sg, sigs)) \<Rightarrow> mq_finish i w s f sg)"

definition mq_exec_receive :: "nat \<Rightarrow> nat \<Rightarrow> nat option \<Rightarrow> mq_sys \<Rightarrow> mq_sys option" where
  "mq_exec_receive i maxlen w s =
     (case mymq_receive 0 info0 (my_file s) maxlen of
        MqErr e \<Rightarrow> Some s
      | MqWait \<Rightarrow> Some (s\<lparr>my_file := mq_add_nwait 1 (my_file s), my_threads := (my_threads s)[i := MRecv]\<rparr>)
      | MqDump \<Rightarrow> Some (s\<lparr>my_dumped := True\<rparr>)
      | MqDone (f, sg, dat, prio) \<Rightarrow> mq_finish i w s f sg)"

definition mq_exec_again :: "nat \<Rightarrow> nat option \<Rightarrow> mq_sys \<Rightarrow> mq_sys option" where
  "mq_exec_again i w s =
     (case my_threads s ! i of
        MSendWoken ptr prio \<Rightarrow>
          (case mymq_send_resume (my_file s) ptr prio of
             None \<Rightarrow> None
           | Some (MqDone (f, sg)) \<Rightarrow> mq_finish i w s f sg
           | Some MqWait \<Rightarrow> Some (s\<lparr>my_threads := (my_threads s)[i := MSend ptr prio]\<rparr>)
           | Some _ \<Rightarrow> Some (s\<lparr>my_dumped := True\<rparr>))
      | MRecvWoken \<Rightarrow>
          (case mymq_receive_resume (my_file s) of
             MqDone (f, sg, dat, prio) \<Rightarrow> mq_finish i w s f sg
           | MqWait \<Rightarrow> Some (s\<lparr>my_threads := (my_threads s)[i := MRecv]\<rparr>)
           | _ \<Rightarrow> Some (s\<lparr>my_dumped := True\<rparr>))
      | _ \<Rightarrow> None)"

fun mq_exec :: "mq_sys \<Rightarrow> mq_event \<Rightarrow> mq_sys option" where
  "mq_exec s (SendCall i ptr prio w) =
     (if i < length (my_threads s) \<and> my_threads s ! i = MIdle then mq_exec_send i ptr prio w s else None)"
| "mq_exec s (RecvCall i maxlen w) =
     (if i < length (my_threads s) \<and> my_threads s ! i = MIdle then mq_exec_receive i maxlen w s else None)"
| "mq_exec s (Again i w) = (if i < length (my_threads s) then mq_exec_again i w s else None)"
| "mq_exec s (MqSpurious i) =
     (if i < length (my_threads s) \<and> mq_asleep (my_threads s ! i)
      then Some (s\<lparr>my_threads := (my_threads s)[i := mq_woken (my_threads s ! i)]\<rparr>) else None)"

definition mq_start :: "mq_file \<Rightarrow> nat \<Rightarrow> mq_sys" where
  "mq_start f n = \<lparr>my_file = f, my_threads = replicate n MIdle, my_dumped = False\<rparr>"

section \<open>The invariant\<close>

text \<open>A sleeping thread has a reason to sleep.\<close>

definition justified :: "mq_file \<Rightarrow> mq_pc \<Rightarrow> bool" where
  "justified f p \<longleftrightarrow> (case p of
     MSend m pr \<Rightarrow> mq_curmsgs (mqh_attr (mf_hdr f)) \<ge> mq_maxmsg (mqh_attr (mf_hdr f))
   | MRecv \<Rightarrow> mq_curmsgs (mqh_attr (mf_hdr f)) = 0 | _ \<Rightarrow> True)"

text \<open>A message on its way into the queue fits.\<close>

definition fits :: "mq_file \<Rightarrow> mq_pc \<Rightarrow> bool" where
  "fits f p \<longleftrightarrow> (case p of
     MSend m pr \<Rightarrow> int (length m) \<le> mq_msgsize (mqh_attr (mf_hdr f))
   | MSendWoken m pr \<Rightarrow> int (length m) \<le> mq_msgsize (mqh_attr (mf_hdr f)) | _ \<Rightarrow> True)"

definition mq_sys_inv :: "mq_sys \<Rightarrow> bool" where
  "mq_sys_inv s \<longleftrightarrow>
     \<not> my_dumped s \<and> mq_inv (my_file s) \<and>
     mqh_nwait (mf_hdr (my_file s)) = icount mq_receiving (my_threads s) \<and>
     list_all (fits (my_file s)) (my_threads s) \<and>
     (length (my_threads s) \<le> 2 \<longrightarrow> list_all (justified (my_file s)) (my_threads s))"

lemma mq_signal_cases:
  assumes "mq_signal sg w ts = Some ts'"
  obtains "\<not> sg" "ts' = ts"
    | "sg" "ts' = ts" "\<forall>p\<in>set ts. \<not> mq_asleep p"
    | j where "sg" "j < length ts" "mq_asleep (ts ! j)" "ts' = ts[j := mq_woken (ts ! j)]"
proof (cases sg)
  case True
  show thesis
  proof (cases w)
    case None
    with True assms that(2) show ?thesis by (simp add: mq_signal_def split: if_splits)
  next
    case (Some j)
    with True assms that(3) [of j] show ?thesis by (simp add: mq_signal_def split: if_splits)
  qed
qed (use assms that(1) in \<open>simp add: mq_signal_def\<close>)

lemma mq_signal_length: "mq_signal sg w ts = Some ts' \<Longrightarrow> length ts' = length ts"
  by (elim mq_signal_cases) auto

lemma mq_signal_receiving:
  "mq_signal sg w ts = Some ts' \<Longrightarrow> icount mq_receiving ts' = icount mq_receiving ts"
proof (elim mq_signal_cases)
  fix j assume "j < length ts" "ts' = ts[j := mq_woken (ts ! j)]"
  moreover have "mq_receiving (mq_woken p) = mq_receiving p" for p by (cases p) auto
  ultimately show ?thesis by simp
qed auto

lemma mq_signal_fits:
  assumes "mq_signal sg w ts = Some ts'" "list_all (fits f) ts"
  shows "list_all (fits f) ts'"
  using assms(1)
proof (cases rule: mq_signal_cases)
  case (3 j)
  moreover have "fits f (mq_woken p) = fits f p" for p by (cases p) (auto simp: fits_def)
  moreover have "fits f (ts ! j)" using assms(2) 3(2) by (simp add: list_all_length)
  ultimately show ?thesis using assms(2) by (simp add: list_all_update)
qed (use assms(2) in auto)

text \<open>Of two threads, one of which is not in the queue's functions, a signal wakes the other.\<close>

lemma mq_signal_two:
  assumes sig: "mq_signal True w ts = Some ts'" and two: "length ts \<le> 2" and i: "i < length ts" "ts ! i = MIdle"
  shows "p \<in> set ts' \<Longrightarrow> \<not> mq_asleep p"
  using sig
proof (cases rule: mq_signal_cases)
  case (3 j)
  assume "p \<in> set ts'"
  then obtain k where k: "k < length ts" "p = ts' ! k" using 3(4) by (auto simp: in_set_conv_nth)
  have "j \<noteq> i" using 3(3) i(2) by auto
  have "\<not> mq_asleep (mq_woken q)" for q by (cases q) auto
  moreover have "k = j \<or> k = i" using k(1) \<open>j \<noteq> i\<close> 3(2) i(1) two by linarith
  ultimately show ?thesis using k 3 i \<open>j \<noteq> i\<close> by (auto simp: nth_list_update)
qed auto

lemma justified_awake: "\<not> mq_asleep p \<Longrightarrow> justified f p"
  by (cases p) (auto simp: justified_def)

text \<open>Thread \<open>i\<close> finishes: what the new file and the signal must satisfy.\<close>

lemma mq_finish_inv:
  assumes inv: "mq_sys_inv s" and i: "i < length (my_threads s)" and fin: "mq_finish i w s f sg = Some t"
    and f: "mq_inv f" "mq_msgsize (mqh_attr (mf_hdr f)) = mq_msgsize (mqh_attr (mf_hdr (my_file s)))"
    and nw: "mqh_nwait (mf_hdr f) = mqh_nwait (mf_hdr (my_file s)) - of_bool (mq_receiving (my_threads s ! i))"
    and just: "\<And>p. mq_asleep p \<Longrightarrow> justified (my_file s) p \<Longrightarrow> \<not> sg \<Longrightarrow> justified f p"
  shows "mq_sys_inv t"
proof -
  let ?ts = "(my_threads s)[i := MIdle]"
  from fin obtain ts where ts: "mq_signal sg w ?ts = Some ts" and t: "t = s\<lparr>my_file := f, my_threads := ts\<rparr>"
    by (auto simp: mq_finish_def)
  have fits: "fits f = fits (my_file s)" by (auto simp: fits_def fun_eq_iff f(2) split: mq_pc.splits)
  have "list_all (fits f) ?ts" using inv by (auto simp: mq_sys_inv_def fits fits_def intro!: list_all_update)
  note ft = mq_signal_fits [OF ts this]
  have "icount mq_receiving ts = mqh_nwait (mf_hdr f)"
    using mq_signal_receiving [OF ts] inv i nw by (simp add: mq_sys_inv_def)
  moreover have "list_all (justified f) ts" if two: "length ts \<le> 2"
  proof (cases sg)
    case True
    with mq_signal_two [of w ?ts ts i] ts two i mq_signal_length [OF ts] justified_awake
    show ?thesis by (auto simp: list_all_iff)
  next
    case False
    with ts have "ts = ?ts" by (simp add: mq_signal_def)
    moreover have "list_all (justified f) (my_threads s)"
      unfolding list_all_iff
    proof
      fix p assume "p \<in> set (my_threads s)"
      then have "justified (my_file s) p"
        using inv two mq_signal_length [OF ts] by (simp add: mq_sys_inv_def list_all_iff)
      then show "justified f p" using just [OF _ _ False] justified_awake by (cases "mq_asleep p") auto
    qed
    ultimately show ?thesis by (simp add: list_all_update justified_def)
  qed
  ultimately show ?thesis using ft inv f(1) by (simp add: mq_sys_inv_def t)
qed

section \<open>The functions on a well-formed file\<close>

text \<open>A put and a get, with what they do to the counters.\<close>

lemma mq_put_counts:
  assumes inv: "mq_inv f" and room: "mq_curmsgs (mqh_attr (mf_hdr f)) < mq_maxmsg (mqh_attr (mf_hdr f))"
    and len: "int (length ptr) \<le> mq_msgsize (mqh_attr (mf_hdr f))"
  shows "\<exists>f'. mq_send_put f ptr prio = Some (MqDone (f', mq_curmsgs (mqh_attr (mf_hdr f)) = 0)) \<and> mq_inv f' \<and>
    same_header f f' \<and> mq_curmsgs (mqh_attr (mf_hdr f')) = mq_curmsgs (mqh_attr (mf_hdr f)) + 1"
proof -
  obtain hs ms fs where rep: "mq_rep hs f ms fs" using inv by (auto simp: mq_inv_def)
  with room mq_rep_full(2) [OF rep] obtain a fs' where fs: "fs = a # fs'" by (cases fs) auto
  have "length ptr \<le> nat (mq_msgsize (mqh_attr (mf_hdr f)))" using len by linarith
  from mq_send_put_rep [OF rep [unfolded fs] this, of prio] obtain f' ms' where
    f': "mq_send_put f ptr prio = Some (MqDone (f', ms = []))" "mq_rep hs f' ms' fs'" "same_header f f'" by auto
  have "length ms' + length fs' = length ms + length fs"
    using mq_rep_full(1) [OF rep] mq_rep_full(1) [OF f'(2)] f'(3) by (simp add: same_header_def)
  then have "length ms' = Suc (length ms)" using fs by simp
  with f' mq_repD(8) [OF rep] mq_repD(8) [OF f'(2)] show ?thesis by (auto simp: mq_inv_def)
qed

lemma mq_get_counts:
  assumes inv: "mq_inv f" and some: "mq_curmsgs (mqh_attr (mf_hdr f)) \<noteq> 0"
  shows "\<exists>f' dat prio. mq_receive_get f = MqDone (f', mq_curmsgs (mqh_attr (mf_hdr f)) = mq_maxmsg (mqh_attr (mf_hdr f)), dat, prio) \<and>
    mq_inv f' \<and> same_header f f' \<and> mq_curmsgs (mqh_attr (mf_hdr f')) = mq_curmsgs (mqh_attr (mf_hdr f)) - 1"
proof -
  obtain hs ms fs where rep: "mq_rep hs f ms fs" using inv by (auto simp: mq_inv_def)
  with some mq_repD(8) [OF rep] obtain m ms' where ms: "ms = m # ms'" by (cases ms) auto
  from mq_receive_get_rep [OF rep [unfolded ms]] obtain f' dat prio where
    f': "mq_receive_get f = MqDone (f', mq_curmsgs (mqh_attr (mf_hdr f)) = mq_maxmsg (mqh_attr (mf_hdr f)), dat, prio)"
      "mq_rep hs f' ms' (m # fs)" "same_header f f'" by auto
  with ms mq_repD(8) [OF rep] mq_repD(8) [OF f'(2)] show ?thesis by (auto simp: mq_inv_def)
qed

lemma mq_inv_bounds:
  assumes "mq_inv f"
  shows "0 < mq_maxmsg (mqh_attr (mf_hdr f))" "0 \<le> mq_curmsgs (mqh_attr (mf_hdr f))"
    "mq_curmsgs (mqh_attr (mf_hdr f)) \<le> mq_maxmsg (mqh_attr (mf_hdr f))"
proof -
  obtain hs ms fs where rep: "mq_rep hs f ms fs" using assms by (auto simp: mq_inv_def)
  note r = mq_repD(5,8) [OF rep] mq_rep_full(1) [OF rep]
  then show "0 < mq_maxmsg (mqh_attr (mf_hdr f))" "0 \<le> mq_curmsgs (mqh_attr (mf_hdr f))" by auto
  from r show "mq_curmsgs (mqh_attr (mf_hdr f)) \<le> mq_maxmsg (mqh_attr (mf_hdr f))" by linarith
qed

lemma mq_sys_inv_hdr:
  assumes "mq_sys_inv s"
  shows "mq_inv (my_file s)" "mqh_nwait (mf_hdr (my_file s)) = icount mq_receiving (my_threads s)"
  using assms by (auto simp: mq_sys_inv_def)

text \<open>Thread \<open>i\<close> goes to sleep, for a reason that holds.\<close>

lemma mq_sleep_inv:
  assumes inv: "mq_sys_inv s" and i: "i < length (my_threads s)"
    and f: "mq_inv f" "mqh_attr (mf_hdr f) = mqh_attr (mf_hdr (my_file s))"
    and nw: "mqh_nwait (mf_hdr f) = mqh_nwait (mf_hdr (my_file s)) - of_bool (mq_receiving (my_threads s ! i)) + of_bool (mq_receiving p)"
    and p: "fits f p" "justified f p"
  shows "mq_sys_inv (s\<lparr>my_file := f, my_threads := (my_threads s)[i := p]\<rparr>)"
proof -
  have "fits f = fits (my_file s)" "justified f = justified (my_file s)"
    by (auto simp: fits_def justified_def fun_eq_iff f(2) split: mq_pc.splits)
  with inv i p nw f(1) show ?thesis by (simp add: mq_sys_inv_def list_all_update)
qed

section \<open>Every step keeps the invariant\<close>

lemma info0_open: "mqi_magic info0 = MQI_MAGIC" "\<not> mq_nonblock info0"
  by (simp_all add: info0_def mq_nonblock_def)

lemma mq_exec_send_inv:
  assumes inv: "mq_sys_inv s" and i: "i < length (my_threads s)" "my_threads s ! i = MIdle"
    and step: "mq_exec_send i ptr prio w s = Some t"
  shows "mq_sys_inv t"
proof -
  let ?f = "my_file s"
  let ?a = "mqh_attr (mf_hdr ?f)"
  note hdr = mq_sys_inv_hdr [OF inv]
  note b = mq_inv_bounds [OF hdr(1)]
  consider (long) "int (length ptr) > mq_msgsize ?a" | (full) "int (length ptr) \<le> mq_msgsize ?a" "mq_curmsgs ?a \<ge> mq_maxmsg ?a"
    | (room) "int (length ptr) \<le> mq_msgsize ?a" "mq_curmsgs ?a < mq_maxmsg ?a" by linarith
  then show ?thesis
  proof cases
    case long
    then have "mymq_send 0 info0 ?f ptr prio = Some (MqErr EMSGSIZE)" by (simp add: mymq_send_def info0_open)
    with step inv show ?thesis by (simp add: mq_exec_send_def)
  next
    case full
    then have "mymq_send 0 info0 ?f ptr prio = Some MqWait" using b by (simp add: mymq_send_def info0_open)
    with step have "t = s\<lparr>my_file := ?f, my_threads := (my_threads s)[i := MSend ptr prio]\<rparr>"
      by (simp add: mq_exec_send_def)
    with full show ?thesis
      using mq_sleep_inv [OF inv i(1) hdr(1) refl, of "MSend ptr prio"] i(2) by (simp add: fits_def justified_def)
  next
    case room
    obtain g sigs where g: "(if mq_curmsgs ?a = 0 then mq_send_notify ?f else (?f, [])) = (g, sigs)"
      by (cases "if mq_curmsgs ?a = 0 then mq_send_notify ?f else (?f, [])")
    then have g': "mq_inv g" "mqh_attr (mf_hdr g) = ?a" "mqh_nwait (mf_hdr g) = mqh_nwait (mf_hdr ?f)"
      using hdr(1) mq_send_notify_rep [of ?f g sigs] by (auto simp: mq_inv_def split: if_splits)
    from mq_put_counts [OF g'(1), of ptr prio] room obtain f' where
      f': "mq_send_put g ptr prio = Some (MqDone (f', mq_curmsgs ?a = 0))" "mq_inv f'" "same_header g f'"
        "mq_curmsgs (mqh_attr (mf_hdr f')) = mq_curmsgs ?a + 1" unfolding g'(2) by blast
    have "mymq_send 0 info0 ?f ptr prio = Some (MqDone (f', mq_curmsgs ?a = 0, sigs))"
      using room g f'(1) by (simp add: mymq_send_def info0_open Let_def)
    with step have fin: "mq_finish i w s f' (mq_curmsgs ?a = 0) = Some t" by (simp add: mq_exec_send_def)
    show ?thesis
      by (rule mq_finish_inv [OF inv i(1) fin f'(2)])
        (use f' g' i(2) room in \<open>auto simp: same_header_def justified_def split: mq_pc.splits\<close>)
  qed
qed

lemma mq_get_finish_inv:
  assumes inv: "mq_sys_inv s" and i: "i < length (my_threads s)"
    and g: "mq_inv g" "mqh_attr (mf_hdr g) = mqh_attr (mf_hdr (my_file s))"
    and nw: "mqh_nwait (mf_hdr g) = mqh_nwait (mf_hdr (my_file s)) - of_bool (mq_receiving (my_threads s ! i))"
    and some: "mq_curmsgs (mqh_attr (mf_hdr g)) \<noteq> 0"
  shows "\<exists>f sg dat prio. mq_receive_get g = MqDone (f, sg, dat, prio) \<and>
    (\<forall>w t. mq_finish i w s f sg = Some t \<longrightarrow> mq_sys_inv t)"
proof -
  let ?a = "mqh_attr (mf_hdr (my_file s))"
  from mq_get_counts [OF g(1) some] obtain f' dat prio where
    f': "mq_receive_get g = MqDone (f', mq_curmsgs ?a = mq_maxmsg ?a, dat, prio)" "mq_inv f'" "same_header g f'"
      "mq_curmsgs (mqh_attr (mf_hdr f')) = mq_curmsgs ?a - 1" unfolding g(2) by blast
  have "mq_sys_inv t" if "mq_finish i w s f' (mq_curmsgs ?a = mq_maxmsg ?a) = Some t" for w t
    by (rule mq_finish_inv [OF inv i that f'(2)])
      (use f' g nw some mq_inv_bounds [OF g(1)] in \<open>auto simp: same_header_def justified_def split: mq_pc.splits\<close>)
  with f'(1) show ?thesis by blast
qed

lemma mq_inv_nwait: "mq_inv (mq_add_nwait n f) = mq_inv f"
  by (simp add: mq_inv_def mq_add_nwait_def mq_rep_header)

lemma mq_exec_receive_inv:
  assumes inv: "mq_sys_inv s" and i: "i < length (my_threads s)" "my_threads s ! i = MIdle"
    and step: "mq_exec_receive i maxlen w s = Some t"
  shows "mq_sys_inv t"
proof -
  let ?f = "my_file s"
  let ?a = "mqh_attr (mf_hdr ?f)"
  note hdr = mq_sys_inv_hdr [OF inv]
  consider (small) "int maxlen < mq_msgsize ?a" | (empty) "int maxlen \<ge> mq_msgsize ?a" "mq_curmsgs ?a = 0"
    | (some) "int maxlen \<ge> mq_msgsize ?a" "mq_curmsgs ?a \<noteq> 0" by linarith
  then show ?thesis
  proof cases
    case small
    then have "mymq_receive 0 info0 ?f maxlen = MqErr EMSGSIZE" by (simp add: mymq_receive_def info0_open)
    with step inv show ?thesis by (simp add: mq_exec_receive_def)
  next
    case empty
    then have "mymq_receive 0 info0 ?f maxlen = MqWait" by (simp add: mymq_receive_def info0_open)
    with step have t: "t = s\<lparr>my_file := mq_add_nwait 1 ?f, my_threads := (my_threads s)[i := MRecv]\<rparr>"
      by (simp add: mq_exec_receive_def)
    have "mq_inv (mq_add_nwait 1 ?f)" using hdr(1) by (simp add: mq_inv_nwait)
    from mq_sleep_inv [OF inv i(1) this, of MRecv] empty i(2) show ?thesis
      by (simp add: t mq_add_nwait_def fits_def justified_def)
  next
    case some
    then have "mymq_receive 0 info0 ?f maxlen = mq_receive_get ?f" by (simp add: mymq_receive_def info0_open)
    with mq_get_finish_inv [OF inv i(1) hdr(1) refl _ some(2)] i(2) step show ?thesis
      by (auto simp: mq_exec_receive_def)
  qed
qed

lemma mq_exec_again_inv:
  assumes inv: "mq_sys_inv s" and i: "i < length (my_threads s)" and step: "mq_exec_again i w s = Some t"
  shows "mq_sys_inv t"
proof -
  let ?f = "my_file s"
  let ?a = "mqh_attr (mf_hdr ?f)"
  note hdr = mq_sys_inv_hdr [OF inv]
  show ?thesis
  proof (cases "my_threads s ! i")
    case (MSendWoken ptr prio)
    have fits: "int (length ptr) \<le> mq_msgsize ?a"
      using inv i MSendWoken by (auto simp: mq_sys_inv_def list_all_length fits_def split: mq_pc.splits)
    show ?thesis
    proof (cases "mq_curmsgs ?a \<ge> mq_maxmsg ?a")
      case True
      with step MSendWoken have "t = s\<lparr>my_file := ?f, my_threads := (my_threads s)[i := MSend ptr prio]\<rparr>"
        by (simp add: mq_exec_again_def mymq_send_resume_def)
      with True fits MSendWoken show ?thesis
        using mq_sleep_inv [OF inv i hdr(1) refl, of "MSend ptr prio"] by (simp add: fits_def justified_def)
    next
      case False
      from mq_put_counts [OF hdr(1) _ fits, of prio] False obtain f' where
        f': "mq_send_put ?f ptr prio = Some (MqDone (f', mq_curmsgs ?a = 0))" "mq_inv f'" "same_header ?f f'"
          "mq_curmsgs (mqh_attr (mf_hdr f')) = mq_curmsgs ?a + 1" by auto
      with step MSendWoken False have fin: "mq_finish i w s f' (mq_curmsgs ?a = 0) = Some t"
        by (simp add: mq_exec_again_def mymq_send_resume_def)
      show ?thesis
        by (rule mq_finish_inv [OF inv i fin f'(2)])
          (use f' MSendWoken False in \<open>auto simp: same_header_def justified_def split: mq_pc.splits\<close>)
    qed
  next
    case MRecvWoken
    show ?thesis
    proof (cases "mq_curmsgs ?a = 0")
      case True
      with step MRecvWoken have "t = s\<lparr>my_file := ?f, my_threads := (my_threads s)[i := MRecv]\<rparr>"
        by (simp add: mq_exec_again_def mymq_receive_resume_def)
      with True MRecvWoken show ?thesis
        using mq_sleep_inv [OF inv i hdr(1) refl, of MRecv] by (simp add: fits_def justified_def)
    next
      case False
      let ?g = "mq_add_nwait (- 1) ?f"
      have g: "mq_inv ?g" "mqh_attr (mf_hdr ?g) = ?a" "mqh_nwait (mf_hdr ?g) = mqh_nwait (mf_hdr ?f) - 1"
        using hdr(1) by (auto simp: mq_inv_nwait) (simp_all add: mq_add_nwait_def)
      from step MRecvWoken False mq_get_finish_inv [OF inv i g(1,2)] g(3) show ?thesis
        by (auto simp: mq_exec_again_def mymq_receive_resume_def g(2))
    qed
  qed (use step in \<open>simp_all add: mq_exec_again_def\<close>)
qed

lemma mq_spurious_inv:
  assumes inv: "mq_sys_inv s" and i: "i < length (my_threads s)"
  shows "mq_sys_inv (s\<lparr>my_threads := (my_threads s)[i := mq_woken (my_threads s ! i)]\<rparr>)"
proof -
  let ?p = "my_threads s ! i"
  have "fits (my_file s) ?p" using inv i by (simp add: mq_sys_inv_def list_all_length)
  then have "fits (my_file s) (mq_woken ?p)" by (cases ?p) (auto simp: fits_def)
  moreover have "justified (my_file s) (mq_woken ?p)" by (cases ?p) (auto simp: justified_def)
  moreover have "mq_receiving (mq_woken ?p) = mq_receiving ?p" by (cases ?p) auto
  ultimately show ?thesis
    using mq_sleep_inv [OF inv i mq_sys_inv_hdr(1) [OF inv] refl, of "mq_woken ?p"] by simp
qed

interpretation mqs: event_invariant mq_exec mq_sys_inv
proof
  fix s e t
  assume inv: "mq_sys_inv s" and step: "mq_exec s e = Some t"
  show "mq_sys_inv t"
    by (cases e) (use inv step in \<open>auto intro: mq_exec_send_inv mq_exec_receive_inv mq_exec_again_inv
      mq_spurious_inv split: if_splits\<close>)
qed

lemma mq_start_inv: "mq_inv f \<Longrightarrow> mqh_nwait (mf_hdr f) = 0 \<Longrightarrow> mq_sys_inv (mq_start f n)"
  by (auto simp: mq_sys_inv_def mq_start_def list_all_length fits_def justified_def)

lemma mq_init_inv:
  assumes "0 < hs" "0 < mq_maxmsg attr" "0 < mq_msgsize attr"
  shows "mq_inv (mq_init hs attr)" "mqh_nwait (mf_hdr (mq_init hs attr)) = 0"
  using mq_init_rep [OF assms] by (auto simp: mq_inv_def mq_init_def Let_def split: prod.splits)

text \<open>
  C22. Any number of threads sending and receiving over a new queue, in any interleaving, keep its
  file well formed, never reach \<open>err_dump\<close>, and \<open>mqh_nwait\<close> is the number of threads that wait in
  \<open>mymq_receive\<close>.
\<close>

theorem mq_system_safe:
  assumes "0 < hs" "0 < mq_maxmsg attr" "0 < mq_msgsize attr"
    and "run_events mq_exec (mq_start (mq_init hs attr) n) es = Some s"
  shows "mq_inv (my_file s) \<and> \<not> my_dumped s \<and>
    mqh_nwait (mf_hdr (my_file s)) = icount mq_receiving (my_threads s)"
  using mqs.run_Inv [OF mq_start_inv [OF mq_init_inv [OF assms(1-3)]] assms(4)] by (simp add: mq_sys_inv_def)

definition run_mq :: "mq_event list" where
  "run_mq = [RecvCall 0 8 None, SendCall 1 [1, 2] 5 (Some 0), Again 0 None, SendCall 1 [3] 0 None]"

lemma run_mq_ends: "run_ends mq_exec (mq_start (mq_init 100 attr2) 2) run_mq (\<lambda>s. mq_elems (my_file s) = [(0, [3])])"
  by code_simp

theorem mq_system_safe_witness:
  "\<exists>s. run_events mq_exec (mq_start (mq_init 100 attr2) 2) run_mq = Some s \<and> mq_inv (my_file s) \<and>
     \<not> my_dumped s \<and> mqh_nwait (mf_hdr (my_file s)) = icount mq_receiving (my_threads s)"
proof -
  from run_events_ex [OF run_mq_ends] obtain s where
    s: "run_events mq_exec (mq_start (mq_init 100 attr2) 2) run_mq = Some s" by blast
  with mq_system_safe [OF _ _ _ s] show ?thesis by (simp add: attr2_def)
qed

lemma mq_exec_length: "mq_exec s e = Some t \<Longrightarrow> length (my_threads t) = length (my_threads s)"
  by (cases e)
    (auto simp: mq_exec_send_def mq_exec_receive_def mq_exec_again_def mq_finish_def
      dest!: mq_signal_length split: if_splits option.splits mq_result.splits mq_pc.splits)

lemma mq_run_length: "run_events mq_exec s es = Some t \<Longrightarrow> length (my_threads t) = length (my_threads s)"
  by (induction es arbitrary: s) (auto split: option.splits dest: mq_exec_length)

text \<open>
  C34. Between two threads no wake-up is lost: a thread asleep in \<open>mymq_receive\<close> means the queue is
  empty, one asleep in \<open>mymq_send\<close> means it is full, so both cannot sleep at the same time.
\<close>

theorem mq_two_threads:
  assumes "0 < hs" "0 < mq_maxmsg attr" "0 < mq_msgsize attr"
    and "run_events mq_exec (mq_start (mq_init hs attr) 2) es = Some s"
  shows "list_all (justified (my_file s)) (my_threads s) \<and>
    \<not> ((\<exists>m p. MSend m p \<in> set (my_threads s)) \<and> MRecv \<in> set (my_threads s))"
proof -
  have inv: "mq_sys_inv s"
    using mqs.run_Inv [OF mq_start_inv [OF mq_init_inv [OF assms(1-3)]] assms(4)] .
  have "length (my_threads s) = 2" using mq_run_length [OF assms(4)] by (simp add: mq_start_def)
  with inv have j: "list_all (justified (my_file s)) (my_threads s)" by (simp add: mq_sys_inv_def)
  moreover have "\<not> ((\<exists>m p. MSend m p \<in> set (my_threads s)) \<and> MRecv \<in> set (my_threads s))"
  proof
    assume "(\<exists>m p. MSend m p \<in> set (my_threads s)) \<and> MRecv \<in> set (my_threads s)"
    then obtain m p where "justified (my_file s) (MSend m p)" "justified (my_file s) MRecv"
      using j by (auto simp: list_all_iff)
    with mq_inv_bounds(1) [OF mq_sys_inv_hdr(1) [OF inv]] show False by (simp add: justified_def)
  qed
  ultimately show ?thesis by blast
qed

theorem mq_two_threads_witness:
  "\<exists>s. run_events mq_exec (mq_start (mq_init 100 attr2) 2) run_mq = Some s \<and>
     list_all (justified (my_file s)) (my_threads s)"
proof -
  from run_events_ex [OF run_mq_ends] obtain s where
    s: "run_events mq_exec (mq_start (mq_init 100 attr2) 2) run_mq = Some s" by blast
  with mq_two_threads [OF _ _ _ s] show ?thesis by (simp add: attr2_def)
qed

definition attr3 :: mymq_attr where
  "attr3 = attr2\<lparr>mq_maxmsg := 3\<rparr>"

text \<open>
  With three threads a wake-up is lost: two receivers sleep on an empty queue, the third thread
  sends two messages, of which only the first signals. The run ends with a message in the queue, one
  receiver still asleep, and no thread that has been woken.
\<close>

theorem mq_three_threads_lose_wakeup:
  "run_ends mq_exec (mq_start (mq_init 100 attr3) 3)
     [RecvCall 0 8 None, RecvCall 1 8 None, SendCall 2 [1] 0 (Some 0), SendCall 2 [2] 0 None, Again 0 None]
     (\<lambda>s. my_threads s = [MIdle, MRecv, MIdle] \<and> mq_elems (my_file s) = [(0, [2])])"
  by code_simp

end
