(* ===== verification/Msgqueue_Open.thy ===== *)
theory Msgqueue_Open
  imports Msgqueue Pxsem
begin

unbundle bit_operations_syntax

text \<open>
  \<open>mymq_open\<close> of \<open>extra_lib/unpv22e/my_pxmsg_mmap/mq_open.c\<close>: one process creates the file with the
  user-execute bit set, initialises it and clears the bit; the others poll the bit. The outcomes of
  the system calls are parameters, 0 or an errno, one per attempt where the code goes back to the
  label \<open>again\<close>.
\<close>

section \<open>The process and its environment\<close>

datatype fd_state = FdInvalid | FdOpen | FdClosed

record mq_proc =
  mp_fd :: fd_state
  mp_double_close :: bool
  mp_mapped :: bool
  mp_info :: "mymq_info option"
  mp_created :: bool
  mp_unlinked :: bool
  mp_exec :: bool
  mp_file :: "mq_file option"

record mq_open_env =
  mo_open_excl :: "nat \<Rightarrow> int"
  mo_lseek :: int
  mo_write :: int
  mo_mmap :: int
  mo_malloc :: bool
  mo_mutexattr :: int
  mo_mutex :: int
  mo_condattr :: int
  mo_cond :: int
  mo_fchmod :: int
  mo_open_rdwr :: "nat \<Rightarrow> int"
  mo_stat :: "nat \<Rightarrow> nat \<Rightarrow> int + bool"
  mo_mmap_rdwr :: int
  mo_malloc_rdwr :: bool

definition defattr :: mymq_attr where
  "defattr = \<lparr>mq_flags = 0, mq_maxmsg = 128, mq_msgsize = 1024, mq_curmsgs = 0\<rparr>"

text \<open>Closing a descriptor that was closed before may close a file another thread has opened since.\<close>

definition mq_close_fd :: "mq_proc \<Rightarrow> mq_proc" where
  "mq_close_fd p =
     (case mp_fd p of
        FdInvalid \<Rightarrow> p
      | FdOpen \<Rightarrow> p\<lparr>mp_fd := FdClosed\<rparr>
      | FdClosed \<Rightarrow> p\<lparr>mp_double_close := True\<rparr>)"

section \<open>The code\<close>

text \<open>The label \<open>err\<close>.\<close>

definition mq_open_err :: "int \<Rightarrow> mq_proc \<Rightarrow> (int + unit) \<times> mq_proc" where
  "mq_open_err e p =
     (Inl e, mq_close_fd (p\<lparr>mp_unlinked := mp_unlinked p \<or> mp_created p, mp_mapped := False, mp_info := None\<rparr>))"

text \<open>The branch of the process that created the file, with the attributes it was given.\<close>

definition mq_open_create ::
  "mq_open_env \<Rightarrow> nat \<Rightarrow> 32 word \<Rightarrow> mymq_attr option \<Rightarrow> mq_proc \<Rightarrow> (int + unit) \<times> mq_proc" where
  "mq_open_create env hs nonblock attrp p =
     (let p1 = p\<lparr>mp_fd := FdOpen, mp_created := True, mp_exec := True\<rparr>;
          attr = (case attrp of None \<Rightarrow> defattr | Some a \<Rightarrow> a) in
      if attrp \<noteq> None \<and> (mq_maxmsg attr \<le> 0 \<or> mq_msgsize attr \<le> 0) then mq_open_err EINVAL p1
      else if mo_lseek env \<noteq> 0 then mq_open_err (mo_lseek env) p1
      else if mo_write env \<noteq> 0 then mq_open_err (mo_write env) p1
      else if mo_mmap env \<noteq> 0 then mq_open_err (mo_mmap env) p1
      else
        let p2 = p1\<lparr>mp_mapped := True\<rparr> in
        if \<not> mo_malloc env then mq_open_err ENOMEM p2
        else
          let p3 = p2\<lparr>mp_info := Some \<lparr>mqi_magic = MQI_MAGIC, mqi_flags = nonblock\<rparr>,
                      mp_file := Some (mq_init hs attr)\<rparr> in
          if mo_mutexattr env \<noteq> 0 then mq_open_err (mo_mutexattr env) p3
          else if mo_mutex env \<noteq> 0 then mq_open_err (mo_mutex env) p3
          else if mo_condattr env \<noteq> 0 then mq_open_err (mo_condattr env) p3
          else if mo_cond env \<noteq> 0 then mq_open_err (mo_cond env) p3
          else if mo_fchmod env \<noteq> 0 then mq_open_err (mo_fchmod env) p3
          else (Inr (), mq_close_fd (p3\<lparr>mp_exec := False\<rparr>)))"

datatype mq_attempt = MqReturn "(int + unit) \<times> mq_proc" | MqAgain mq_proc

text \<open>From the label \<open>exists\<close>, in attempt \<open>k\<close>.\<close>

definition mq_open_exists :: "mq_open_env \<Rightarrow> bool \<Rightarrow> 32 word \<Rightarrow> nat \<Rightarrow> mq_proc \<Rightarrow> mq_attempt" where
  "mq_open_exists env creat nonblock k p =
     (if mo_open_rdwr env k \<noteq> 0
      then (let p1 = p\<lparr>mp_fd := FdInvalid\<rparr> in
            if mo_open_rdwr env k = ENOENT \<and> creat then MqAgain p1
            else MqReturn (mq_open_err (mo_open_rdwr env k) p1))
      else
        let p1 = p\<lparr>mp_fd := FdOpen\<rparr> in
        (case poll_init (mo_stat env k) creat 0 MAX_TRIES of
           PollAgain \<Rightarrow> MqAgain (mq_close_fd p1)
         | PollErr e \<Rightarrow> MqReturn (mq_open_err e p1)
         | PollReady \<Rightarrow>
             if mo_mmap_rdwr env \<noteq> 0 then MqReturn (mq_open_err (mo_mmap_rdwr env) p1)
             else
               let p2 = mq_close_fd (p1\<lparr>mp_mapped := True\<rparr>) in
               if \<not> mo_malloc_rdwr env then MqReturn (mq_open_err ENOMEM p2)
               else MqReturn (Inr (), p2\<lparr>mp_info := Some \<lparr>mqi_magic = MQI_MAGIC, mqi_flags = nonblock\<rparr>\<rparr>)))"

text \<open>One attempt, from the label \<open>again\<close>.\<close>

definition mq_open_once ::
  "mq_open_env \<Rightarrow> nat \<Rightarrow> bool \<Rightarrow> bool \<Rightarrow> 32 word \<Rightarrow> mymq_attr option \<Rightarrow> nat \<Rightarrow> mq_proc \<Rightarrow> mq_attempt" where
  "mq_open_once env hs creat excl nonblock attrp k p =
     (if creat then
        (if mo_open_excl env k \<noteq> 0
         then (let p1 = p\<lparr>mp_fd := FdInvalid\<rparr> in
               if mo_open_excl env k = EEXIST \<and> \<not> excl then mq_open_exists env creat nonblock k p1
               else MqReturn (Inl (mo_open_excl env k), p1))
         else MqReturn (mq_open_create env hs nonblock attrp p))
      else mq_open_exists env creat nonblock k p)"

partial_function (option) mq_open_loop ::
  "mq_open_env \<Rightarrow> nat \<Rightarrow> bool \<Rightarrow> bool \<Rightarrow> 32 word \<Rightarrow> mymq_attr option \<Rightarrow> nat \<Rightarrow> mq_proc \<Rightarrow>
     ((int + unit) \<times> mq_proc) option" where
  "mq_open_loop env hs creat excl nonblock attrp k p =
     (case mq_open_once env hs creat excl nonblock attrp k p of
        MqReturn r \<Rightarrow> Some r
      | MqAgain p' \<Rightarrow> mq_open_loop env hs creat excl nonblock attrp (Suc k) p')"

definition O_CREAT :: "32 word" where "O_CREAT = 0x40"
definition O_EXCL :: "32 word" where "O_EXCL = 0x80"

definition mq_proc0 :: "mq_file option \<Rightarrow> mq_proc" where
  "mq_proc0 f = \<lparr>mp_fd = FdInvalid, mp_double_close = False, mp_mapped = False, mp_info = None,
     mp_created = False, mp_unlinked = False, mp_exec = False, mp_file = f\<rparr>"

text \<open>\<open>mymq_open\<close>, \<open>f\<close> being the file if there is one; \<open>None\<close> is a call that never returns.\<close>

definition mymq_open ::
  "mq_open_env \<Rightarrow> nat \<Rightarrow> mq_file option \<Rightarrow> 32 word \<Rightarrow> mymq_attr option \<Rightarrow> ((int + unit) \<times> mq_proc) option" where
  "mymq_open env hs f oflag attrp =
     (let nonblock = oflag AND O_NONBLOCK; flags = oflag AND NOT O_NONBLOCK in
      mq_open_loop env hs (flags AND O_CREAT \<noteq> 0) (flags AND O_EXCL \<noteq> 0) nonblock attrp 0 (mq_proc0 f))"

definition Mymq_open ::
  "mq_open_env \<Rightarrow> nat \<Rightarrow> mq_file option \<Rightarrow> 32 word \<Rightarrow> mymq_attr option \<Rightarrow> mq_proc outcome option" where
  "Mymq_open env hs f oflag attrp =
     map_option (\<lambda>(r, p). case r of Inl e \<Rightarrow> Dies ''mymq_open error'' | Inr _ \<Rightarrow> Returns p)
       (mymq_open env hs f oflag attrp)"

section \<open>What a call leaves behind\<close>

text \<open>Between attempts the process holds nothing.\<close>

definition mq_between :: "mq_proc \<Rightarrow> bool" where
  "mq_between p \<longleftrightarrow> mp_fd p \<noteq> FdOpen \<and> \<not> mp_mapped p \<and> mp_info p = None \<and> \<not> mp_created p \<and> \<not> mp_unlinked p"

definition mq_open_ok :: "nat \<Rightarrow> 32 word \<Rightarrow> mymq_attr option \<Rightarrow> (int + unit) \<times> mq_proc \<Rightarrow> bool" where
  "mq_open_ok hs nonblock attrp = (\<lambda>(r, q).
     mp_fd q \<noteq> FdOpen \<and>
     (case r of
        Inl e \<Rightarrow> \<not> mp_mapped q \<and> mp_info q = None \<and> mp_unlinked q = mp_created q
      | Inr _ \<Rightarrow> mp_mapped q \<and> \<not> mp_unlinked q \<and>
          mp_info q = Some \<lparr>mqi_magic = MQI_MAGIC, mqi_flags = nonblock\<rparr> \<and>
          (mp_created q \<longrightarrow> \<not> mp_exec q \<and>
             (\<exists>f fs. mp_file q = Some f \<and> mq_rep hs f [] fs \<and>
                mqh_attr (mf_hdr f) = (case attrp of None \<Rightarrow> defattr | Some a \<Rightarrow> a\<lparr>mq_flags := 0, mq_curmsgs := 0\<rparr>)))))"

lemmas mq_open_parts = mq_open_err_def mq_close_fd_def Let_def

lemma mq_open_err_ok: "\<not> mp_unlinked p \<Longrightarrow> mq_open_ok hs nb attrp (mq_open_err e p)"
  by (auto simp: mq_open_parts mq_open_ok_def split: fd_state.splits)

lemma mq_init_attr:
  "mqh_attr (mf_hdr (mq_init hs a)) = \<lparr>mq_flags = 0, mq_maxmsg = mq_maxmsg a, mq_msgsize = mq_msgsize a, mq_curmsgs = 0\<rparr>"
  by (simp add: mq_init_def Let_def split: prod.splits)

lemma mq_init_ok:
  fixes attrp :: "mymq_attr option"
  assumes hs: "0 < hs" and attr: "\<not> (attrp \<noteq> None \<and> (mq_maxmsg a \<le> 0 \<or> mq_msgsize a \<le> 0))"
    and a: "a = (case attrp of None \<Rightarrow> defattr | Some b \<Rightarrow> b)"
  shows "\<exists>fs. mq_rep hs (mq_init hs a) [] fs \<and>
    mqh_attr (mf_hdr (mq_init hs a)) = (case attrp of None \<Rightarrow> defattr | Some b \<Rightarrow> b\<lparr>mq_flags := 0, mq_curmsgs := 0\<rparr>)"
proof -
  have "0 < mq_maxmsg a" "0 < mq_msgsize a" using attr a by (auto simp: defattr_def split: option.splits)
  from mq_init_rep [OF hs this] show ?thesis
    using a by (auto simp: mq_init_attr defattr_def split: option.splits)
qed

lemma mq_open_created_ok:
  assumes hs: "0 < hs" and p: "\<not> mp_unlinked p"
    and attr: "\<not> (attrp \<noteq> None \<and> (mq_maxmsg (case attrp of None \<Rightarrow> defattr | Some a \<Rightarrow> a) \<le> 0 \<or>
                                  mq_msgsize (case attrp of None \<Rightarrow> defattr | Some a \<Rightarrow> a) \<le> 0))"
  shows "mq_open_ok hs nb attrp (Inr (), mq_close_fd (p\<lparr>mp_fd := FdOpen, mp_created := True,
     mp_mapped := True, mp_info := Some \<lparr>mqi_magic = MQI_MAGIC, mqi_flags = nb\<rparr>,
     mp_file := Some (mq_init hs (case attrp of None \<Rightarrow> defattr | Some a \<Rightarrow> a)), mp_exec := False\<rparr>))"
  using mq_init_ok [OF hs attr refl] p by (simp add: mq_open_ok_def mq_close_fd_def)

lemma mq_open_create_ok:
  assumes "0 < hs" "mq_between p"
  shows "mq_open_ok hs nb attrp (mq_open_create env hs nb attrp p)"
proof -
  have nu: "\<not> mp_unlinked p" using assms(2) by (simp add: mq_between_def)
  show ?thesis
    unfolding mq_open_create_def Let_def
    using mq_open_created_ok [OF assms(1) nu, of attrp nb] by (cases attrp) (simp_all add: mq_open_err_ok nu)
qed

lemma mq_open_exists_ok:
  assumes p: "mq_between p" and r: "mq_open_exists env creat nb k p = MqReturn r"
  shows "mq_open_ok hs nb attrp r"
proof -
  have nu: "\<not> mp_unlinked p" "\<not> mp_created p" using p by (simp_all add: mq_between_def)
  show ?thesis
  proof (cases "mo_open_rdwr env k = 0")
    case True
    with r nu show ?thesis
      by (cases "poll_init (mo_stat env k) creat 0 MAX_TRIES")
        (auto simp: mq_open_exists_def Let_def mq_open_err_def mq_close_fd_def mq_open_ok_def split: if_splits)
  next
    case False
    with r nu show ?thesis by (auto simp: mq_open_exists_def Let_def mq_open_err_ok split: if_splits)
  qed
qed

lemma mq_open_exists_again:
  assumes p: "mq_between p" and r: "mq_open_exists env creat nb k p = MqAgain p'"
  shows "mq_between p'" "creat"
proof -
  have "mq_between p' \<and> creat"
  proof (cases "mo_open_rdwr env k = 0")
    case True
    with r p poll_init_again [of "mo_stat env k" creat 0 MAX_TRIES] show ?thesis
      by (cases "poll_init (mo_stat env k) creat 0 MAX_TRIES")
        (auto simp: mq_open_exists_def Let_def mq_close_fd_def mq_between_def split: if_splits)
  next
    case False
    with r p show ?thesis by (auto simp: mq_open_exists_def Let_def mq_between_def split: if_splits)
  qed
  then show "mq_between p'" "creat" by auto
qed

lemma mq_between_fd: "mq_between p \<Longrightarrow> mq_between (p\<lparr>mp_fd := FdInvalid\<rparr>)"
  by (simp add: mq_between_def)

lemma mq_open_once_ok:
  assumes "0 < hs" "mq_between p" "mq_open_once env hs creat excl nb attrp k p = MqReturn r"
  shows "mq_open_ok hs nb attrp r"
proof -
  have "mq_open_ok hs nb attrp (Inl e, p\<lparr>mp_fd := FdInvalid\<rparr>)" for e
    using assms(2) by (simp add: mq_open_ok_def mq_between_def)
  with assms show ?thesis
    by (auto simp: mq_open_once_def Let_def mq_open_create_ok intro: mq_open_exists_ok mq_between_fd split: if_splits)
qed

lemma mq_open_once_again:
  assumes "mq_between p" "mq_open_once env hs creat excl nb attrp k p = MqAgain p'"
  shows "mq_between p'" "creat \<and> mo_open_excl env k = EEXIST"
proof -
  have "\<exists>q. mq_between q \<and> mq_open_exists env creat nb k q = MqAgain p' \<and> (creat \<longrightarrow> mo_open_excl env k = EEXIST)"
    using assms mq_between_fd [OF assms(1)] unfolding mq_open_once_def Let_def by (auto split: if_splits)
  with mq_open_exists_again show "mq_between p'" "creat \<and> mo_open_excl env k = EEXIST" by blast+
qed

text \<open>The call ends at the first attempt that does not find the file already there.\<close>

lemma mq_open_loop_ok:
  assumes "0 < hs" "mq_between p" "\<not> creat \<or> mo_open_excl env (k + d) \<noteq> EEXIST"
  shows "\<exists>r. mq_open_loop env hs creat excl nb attrp k p = Some r \<and> mq_open_ok hs nb attrp r"
  using assms(2,3)
proof (induction d arbitrary: k p)
  case 0
  show ?case
  proof (cases "mq_open_once env hs creat excl nb attrp k p")
    case (MqReturn r)
    with mq_open_once_ok [OF assms(1) 0(1)] show ?thesis by (subst mq_open_loop.simps) simp
  next
    case (MqAgain p')
    from mq_open_once_again(2) [OF 0(1) MqAgain] 0(2) show ?thesis by simp
  qed
next
  case (Suc d)
  show ?case
  proof (cases "mq_open_once env hs creat excl nb attrp k p")
    case (MqReturn r)
    with mq_open_once_ok [OF assms(1) Suc.prems(1)] show ?thesis by (subst mq_open_loop.simps) simp
  next
    case (MqAgain p')
    with mq_open_once_again(1) [OF Suc.prems(1)] have "mq_between p'" by blast
    from Suc.IH [OF this, of "Suc k"] Suc.prems(2) MqAgain show ?thesis by (subst mq_open_loop.simps) simp
  qed
qed


definition mq_env0 :: mq_open_env where
  "mq_env0 = \<lparr>mo_open_excl = (\<lambda>k. 0), mo_lseek = 0, mo_write = 0, mo_mmap = 0, mo_malloc = True,
     mo_mutexattr = 0, mo_mutex = 0, mo_condattr = 0, mo_cond = 0, mo_fchmod = 0,
     mo_open_rdwr = (\<lambda>_. 0), mo_stat = (\<lambda>_ _. Inr False), mo_mmap_rdwr = 0, mo_malloc_rdwr = False\<rparr>"


text \<open>
  A descriptor is closed twice: when the file exists and the allocation of the descriptor fails,
  the file was closed before the jump to \<open>err\<close>, which closes it again.
\<close>

theorem mymq_open_closes_twice:
  "\<exists>q. mymq_open mq_env0 100 (Some (mq_init 100 attr2)) 0 None = Some (Inl ENOMEM, q) \<and> mp_double_close q"
proof -
  have "poll_init (mo_stat mq_env0 0) False 0 MAX_TRIES = PollReady"
    unfolding poll_init_ready by (intro exI [of _ 0]) (simp add: mq_env0_def MAX_TRIES_def)
  then have "mq_open_once mq_env0 100 False False 0 None 0 (mq_proc0 (Some (mq_init 100 attr2))) =
      MqReturn (Inl ENOMEM, (mq_proc0 (Some (mq_init 100 attr2)))\<lparr>mp_fd := FdClosed, mp_double_close := True\<rparr>)"
    by (simp add: mq_open_once_def mq_open_exists_def mq_open_parts) (simp add: mq_env0_def mq_proc0_def)
  then show ?thesis by (simp add: mymq_open_def, subst mq_open_loop.simps) simp
qed

end
