(* ===== verification/Cstring.thy ===== *)
theory Cstring
  imports Prelude
begin

text \<open>
  What the program uses of the C library on strings and files: decimal output of \<open>printf\<close> with a
  field width, decimal input of \<open>atol\<close>, and files as lists of bytes with reads and writes at an
  offset.
\<close>

section \<open>Decimal numbers\<close>

abbreviation NUL :: char where "NUL \<equiv> CHR 0x00"
abbreviation NEWLINE :: char where "NEWLINE \<equiv> CHR 0x0A"
abbreviation SPACE :: char where "SPACE \<equiv> CHR '' ''"

definition isdigit :: "char \<Rightarrow> bool" where
  "isdigit c \<longleftrightarrow> 48 \<le> (of_char c :: nat) \<and> (of_char c :: nat) \<le> 57"

definition isspace :: "char \<Rightarrow> bool" where
  "isspace c \<longleftrightarrow> c = SPACE \<or> (9 \<le> (of_char c :: nat) \<and> (of_char c :: nat) \<le> 13)"

definition digit :: "nat \<Rightarrow> char" where
  "digit d = char_of (48 + d)"

text \<open>The decimal digits of a number, as \<open>printf\<close> writes it, and the padding of a field width.\<close>

fun dec :: "nat \<Rightarrow> string" where
  "dec n = (if n < 10 then [digit n] else dec (n div 10) @ [digit (n mod 10)])"

declare dec.simps [simp del]

text \<open>The text of \<open>%d\<close>.\<close>

definition int_text :: "int \<Rightarrow> string" where
  "int_text n = (if n < 0 then CHR ''-'' # dec (nat (- n)) else dec (nat n))"

definition pad :: "nat \<Rightarrow> string \<Rightarrow> string" where
  "pad w s = replicate (w - length s) SPACE @ s"

fun digits_value :: "nat \<Rightarrow> string \<Rightarrow> nat" where
  "digits_value acc [] = acc"
| "digits_value acc (c # cs) =
     (if isdigit c then digits_value (10 * acc + ((of_char c :: nat) - 48)) cs else acc)"

text \<open>\<open>atol\<close>: white space, a sign, digits up to the first other character.\<close>

definition atol :: "string \<Rightarrow> int" where
  "atol s =
     (case dropWhile isspace s of
        [] \<Rightarrow> 0
      | c # cs \<Rightarrow> if c = CHR ''-'' then - int (digits_value 0 cs)
                  else if c = CHR ''+'' then int (digits_value 0 cs)
                  else int (digits_value 0 (c # cs)))"

text \<open>A C string ends at its null byte.\<close>

definition cstr :: "string \<Rightarrow> string" where
  "cstr s = takeWhile (\<lambda>c. c \<noteq> NUL) s"

lemma cstr_id [simp]: "NUL \<notin> set s \<Longrightarrow> cstr s = s"
  by (auto simp: cstr_def takeWhile_eq_all_conv)

lemma cstr_ends [simp]: "NUL \<notin> set s \<Longrightarrow> cstr (s @ NUL # r) = s"
  by (induction s) (auto simp: cstr_def)

lemma isdigit_digit [simp]: "d < 10 \<Longrightarrow> isdigit (digit d)"
  by (simp add: isdigit_def digit_def)

lemma digit_value [simp]: "d < 10 \<Longrightarrow> (of_char (digit d) :: nat) - 48 = d"
  by (simp add: digit_def)

lemma dec_small: "n < 10 \<Longrightarrow> dec n = [digit n]"
  by (subst dec.simps) simp

lemma dec_big: "10 \<le> n \<Longrightarrow> dec n = dec (n div 10) @ [digit (n mod 10)]"
  by (subst dec.simps) simp

lemma dec_induct [case_names small step]:
  fixes n :: nat
  shows "(\<And>n. n < 10 \<Longrightarrow> P n) \<Longrightarrow> (\<And>n. 10 \<le> n \<Longrightarrow> P (n div 10) \<Longrightarrow> P n) \<Longrightarrow> P n"
proof (induction n rule: less_induct)
  case (less n)
  then show ?case by (cases "n < 10") auto
qed

lemma dec_isdigit: "c \<in> set (dec n) \<Longrightarrow> isdigit c"
  by (induction n rule: dec_induct) (auto simp: dec_small dec_big)

lemma dec_nonempty [simp]: "dec n \<noteq> []"
  by (cases "n < 10") (auto simp: dec_small dec_big)

lemma dec_not [simp]:
  "NUL \<notin> set (dec n)" "CHR '':'' \<notin> set (dec n)" "NEWLINE \<notin> set (dec n)" "CHR ''.'' \<notin> set (dec n)"
  by (auto dest!: dec_isdigit simp: isdigit_def)

lemma digits_value_append:
  "(\<And>c. c \<in> set ds \<Longrightarrow> isdigit c) \<Longrightarrow> digits_value acc (ds @ r) = digits_value (digits_value acc ds) r"
  by (induction ds arbitrary: acc) auto

lemma digits_value_dec: "digits_value 0 (dec n) = n"
proof (induction n rule: dec_induct)
  case (small n)
  then show ?case by (simp add: dec_small)
next
  case (step n)
  then have "dec n = dec (n div 10) @ [digit (n mod 10)]" by (simp add: dec_big)
  with step show ?case by (simp add: digits_value_append dec_isdigit)
qed

lemma digits_value_stop: "r = [] \<or> \<not> isdigit (hd r) \<Longrightarrow> digits_value acc r = acc"
  by (cases r) auto

lemma atol_dec_append:
  assumes "r = [] \<or> \<not> isdigit (hd r)"
  shows "atol (dec n @ r) = int n"
proof -
  obtain c cs where cs: "dec n = c # cs" by (cases "dec n") auto
  then have "isdigit c" using dec_isdigit [of c n] by simp
  then have "\<not> isspace c" "c \<noteq> CHR ''-''" "c \<noteq> CHR ''+''" by (auto simp: isspace_def isdigit_def)
  moreover have "digits_value 0 (dec n @ r) = n"
    using digits_value_append [of "dec n" 0 r] dec_isdigit digits_value_dec digits_value_stop [OF assms] by simp
  ultimately show ?thesis using cs by (simp add: atol_def)
qed

lemma atol_dec [simp]: "atol (dec n) = int n"
  using atol_dec_append [of "[]" n] by simp

lemma atol_pad [simp]: "atol (pad w s) = atol s"
proof -
  have "dropWhile isspace (replicate k SPACE @ s) = dropWhile isspace s" for k
    by (induction k) (auto simp: isspace_def)
  then show ?thesis by (simp add: atol_def pad_def)
qed

lemma length_dec: "0 < k \<Longrightarrow> n < 10 ^ k \<Longrightarrow> length (dec n) \<le> k"
proof (induction k arbitrary: n)
  case 0
  then show ?case by simp
next
  case (Suc k)
  show ?case
  proof (cases "n < 10")
    case True
    then show ?thesis by (simp add: dec_small)
  next
    case False
    with Suc.prems have "k \<noteq> 0" by (cases k) auto
    moreover have "n div 10 < 10 ^ k" using Suc.prems by (simp add: less_mult_imp_div_less mult.commute)
    ultimately have "length (dec (n div 10)) \<le> k" using Suc.IH by simp
    with False show ?thesis by (simp add: dec_big)
  qed
qed

lemma length_dec_mono: "m \<le> n \<Longrightarrow> length (dec m) \<le> length (dec n)"
proof (induction n arbitrary: m rule: dec_induct)
  case (small n)
  then show ?case by (simp add: dec_small)
next
  case (step n)
  show ?case
  proof (cases "m < 10")
    case True
    then show ?thesis by (simp add: dec_small Suc_le_eq)
  next
    case False
    with step.IH [OF div_le_mono [OF step.prems]] step.hyps show ?thesis by (simp add: dec_big)
  qed
qed

lemma length_pad: "length s \<le> w \<Longrightarrow> length (pad w s) = w"
  by (simp add: pad_def)

section \<open>Files\<close>

text \<open>Reading \<open>n\<close> bytes at an offset may give fewer; writing past the end fills with null bytes.\<close>

definition pread :: "string \<Rightarrow> nat \<Rightarrow> nat \<Rightarrow> string" where
  "pread f off n = take n (drop off f)"

definition pwrite :: "string \<Rightarrow> nat \<Rightarrow> string \<Rightarrow> string" where
  "pwrite f off s = take off f @ replicate (off - length f) NUL @ s @ drop (off + length s) f"

text \<open>\<open>f\<close> holds the bytes \<open>s\<close> at offset \<open>off\<close>.\<close>

definition holds_at :: "string \<Rightarrow> nat \<Rightarrow> string \<Rightarrow> bool" where
  "holds_at f off s \<longleftrightarrow> off + length s \<le> length f \<and> (\<forall>i < length s. f ! (off + i) = s ! i)"

lemma pread_holds: "holds_at f off s \<Longrightarrow> pread f off (length s) = s"
  by (auto simp: pread_def holds_at_def intro!: nth_equalityI)

lemma holds_at_append: "holds_at f off (s @ t) \<longleftrightarrow> holds_at f off s \<and> holds_at f (off + length s) t"
proof
  assume "holds_at f off (s @ t)"
  then have l: "off + length s + length t \<le> length f" and n: "\<And>i. i < length s + length t \<Longrightarrow> f ! (off + i) = (s @ t) ! i"
    by (auto simp: holds_at_def)
  have "f ! (off + i) = s ! i" if "i < length s" for i using n [of i] that by (simp add: nth_append)
  moreover have "f ! (off + length s + i) = t ! i" if "i < length t" for i
    using n [of "length s + i"] that by (simp add: nth_append add.assoc)
  ultimately show "holds_at f off s \<and> holds_at f (off + length s) t" using l by (simp add: holds_at_def)
next
  assume h: "holds_at f off s \<and> holds_at f (off + length s) t"
  have "f ! (off + i) = (s @ t) ! i" if "i < length s + length t" for i
  proof (cases "i < length s")
    case True
    with h show ?thesis by (simp add: holds_at_def nth_append)
  next
    case False
    with that have "i - length s < length t" "off + length s + (i - length s) = off + i" by auto
    with h have "f ! (off + i) = t ! (i - length s)" unfolding holds_at_def by metis
    with False show ?thesis by (simp add: nth_append)
  qed
  with h show "holds_at f off (s @ t)" by (simp add: holds_at_def)
qed

lemma length_pwrite: "off \<le> length f \<Longrightarrow> length (pwrite f off s) = max (length f) (off + length s)"
  by (simp add: pwrite_def max_def)

lemma nth_pwrite:
  assumes "off \<le> length f" "i < length (pwrite f off s)"
  shows "pwrite f off s ! i = (if off \<le> i \<and> i < off + length s then s ! (i - off) else f ! i)"
  using assms by (auto simp: pwrite_def nth_append min_def)

lemma holds_at_pwrite: "off \<le> length f \<Longrightarrow> holds_at (pwrite f off s) off s"
  by (simp add: holds_at_def nth_pwrite length_pwrite)

lemma holds_at_frame:
  assumes "holds_at f o' t" "off \<le> length f" "o' + length t \<le> off \<or> off + length s \<le> o'"
  shows "holds_at (pwrite f off s) o' t"
  using assms by (auto simp: holds_at_def nth_pwrite length_pwrite)

text \<open>Writing what is there already, and writing at the end.\<close>

lemma pwrite_same:
  assumes "holds_at f off s"
  shows "pwrite f off s = f"
proof (rule nth_equalityI)
  show l: "length (pwrite f off s) = length f" using assms by (simp add: length_pwrite holds_at_def)
  have at: "s ! (i - off) = f ! i" if "off \<le> i" "i < off + length s" for i
  proof -
    have "i - off < length s" "off + (i - off) = i" using that by auto
    then show ?thesis using assms by (metis holds_at_def)
  qed
  show "pwrite f off s ! i = f ! i" if "i < length (pwrite f off s)" for i
    using that at assms by (auto simp: nth_pwrite holds_at_def)
qed

lemma pwrite_end: "pwrite f (length f) s = f @ s"
  by (simp add: pwrite_def)

lemma holds_at_end: "holds_at f off s \<Longrightarrow> holds_at (f @ t) off s"
  by (auto simp: holds_at_def nth_append)

end
