(* ===== verification/Db.thy ===== *)
theory Db
  imports Cstring
begin

text \<open>
  The key and data base of \<open>extra_lib/apue.3e/db/db.c\<close>: an index file with a free list pointer, a
  table of hash chain pointers and index records linked by offset, and a data file. Both files are
  lists of bytes, and every number in the index file is decimal text, as the code writes it with
  \<open>sprintf\<close> and reads it with \<open>atol\<close>. The code is modelled for one process at a time: the record locks
  are granted, and an \<open>err_dump\<close> or \<open>err_quit\<close> is the outcome \<open>Dies\<close>. A write past the end of a
  buffer is \<open>Dies\<close> as well. \<open>Db_Rep\<close>, \<open>Db_Lists\<close>, \<open>Db_Correct\<close> and \<open>Db_Spec\<close> have the proofs.
\<close>

section \<open>Constants and the handle\<close>

definition IDXLEN_SZ :: nat where "IDXLEN_SZ = 4"
definition PTR_SZ :: nat where "PTR_SZ = 7"
definition PTR_MAX :: int where "PTR_MAX = 9999999"
definition NHASH_DEF :: nat where "NHASH_DEF = 137"
definition FREE_OFF :: nat where "FREE_OFF = 0"
definition HASH_OFF :: nat where "HASH_OFF = PTR_SZ"
definition IDXLEN_MIN :: int where "IDXLEN_MIN = 6"
definition IDXLEN_MAX :: int where "IDXLEN_MAX = 1024"
definition DATLEN_MIN :: int where "DATLEN_MIN = 2"
definition DATLEN_MAX :: int where "DATLEN_MAX = 1024"

abbreviation SEP :: char where "SEP \<equiv> CHR '':''"

lemmas db_consts = IDXLEN_SZ_def PTR_SZ_def PTR_MAX_def NHASH_DEF_def FREE_OFF_def HASH_OFF_def
  IDXLEN_MIN_def IDXLEN_MAX_def DATLEN_MIN_def DATLEN_MAX_def

text \<open>
  The handle with the two files it has open, the file offset of the index file's descriptor, and
  the counters \<open>delok\<close>, \<open>delerr\<close>, \<open>fetchok\<close>, \<open>fetcherr\<close>, \<open>nextrec\<close>, \<open>stor1\<close> to \<open>stor4\<close> and \<open>storerr\<close>.
\<close>

record db =
  db_idxfd :: bool
  db_datfd :: bool
  db_idx :: string
  db_dat :: string
  db_pos :: nat
  db_idxbuf :: string
  db_datbuf :: string
  db_idxoff :: nat
  db_idxlen :: nat
  db_datoff :: nat
  db_datlen :: nat
  db_ptrval :: int
  db_ptroff :: nat
  db_chainoff :: nat
  db_hashoff :: nat
  db_nhash :: nat
  cnt_delok :: nat
  cnt_delerr :: nat
  cnt_fetchok :: nat
  cnt_fetcherr :: nat
  cnt_nextrec :: nat
  cnt_stor1 :: nat
  cnt_stor2 :: nat
  cnt_stor3 :: nat
  cnt_stor4 :: nat
  cnt_storerr :: nat

text \<open>A computation that may not end (\<open>None\<close>) or may end the process.\<close>

type_synonym 'a run = "'a outcome option"

fun bind_run :: "'a run \<Rightarrow> ('a \<Rightarrow> 'b run) \<Rightarrow> 'b run" where
  "bind_run (Some (Returns x)) f = f x"
| "bind_run (Some (Dies m)) f = Some (Dies m)"
| "bind_run None f = None"

section \<open>Pointers and index records\<close>

definition db_readptr :: "db \<Rightarrow> int \<Rightarrow> (int \<times> db) outcome" where
  "db_readptr db offset =
     (if offset < 0 then Dies ''_db_readptr: lseek error''
      else
        let s = pread (db_idx db) (nat offset) PTR_SZ in
        if length s \<noteq> PTR_SZ then Dies ''_db_readptr: read error''
        else Returns (atol (cstr s), db\<lparr>db_pos := nat offset + PTR_SZ\<rparr>))"

definition db_writeptr :: "db \<Rightarrow> nat \<Rightarrow> int \<Rightarrow> db outcome" where
  "db_writeptr db offset ptrval =
     (if ptrval < 0 \<or> ptrval > PTR_MAX then Dies ''_db_writeptr: invalid ptr''
      else Returns (db\<lparr>db_idx := pwrite (db_idx db) offset (pad PTR_SZ (dec (nat ptrval))),
                       db_pos := offset + PTR_SZ\<rparr>))"

text \<open>
  The parsing half of \<open>_db_readidx\<close>: \<open>rest\<close> is the record after its two numbers, with the newline.
  The result is the key, the data offset and the data length.
\<close>

definition db_parse :: "string \<Rightarrow> (string \<times> int \<times> int) outcome" where
  "db_parse rest =
     (if last rest \<noteq> NEWLINE then Dies ''_db_readidx: missing newline''
      else
        let s = cstr (butlast rest) in
        if SEP \<notin> set s then Dies ''_db_readidx: missing first separator''
        else
          let key = takeWhile (\<lambda>c. c \<noteq> SEP) s; s1 = tl (dropWhile (\<lambda>c. c \<noteq> SEP) s) in
          if SEP \<notin> set s1 then Dies ''_db_readidx: missing second separator''
          else
            let o1 = takeWhile (\<lambda>c. c \<noteq> SEP) s1; s2 = tl (dropWhile (\<lambda>c. c \<noteq> SEP) s1) in
            if SEP \<in> set s2 then Dies ''_db_readidx: too many separators''
            else if atol o1 < 0 then Dies ''_db_readidx: starting offset < 0''
            else if atol s2 \<le> 0 \<or> atol s2 > DATLEN_MAX then Dies ''_db_readidx: invalid length''
            else Returns (key, atol o1, atol s2))"

text \<open>
  \<open>_db_readidx\<close>; an offset of 0 reads at the current file offset, where the end of the file gives
  \<open>-1\<close>. The lengths are unsigned, so a negative one is too large.
\<close>

definition db_readidx :: "db \<Rightarrow> int \<Rightarrow> (int \<times> db) outcome" where
  "db_readidx db offset =
     (if offset < 0 then Dies ''_db_readidx: lseek error''
      else
        let idxoff = (if offset = 0 then db_pos db else nat offset);
            hd = pread (db_idx db) idxoff (PTR_SZ + IDXLEN_SZ) in
        if length hd \<noteq> PTR_SZ + IDXLEN_SZ
        then (if hd = [] \<and> offset = 0 then Returns (- 1, db\<lparr>db_idxoff := idxoff\<rparr>)
              else Dies ''_db_readidx: readv error'')
        else
          let ptrval = atol (cstr (take PTR_SZ hd)); idxlen = atol (cstr (drop PTR_SZ hd)) in
          if idxlen < IDXLEN_MIN \<or> idxlen > IDXLEN_MAX then Dies ''_db_readidx: invalid length''
          else
            let rest = pread (db_idx db) (idxoff + PTR_SZ + IDXLEN_SZ) (nat idxlen) in
            if length rest \<noteq> nat idxlen then Dies ''_db_readidx: read error''
            else bind_outcome (db_parse rest) (\<lambda>(key, datoff, datlen).
              Returns (ptrval, db\<lparr>db_idxoff := idxoff, db_ptrval := ptrval, db_idxlen := nat idxlen,
                db_idxbuf := key, db_datoff := nat datoff, db_datlen := nat datlen,
                db_pos := idxoff + PTR_SZ + IDXLEN_SZ + nat idxlen\<rparr>)))"

section \<open>Data records, writing\<close>

definition db_readdat :: "db \<Rightarrow> (string \<times> db) outcome" where
  "db_readdat db =
     (let s = pread (db_dat db) (db_datoff db) (db_datlen db) in
      if length s \<noteq> db_datlen db then Dies ''_db_readdat: read error''
      else if last s \<noteq> NEWLINE then Dies ''_db_readdat: missing newline''
      else Returns (cstr (butlast s), db\<lparr>db_datbuf := butlast s\<rparr>))"

text \<open>Writing at an offset, or (\<open>None\<close>) at the end of the file.\<close>

definition db_writedat :: "db \<Rightarrow> string \<Rightarrow> nat option \<Rightarrow> db" where
  "db_writedat db data whence =
     (let datoff = (case whence of None \<Rightarrow> length (db_dat db) | Some o1 \<Rightarrow> o1) in
      db\<lparr>db_datoff := datoff, db_datlen := length data + 1,
         db_dat := pwrite (db_dat db) datoff (data @ [NEWLINE])\<rparr>)"

definition idx_body :: "string \<Rightarrow> nat \<Rightarrow> nat \<Rightarrow> string" where
  "idx_body key datoff datlen = key @ [SEP] @ dec datoff @ [SEP] @ dec datlen @ [NEWLINE]"

text \<open>
  \<open>_db_writeidx\<close>: the record is printed into \<open>idxbuf\<close>, which has room for \<open>IDXLEN_MAX + 2\<close>
  characters with the null byte, before its length is checked.
\<close>

definition db_writeidx :: "db \<Rightarrow> string \<Rightarrow> nat option \<Rightarrow> int \<Rightarrow> db outcome" where
  "db_writeidx db key whence ptrval =
     (if ptrval < 0 \<or> ptrval > PTR_MAX then Dies ''_db_writeidx: invalid ptr''
      else
        let body = idx_body key (db_datoff db) (db_datlen db); len = int (length body) in
        if len + 1 > IDXLEN_MAX + 2 then Dies ''_db_writeidx: idxbuf overflow''
        else if len < IDXLEN_MIN \<or> len > IDXLEN_MAX then Dies ''_db_writeidx: invalid length''
        else
          let idxoff = (case whence of None \<Rightarrow> length (db_idx db) | Some o1 \<Rightarrow> o1);
              s = pad PTR_SZ (dec (nat ptrval)) @ pad IDXLEN_SZ (dec (nat len)) @ body in
          Returns (db\<lparr>db_ptrval := ptrval, db_idxbuf := body, db_idxoff := idxoff,
                      db_idx := pwrite (db_idx db) idxoff s, db_pos := idxoff + length s\<rparr>))"

section \<open>Searching\<close>

text \<open>The characters of the key are signed, and the sum is unsigned and wraps around.\<close>

definition schar :: "char \<Rightarrow> int" where
  "schar c = (let n = int (of_char c :: nat) in if n < 128 then n else n - 256)"

fun hash_loop :: "64 word \<Rightarrow> int \<Rightarrow> string \<Rightarrow> 64 word" where
  "hash_loop hval i [] = hval"
| "hash_loop hval i (c # cs) = hash_loop (hval + of_int (schar c * i)) (i + 1) cs"

definition db_hash :: "db \<Rightarrow> string \<Rightarrow> nat" where
  "db_hash db key = unat (hash_loop 0 1 key) mod db_nhash db"

partial_function (option) db_find :: "db \<Rightarrow> string \<Rightarrow> int \<Rightarrow> (int \<times> db) run" where
  "db_find db key offset =
     (if offset = 0 then Some (Returns (0, db))
      else case db_readidx db offset of
             Dies m \<Rightarrow> Some (Dies m)
           | Returns (nextoffset, db1) \<Rightarrow>
               if db_idxbuf db1 = key then Some (Returns (offset, db1))
               else db_find (db1\<lparr>db_ptroff := nat offset\<rparr>) key nextoffset)"

declare db_find.simps [code]

definition db_find_and_lock :: "db \<Rightarrow> string \<Rightarrow> (int \<times> db) run" where
  "db_find_and_lock db key =
     (let chainoff = db_hash db key * PTR_SZ + db_hashoff db;
          db1 = db\<lparr>db_chainoff := chainoff, db_ptroff := chainoff\<rparr> in
      bind_run (Some (db_readptr db1 (int chainoff))) (\<lambda>(offset, db2).
      bind_run (db_find db2 key offset) (\<lambda>(offset, db3).
        Some (Returns (if offset = 0 then - 1 else 0, db3)))))"

text \<open>The search of the free list for a record of the same key and data length.\<close>

partial_function (option) db_findfree_loop ::
  "db \<Rightarrow> nat \<Rightarrow> nat \<Rightarrow> nat \<Rightarrow> int \<Rightarrow> (nat \<times> int \<times> db) run" where
  "db_findfree_loop db keylen datlen saveoffset offset =
     (if offset = 0 then Some (Returns (saveoffset, 0, db))
      else case db_readidx db offset of
             Dies m \<Rightarrow> Some (Dies m)
           | Returns (nextoffset, db1) \<Rightarrow>
               if length (db_idxbuf db1) = keylen \<and> db_datlen db1 = datlen
               then Some (Returns (saveoffset, offset, db1))
               else db_findfree_loop db1 keylen datlen (nat offset) nextoffset)"

declare db_findfree_loop.simps [code]

definition db_findfree :: "db \<Rightarrow> nat \<Rightarrow> nat \<Rightarrow> (int \<times> db) run" where
  "db_findfree db keylen datlen =
     bind_run (Some (db_readptr db (int FREE_OFF))) (\<lambda>(offset, db1).
     bind_run (db_findfree_loop db1 keylen datlen FREE_OFF offset) (\<lambda>(saveoffset, offset, db2).
       if offset = 0 then Some (Returns (- 1, db2))
       else bind_run (Some (db_writeptr db2 saveoffset (db_ptrval db2))) (\<lambda>db3. Some (Returns (0, db3)))))"

section \<open>The operations\<close>

definition db_fetch :: "db \<Rightarrow> string \<Rightarrow> (string option \<times> db) run" where
  "db_fetch db key =
     bind_run (db_find_and_lock db key) (\<lambda>(r, db1).
       if r < 0 then Some (Returns (None, db1\<lparr>cnt_fetcherr := cnt_fetcherr db1 + 1\<rparr>))
       else bind_run (Some (db_readdat db1)) (\<lambda>(s, db2).
              Some (Returns (Some s, db2\<lparr>cnt_fetchok := cnt_fetchok db2 + 1\<rparr>))))"

definition db_dodelete :: "db \<Rightarrow> db outcome" where
  "db_dodelete db =
     (let db1 = db\<lparr>db_datbuf := replicate (db_datlen db - 1) SPACE,
                   db_idxbuf := replicate (length (db_idxbuf db)) SPACE\<rparr>;
          db2 = db_writedat db1 (db_datbuf db1) (Some (db_datoff db1)) in
      bind_outcome (db_readptr db2 (int FREE_OFF)) (\<lambda>(freeptr, db3).
      let saveptr = db_ptrval db3 in
      bind_outcome (db_writeidx db3 (db_idxbuf db3) (Some (db_idxoff db3)) freeptr) (\<lambda>db4.
      bind_outcome (db_writeptr db4 FREE_OFF (int (db_idxoff db4))) (\<lambda>db5.
      db_writeptr db5 (db_ptroff db5) saveptr))))"

definition db_delete :: "db \<Rightarrow> string \<Rightarrow> (int \<times> db) run" where
  "db_delete db key =
     bind_run (db_find_and_lock db key) (\<lambda>(r, db1).
       if r = 0
       then bind_run (Some (db_dodelete db1)) (\<lambda>db2. Some (Returns (0, db2\<lparr>cnt_delok := cnt_delok db2 + 1\<rparr>)))
       else Some (Returns (- 1, db1\<lparr>cnt_delerr := cnt_delerr db1 + 1\<rparr>)))"

datatype db_flag = DB_INSERT | DB_REPLACE | DB_STORE | DB_OTHER

text \<open>Linking the record written at \<open>whence\<close> to the front of its hash chain.\<close>

definition db_write_record :: "db \<Rightarrow> string \<Rightarrow> string \<Rightarrow> nat option \<Rightarrow> nat option \<Rightarrow> int \<Rightarrow> db outcome" where
  "db_write_record db key data dwhence iwhence ptrval =
     bind_outcome (db_writeidx (db_writedat db data dwhence) key iwhence ptrval) (\<lambda>db1.
       db_writeptr db1 (db_chainoff db1) (int (db_idxoff db1)))"

text \<open>The branch of \<open>db_store\<close> for a key that is not in the database.\<close>

definition db_store_new :: "db \<Rightarrow> string \<Rightarrow> string \<Rightarrow> (int \<times> db) run" where
  "db_store_new db key data =
     bind_run (Some (db_readptr db (int (db_chainoff db)))) (\<lambda>(ptrval, db1).
     bind_run (db_findfree db1 (length key) (length data + 1)) (\<lambda>(r, db2).
       if r < 0
       then bind_run (Some (db_write_record db2 key data None None ptrval)) (\<lambda>db3.
              Some (Returns (0, db3\<lparr>cnt_stor1 := cnt_stor1 db3 + 1\<rparr>)))
       else bind_run (Some (db_write_record db2 key data (Some (db_datoff db2)) (Some (db_idxoff db2)) ptrval)) (\<lambda>db3.
              Some (Returns (0, db3\<lparr>cnt_stor2 := cnt_stor2 db3 + 1\<rparr>)))))"

text \<open>The branch for a key that is there.\<close>

definition db_store_found :: "db \<Rightarrow> string \<Rightarrow> string \<Rightarrow> (int \<times> db) outcome" where
  "db_store_found db key data =
     (if length data + 1 \<noteq> db_datlen db
      then bind_outcome (db_dodelete db) (\<lambda>db1.
           bind_outcome (db_readptr db1 (int (db_chainoff db1))) (\<lambda>(ptrval, db2).
           bind_outcome (db_write_record db2 key data None None ptrval) (\<lambda>db3.
             Returns (0, db3\<lparr>cnt_stor3 := cnt_stor3 db3 + 1\<rparr>))))
      else let db1 = db_writedat db data (Some (db_datoff db)) in
           Returns (0, db1\<lparr>cnt_stor4 := cnt_stor4 db1 + 1\<rparr>))"

definition db_store :: "db \<Rightarrow> string \<Rightarrow> string \<Rightarrow> db_flag \<Rightarrow> (int \<times> db) run" where
  "db_store db key data flag =
     (if flag = DB_OTHER then Some (Returns (- 1, db))
      else if int (length data + 1) < DATLEN_MIN \<or> int (length data + 1) > DATLEN_MAX
      then Some (Dies ''db_store: invalid data length'')
      else bind_run (db_find_and_lock db key) (\<lambda>(r, db1).
        if r < 0
        then (if flag = DB_REPLACE
              then Some (Returns (- 1, db1\<lparr>cnt_storerr := cnt_storerr db1 + 1\<rparr>))
              else db_store_new db1 key data)
        else (if flag = DB_INSERT
              then Some (Returns (1, db1\<lparr>cnt_storerr := cnt_storerr db1 + 1\<rparr>))
              else Some (db_store_found db1 key data))))"

definition db_rewind :: "db \<Rightarrow> db" where
  "db_rewind db = (let o1 = (db_nhash db + 1) * PTR_SZ + 1 in db\<lparr>db_idxoff := o1, db_pos := o1\<rparr>)"

text \<open>\<open>db_nextrec\<close> skips records with blank keys; the result is the key and the data.\<close>

partial_function (option) db_nextrec :: "db \<Rightarrow> ((string \<times> string) option \<times> db) run" where
  "db_nextrec db =
     (case db_readidx db 0 of
        Dies m \<Rightarrow> Some (Dies m)
      | Returns (r, db1) \<Rightarrow>
          if r < 0 then Some (Returns (None, db1))
          else if list_all (\<lambda>c. c = SPACE) (db_idxbuf db1) then db_nextrec db1
          else Some (bind_outcome (db_readdat db1) (\<lambda>(s, db2).
                 Returns (Some (db_idxbuf db2, s), db2\<lparr>cnt_nextrec := cnt_nextrec db2 + 1\<rparr>))))"

declare db_nextrec.simps [code]

section \<open>Opening and closing\<close>

text \<open>The four allocations of \<open>_db_alloc\<close>: the structure, the name and the two buffers.\<close>

definition db_alloc :: "bool \<Rightarrow> bool \<Rightarrow> bool \<Rightarrow> bool \<Rightarrow> db outcome" where
  "db_alloc a1 a2 a3 a4 =
     (if \<not> a1 then Dies ''_db_alloc: calloc error for DB''
      else if \<not> a2 then Dies ''_db_alloc: malloc error for name''
      else if \<not> a3 then Dies ''_db_alloc: malloc error for index buffer''
      else if \<not> a4 then Dies ''_db_alloc: malloc error for data buffer''
      else Returns \<lparr>db_idxfd = False, db_datfd = False, db_idx = [], db_dat = [], db_pos = 0,
        db_idxbuf = [], db_datbuf = [], db_idxoff = 0, db_idxlen = 0, db_datoff = 0, db_datlen = 0,
        db_ptrval = 0, db_ptroff = 0, db_chainoff = 0, db_hashoff = 0, db_nhash = 0,
        cnt_delok = 0, cnt_delerr = 0, cnt_fetchok = 0, cnt_fetcherr = 0, cnt_nextrec = 0,
        cnt_stor1 = 0, cnt_stor2 = 0, cnt_stor3 = 0, cnt_stor4 = 0, cnt_storerr = 0\<rparr>)"

definition db_free :: "db \<Rightarrow> db" where
  "db_free db = db\<lparr>db_idxfd := False, db_datfd := False\<rparr>"

definition db_close :: "db \<Rightarrow> db" where
  "db_close h = db_free h"

text \<open>
  \<open>db_open\<close> with the flags \<open>O_CREAT\<close> and \<open>O_TRUNC\<close>; \<open>oi\<close> and \<open>od\<close> are the files the two \<open>open\<close> calls
  give, or \<open>None\<close>. \<open>Returns None\<close> is a null handle.
\<close>

definition db_open :: "bool \<Rightarrow> bool \<Rightarrow> string option \<Rightarrow> string option \<Rightarrow> db option outcome" where
  "db_open creat trunc oi od =
     bind_outcome (db_alloc True True True True) (\<lambda>db.
       let db1 = db\<lparr>db_nhash := NHASH_DEF, db_hashoff := HASH_OFF, db_idxfd := (oi \<noteq> None), db_datfd := (od \<noteq> None)\<rparr> in
       case (oi, od) of
         (Some idx, Some dat) \<Rightarrow>
           let idx1 = (if trunc then [] else idx); dat1 = (if trunc then [] else dat);
               idx2 = (if creat \<and> trunc \<and> idx1 = []
                       then concat (replicate (NHASH_DEF + 1) (pad PTR_SZ (dec 0))) @ [NEWLINE] else idx1) in
           Returns (Some (db_rewind (db1\<lparr>db_idx := idx2, db_dat := dat1\<rparr>)))
       | _ \<Rightarrow> (let closed = db_free db1 in Returns None))"

end
