(* ===== verification/Db_Rep.thy ===== *)
theory Db_Rep
  imports Db
begin

text \<open>
  The layout of the two files of the database: which bytes hold which pointer, index record and
  data record, what the reading functions return on such files, and what the writing functions do
  to the layout.
\<close>

section \<open>Records\<close>

record body =
  bo_key :: string
  bo_off :: nat
  bo_dat :: string

definition body_bytes :: "body \<Rightarrow> string" where
  "body_bytes b = idx_body (bo_key b) (bo_off b) (length (bo_dat b) + 1)"

definition tail_bytes :: "body \<Rightarrow> string" where
  "tail_bytes b = pad IDXLEN_SZ (dec (length (body_bytes b))) @ body_bytes b"

definition ptr_bytes :: "nat \<Rightarrow> string" where
  "ptr_bytes n = pad PTR_SZ (dec n)"

abbreviation ptr_max :: nat where "ptr_max \<equiv> 9999999"

definition rsize :: "body \<Rightarrow> nat" where
  "rsize b = 11 + length (body_bytes b)"

definition valid_body :: "body \<Rightarrow> bool" where
  "valid_body b \<longleftrightarrow> NUL \<notin> set (bo_key b) \<and> SEP \<notin> set (bo_key b) \<and> NUL \<notin> set (bo_dat b) \<and>
     6 \<le> length (body_bytes b) \<and> length (body_bytes b) \<le> 1024 \<and>
     1 \<le> length (bo_dat b) \<and> length (bo_dat b) < 1024"

lemma length_ptr_bytes [simp]: "v \<le> ptr_max \<Longrightarrow> length (ptr_bytes v) = 7"
  using length_dec [of 7 v] by (simp add: ptr_bytes_def PTR_SZ_def length_pad)

lemma length_tail_bytes:
  assumes "valid_body b"
  shows "length (tail_bytes b) = 4 + length (body_bytes b)"
  using assms length_dec [of 4 "length (body_bytes b)"]
  by (simp add: tail_bytes_def IDXLEN_SZ_def length_pad valid_body_def)

lemma pad_set: "NUL \<notin> set (pad w (dec n))"
  by (simp add: pad_def)

lemma atol_ptr_bytes: "atol (cstr (ptr_bytes n)) = int n"
  by (simp add: ptr_bytes_def pad_set)

text \<open>Printing a record and parsing it again.\<close>

lemma sep_split:
  assumes "SEP \<notin> set xs"
  shows "takeWhile (\<lambda>c. c \<noteq> SEP) (xs @ SEP # ys) = xs" "dropWhile (\<lambda>c. c \<noteq> SEP) (xs @ SEP # ys) = SEP # ys"
  using assms by (auto simp: takeWhile_append2 dropWhile_append2 takeWhile_append dropWhile_append)

lemma idx_body_ends:
  assumes "NUL \<notin> set key"
  shows "last (idx_body key off len) = NEWLINE"
    "cstr (butlast (idx_body key off len)) = key @ SEP # dec off @ SEP # dec len"
proof -
  let ?s = "key @ SEP # dec off @ SEP # dec len"
  have "idx_body key off len = ?s @ [NEWLINE]" by (simp add: idx_body_def)
  then have ends: "last (idx_body key off len) = NEWLINE" "butlast (idx_body key off len) = ?s"
    by (simp_all only: last_snoc butlast_snoc)
  show "last (idx_body key off len) = NEWLINE" by (rule ends)
  show "cstr (butlast (idx_body key off len)) = ?s" unfolding ends using assms by (intro cstr_id) simp
qed

lemma parse_idx_body:
  assumes "NUL \<notin> set key" "SEP \<notin> set key" "1 \<le> len" "len \<le> 1024"
  shows "db_parse (idx_body key off len) = Returns (key, int off, int len)"
  using assms by (simp add: db_parse_def Let_def idx_body_ends sep_split DATLEN_MAX_def)

lemma parse_separator:
  assumes "NUL \<notin> set key" "SEP \<in> set key"
  shows "db_parse (idx_body key off len) = Dies ''_db_readidx: too many separators''"
proof -
  obtain k1 k2 where key: "key = k1 @ SEP # k2" "SEP \<notin> set k1" using split_list_first [OF assms(2)] by blast
  show ?thesis
  proof (cases "SEP \<in> set k2")
    case False
    then show ?thesis using assms(1) key by (simp add: db_parse_def Let_def idx_body_ends sep_split)
  next
    case True
    then obtain k3 k4 where "k2 = k3 @ SEP # k4" "SEP \<notin> set k3" using split_list_first by metis
    then show ?thesis using assms(1) key by (simp add: db_parse_def Let_def idx_body_ends sep_split)
  qed
qed

lemma db_parse_body:
  assumes "valid_body b"
  shows "db_parse (body_bytes b) = Returns (bo_key b, int (bo_off b), int (length (bo_dat b) + 1))"
  unfolding body_bytes_def by (rule parse_idx_body) (use assms in \<open>simp_all add: valid_body_def\<close>)

section \<open>Layout\<close>

text \<open>Records one behind the other, from an offset to the end of the file.\<close>

fun tiles :: "(nat \<Rightarrow> nat) \<Rightarrow> nat \<Rightarrow> nat list \<Rightarrow> nat \<Rightarrow> bool" where
  "tiles sz s [] e \<longleftrightarrow> s = e"
| "tiles sz s (r # rs) e \<longleftrightarrow> r = s \<and> tiles sz (s + sz r) rs e"

lemma tiles_append: "tiles sz s rs e \<Longrightarrow> tiles sz s (rs @ [e]) (e + sz e)"
  by (induction rs arbitrary: s) auto

lemma tiles_cong: "(\<And>r. r \<in> set rs \<Longrightarrow> sz r = sz' r) \<Longrightarrow> tiles sz s rs e = tiles sz' s rs e"
  by (induction rs arbitrary: s) auto

lemma tiles_bounds: "tiles sz s rs e \<Longrightarrow> s \<le> e \<and> (\<forall>r\<in>set rs. s \<le> r \<and> r + sz r \<le> e)"
  by (induction rs arbitrary: s) fastforce+

lemma tiles_sep: "tiles sz s rs e \<Longrightarrow> r \<in> set rs \<Longrightarrow> r' \<in> set rs \<Longrightarrow> r < r' \<Longrightarrow> r + sz r \<le> r'"
proof (induction rs arbitrary: s)
  case Nil
  then show ?case by simp
next
  case (Cons a rs)
  have "\<forall>x\<in>set rs. a + sz a \<le> x" using Cons.prems(1) tiles_bounds by fastforce
  with Cons show ?case by auto
qed

definition heads :: "nat set" where
  "heads = (\<lambda>k. 7 * k) ` {..137}"

definition layout :: "string \<Rightarrow> string \<Rightarrow> (nat \<Rightarrow> nat) \<Rightarrow> (nat \<Rightarrow> body) \<Rightarrow> nat list \<Rightarrow> bool" where
  "layout idx dat P B rs \<longleftrightarrow>
     (\<forall>c\<in>heads \<union> set rs. holds_at idx c (ptr_bytes (P c)) \<and> P c \<le> ptr_max) \<and>
     tiles (\<lambda>r. rsize (B r)) 967 rs (length idx) \<and>
     (\<forall>r\<in>set rs. valid_body (B r) \<and> holds_at idx (r + 7) (tail_bytes (B r)) \<and>
        holds_at dat (bo_off (B r)) (bo_dat (B r) @ [NEWLINE])) \<and>
     (\<forall>r\<in>set rs. \<forall>q\<in>set rs. r \<noteq> q \<longrightarrow>
        bo_off (B r) + length (bo_dat (B r)) + 1 \<le> bo_off (B q) \<or>
        bo_off (B q) + length (bo_dat (B q)) + 1 \<le> bo_off (B r))"

lemma layoutD:
  assumes "layout idx dat P B rs"
  shows "c \<in> heads \<or> c \<in> set rs \<Longrightarrow> holds_at idx c (ptr_bytes (P c))"
    "c \<in> heads \<or> c \<in> set rs \<Longrightarrow> P c \<le> ptr_max"
    "tiles (\<lambda>r. rsize (B r)) 967 rs (length idx)"
    "r \<in> set rs \<Longrightarrow> valid_body (B r)"
    "r \<in> set rs \<Longrightarrow> holds_at idx (r + 7) (tail_bytes (B r))"
    "r \<in> set rs \<Longrightarrow> holds_at dat (bo_off (B r)) (bo_dat (B r) @ [NEWLINE])"
    "r \<in> set rs \<Longrightarrow> q \<in> set rs \<Longrightarrow> r \<noteq> q \<Longrightarrow>
        bo_off (B r) + length (bo_dat (B r)) + 1 \<le> bo_off (B q) \<or>
        bo_off (B q) + length (bo_dat (B q)) + 1 \<le> bo_off (B r)"
  using assms unfolding layout_def by blast+

lemma layoutI:
  assumes "\<And>c. c \<in> heads \<or> c \<in> set rs \<Longrightarrow> holds_at idx c (ptr_bytes (P c))"
    "\<And>c. c \<in> heads \<or> c \<in> set rs \<Longrightarrow> P c \<le> ptr_max"
    "tiles (\<lambda>r. rsize (B r)) 967 rs (length idx)"
    "\<And>r. r \<in> set rs \<Longrightarrow> valid_body (B r)"
    "\<And>r. r \<in> set rs \<Longrightarrow> holds_at idx (r + 7) (tail_bytes (B r))"
    "\<And>r. r \<in> set rs \<Longrightarrow> holds_at dat (bo_off (B r)) (bo_dat (B r) @ [NEWLINE])"
    "\<And>r q. r \<in> set rs \<Longrightarrow> q \<in> set rs \<Longrightarrow> r \<noteq> q \<Longrightarrow>
        bo_off (B r) + length (bo_dat (B r)) + 1 \<le> bo_off (B q) \<or>
        bo_off (B q) + length (bo_dat (B q)) + 1 \<le> bo_off (B r)"
  shows "layout idx dat P B rs"
  using assms unfolding layout_def by blast

text \<open>The pointers in the header end before the records begin.\<close>

lemma heads_sep: "c \<in> heads \<Longrightarrow> c + 7 \<le> 966"
  by (auto simp: heads_def)

lemma heads_apart: "c \<in> heads \<Longrightarrow> d \<in> heads \<Longrightarrow> c < d \<Longrightarrow> c + 7 \<le> d"
  by (auto simp: heads_def)

lemma layout_rec:
  assumes "layout idx dat P B rs" "r \<in> set rs"
  shows "967 \<le> r" "r + rsize (B r) \<le> length idx" "r \<notin> heads"
  using tiles_bounds [OF layoutD(3) [OF assms(1)]] assms(2) heads_sep [of r] by auto

text \<open>Two cells, one of them a record, do not overlap.\<close>

lemma layout_apart:
  assumes l: "layout idx dat P B rs" and c: "c \<in> heads \<or> c \<in> set rs" and r: "r \<in> set rs" and "c \<noteq> r"
  shows "c < r \<Longrightarrow> c + (if c \<in> heads then 7 else rsize (B c)) \<le> r" "r < c \<Longrightarrow> r + rsize (B r) \<le> c"
  using layout_rec [OF l] tiles_sep [OF layoutD(3) [OF l]] heads_sep [of c] c r by force+

section \<open>Reading\<close>

lemma pread_ptr:
  assumes "layout idx dat P B rs" "c \<in> heads \<or> c \<in> set rs"
  shows "pread idx c PTR_SZ = ptr_bytes (P c)"
  using pread_holds [OF layoutD(1) [OF assms]] layoutD(2) [OF assms] by (simp add: PTR_SZ_def)

lemma db_readptr_layout:
  assumes "layout (db_idx db) (db_dat db) P B rs" "c \<in> heads \<or> c \<in> set rs"
  shows "db_readptr db (int c) = Returns (int (P c), db\<lparr>db_pos := c + 7\<rparr>)"
  using pread_ptr [OF assms] layoutD(2) [OF assms]
  by (simp add: db_readptr_def Let_def atol_ptr_bytes) (simp add: PTR_SZ_def)

text \<open>The handle after reading the index record at \<open>r\<close>.\<close>

definition read_handle :: "db \<Rightarrow> (nat \<Rightarrow> nat) \<Rightarrow> (nat \<Rightarrow> body) \<Rightarrow> nat \<Rightarrow> db" where
  "read_handle db P B r =
     db\<lparr>db_idxoff := r, db_ptrval := int (P r), db_idxlen := length (body_bytes (B r)),
        db_idxbuf := bo_key (B r), db_datoff := bo_off (B r), db_datlen := length (bo_dat (B r)) + 1,
        db_pos := r + rsize (B r)\<rparr>"

lemma record_bytes:
  assumes l: "layout idx dat P B rs" and r: "r \<in> set rs"
  shows "holds_at idx r (ptr_bytes (P r) @ pad 4 (dec (length (body_bytes (B r)))))"
    "holds_at idx (11 + r) (body_bytes (B r))"
proof -
  have len: "length (ptr_bytes (P r)) = 7" using layoutD(2) [OF l] r by simp
  have "length (dec (length (body_bytes (B r)))) \<le> 4"
    using length_dec [of 4 "length (body_bytes (B r))"] layoutD(4) [OF l r] by (simp add: valid_body_def)
  then have pad: "length (pad 4 (dec (length (body_bytes (B r))))) = 4" by (rule length_pad)
  have "holds_at idx (r + 7) (pad 4 (dec (length (body_bytes (B r)))) @ body_bytes (B r))"
    using layoutD(5) [OF l r] by (simp add: tail_bytes_def IDXLEN_SZ_def)
  then have "holds_at idx (r + 7) (pad 4 (dec (length (body_bytes (B r)))))" "holds_at idx (r + 7 + 4) (body_bytes (B r))"
    by (simp_all only: holds_at_append pad)
  then show "holds_at idx r (ptr_bytes (P r) @ pad 4 (dec (length (body_bytes (B r)))))"
    "holds_at idx (11 + r) (body_bytes (B r))"
    using layoutD(1) [OF l, of r] r len by (simp_all add: holds_at_append)
qed

lemma db_readidx_layout:
  assumes l: "layout (db_idx db) (db_dat db) P B rs" and r: "r \<in> set rs"
    and k: "k = int r \<or> k = 0 \<and> db_pos db = r"
  shows "db_readidx db k = Returns (int (P r), read_handle db P B r)"
proof -
  let ?b = "B r"
  have v: "valid_body ?b" by (rule layoutD(4) [OF l r])
  have len: "length (ptr_bytes (P r)) = 7" using layoutD(2) [OF l] r by simp
  have "length (dec (length (body_bytes ?b))) \<le> 4"
    using length_dec [of 4 "length (body_bytes ?b)"] v by (simp add: valid_body_def)
  then have pad: "length (pad 4 (dec (length (body_bytes ?b)))) = 4" by (rule length_pad)
  have hd: "pread (db_idx db) r 11 = ptr_bytes (P r) @ pad 4 (dec (length (body_bytes ?b)))"
    using pread_holds [OF record_bytes(1) [OF l r]] len pad by simp
  have rest: "pread (db_idx db) (11 + r) (length (body_bytes ?b)) = body_bytes ?b"
    by (rule pread_holds [OF record_bytes(2) [OF l r]])
  have off: "(if k = 0 then db_pos db else nat k) = r" "\<not> k < 0" using k layout_rec(1) [OF l r] by auto
  have lens: "6 \<le> int (length (body_bytes ?b))" "int (length (body_bytes ?b)) \<le> 1024"
    using v by (simp_all add: valid_body_def)
  show ?thesis
    unfolding db_readidx_def Let_def off
    using lens
    by (simp add: db_consts hd len pad atol_ptr_bytes pad_set rest db_parse_body [OF v] off
        read_handle_def rsize_def del: of_nat_Suc)
qed

lemma db_readidx_end:
  assumes "db_pos db = length (db_idx db)"
  shows "db_readidx db 0 = Returns (- 1, db\<lparr>db_idxoff := length (db_idx db)\<rparr>)"
  using assms by (simp add: db_readidx_def Let_def pread_def db_consts)

lemma db_readdat_layout:
  assumes l: "layout (db_idx db) (db_dat db) P B rs" and r: "r \<in> set rs"
    and b: "db_datoff db = bo_off (B r)" "db_datlen db = length (bo_dat (B r)) + 1"
  shows "db_readdat db = Returns (bo_dat (B r), db\<lparr>db_datbuf := bo_dat (B r)\<rparr>)"
  using pread_holds [OF layoutD(6) [OF l r]] layoutD(4) [OF l r] b
  by (simp add: db_readdat_def valid_body_def)

section \<open>Writing\<close>

lemma rsize_pos: "11 \<le> rsize b"
  by (simp add: rsize_def)

lemma cells_apart_rec:
  assumes l: "layout idx dat P B rs" and c: "c \<in> heads \<or> c \<in> set rs" and r: "r \<in> set rs" and "c \<noteq> r"
  shows "c + 7 \<le> r \<or> r + rsize (B r) \<le> c"
proof (cases "c < r")
  case True
  with layout_apart(1) [OF l c r \<open>c \<noteq> r\<close>] rsize_pos [of "B c"] show ?thesis by (simp split: if_splits)
next
  case False
  with layout_apart(2) [OF l c r \<open>c \<noteq> r\<close>] \<open>c \<noteq> r\<close> show ?thesis by simp
qed

lemma cells_apart:
  assumes l: "layout idx dat P B rs" and c: "c \<in> heads \<or> c \<in> set rs" and d: "d \<in> heads \<or> d \<in> set rs" and "c \<noteq> d"
  shows "c + 7 \<le> d \<or> d + 7 \<le> c"
proof -
  consider "c \<in> heads" "d \<in> heads" | "d \<in> set rs" | "c \<in> set rs" using c d by blast
  then show ?thesis
  proof cases
    case 1
    with heads_apart [of c d] heads_apart [of d c] \<open>c \<noteq> d\<close> show ?thesis by linarith
  next
    case 2
    with cells_apart_rec [OF l c _ \<open>c \<noteq> d\<close>] rsize_pos [of "B d"] show ?thesis by linarith
  next
    case 3
    with cells_apart_rec [OF l d _ \<open>c \<noteq> d\<close> [symmetric]] rsize_pos [of "B c"] show ?thesis by linarith
  qed
qed

lemma cell_in_file:
  assumes l: "layout idx dat P B rs" and c: "c \<in> heads \<or> c \<in> set rs"
  shows "c + 7 \<le> length idx" "c \<le> length idx"
  using layoutD(1) [OF l c] layoutD(2) [OF l c] by (auto simp: holds_at_def)

lemma tail_end: "valid_body b \<Longrightarrow> r + 7 + length (tail_bytes b) = r + rsize b"
  by (simp add: length_tail_bytes rsize_def)

lemma layout_writeptr:
  assumes l: "layout idx dat P B rs" and c: "c \<in> heads \<or> c \<in> set rs" and v: "v \<le> ptr_max"
  shows "layout (pwrite idx c (ptr_bytes v)) dat (P(c := v)) B rs"
proof (rule layoutI)
  note len = cell_in_file [OF l c]
  have lw: "length (pwrite idx c (ptr_bytes v)) = length idx" using len v by (simp add: length_pwrite)
  show "holds_at (pwrite idx c (ptr_bytes v)) d (ptr_bytes ((P(c := v)) d))" if d: "d \<in> heads \<or> d \<in> set rs" for d
  proof (cases "d = c")
    case True
    then show ?thesis using holds_at_pwrite [OF len(2)] by simp
  next
    case False
    with cells_apart [OF l c d] v layoutD(2) [OF l d] holds_at_frame [OF layoutD(1) [OF l d] len(2), of "ptr_bytes v"]
    show ?thesis by auto
  qed
  show "(P(c := v)) d \<le> ptr_max" if "d \<in> heads \<or> d \<in> set rs" for d using that v layoutD(2) [OF l that] by simp
  show "tiles (\<lambda>r. rsize (B r)) 967 rs (length (pwrite idx c (ptr_bytes v)))" using layoutD(3) [OF l] lw by simp
  show "holds_at (pwrite idx c (ptr_bytes v)) (r + 7) (tail_bytes (B r))" if r: "r \<in> set rs" for r
  proof (rule holds_at_frame [OF layoutD(5) [OF l r] len(2)])
    show "r + 7 + length (tail_bytes (B r)) \<le> c \<or> c + length (ptr_bytes v) \<le> r + 7"
      using cells_apart_rec [OF l c r] v tail_end [OF layoutD(4) [OF l r], of r] by (cases "c = r") auto
  qed
qed (use layoutD(4,6,7) [OF l] in auto)

text \<open>A data record and its index record rewritten in place.\<close>

lemma layout_rewrite:
  assumes l: "layout idx dat P B rs" and r: "r \<in> set rs" and v: "v \<le> ptr_max" and b: "valid_body b"
    and same: "bo_off b = bo_off (B r)" "length (bo_dat b) = length (bo_dat (B r))" "length (bo_key b) = length (bo_key (B r))"
  shows "layout (pwrite idx r (ptr_bytes v @ tail_bytes b)) (pwrite dat (bo_off b) (bo_dat b @ [NEWLINE]))
    (P(r := v)) (B(r := b)) rs"
proof (rule layoutI)
  let ?idx = "pwrite idx r (ptr_bytes v @ tail_bytes b)" and ?dat = "pwrite dat (bo_off b) (bo_dat b @ [NEWLINE])"
  have size: "rsize b = rsize (B r)" using same by (simp add: rsize_def body_bytes_def idx_body_def)
  have len: "length (ptr_bytes v @ tail_bytes b) = rsize (B r)"
    using v length_tail_bytes [OF b] size by (simp add: rsize_def)
  have rin: "r + rsize (B r) \<le> length idx" "r \<le> length idx" using layout_rec(2) [OF l r] by auto
  have w: "holds_at ?idx r (ptr_bytes v)" "holds_at ?idx (r + 7) (tail_bytes b)"
    using holds_at_pwrite [OF rin(2), of "ptr_bytes v @ tail_bytes b"] v by (simp_all add: holds_at_append)
  have frame: "holds_at ?idx d t" if "holds_at idx d t" "d + length t \<le> r \<or> r + rsize (B r) \<le> d" for d t
    by (rule holds_at_frame [OF that(1) rin(2)]) (use that(2) in \<open>simp only: len\<close>)
  show "holds_at ?idx d (ptr_bytes ((P(r := v)) d))" if d: "d \<in> heads \<or> d \<in> set rs" for d
  proof (cases "d = r")
    case False
    with frame [OF layoutD(1) [OF l d]] cells_apart_rec [OF l d r] layoutD(2) [OF l d] show ?thesis by auto
  qed (use w(1) in simp)
  show "(P(r := v)) d \<le> ptr_max" if "d \<in> heads \<or> d \<in> set rs" for d using v layoutD(2) [OF l that] by simp
  have "length ?idx = length idx" using rin len by (simp add: length_pwrite)
  moreover have "tiles (\<lambda>q. rsize ((B(r := b)) q)) 967 rs e = tiles (\<lambda>q. rsize (B q)) 967 rs e" for e
    by (rule tiles_cong) (simp add: size)
  ultimately show "tiles (\<lambda>q. rsize ((B(r := b)) q)) 967 rs (length ?idx)" using layoutD(3) [OF l] by simp
  show "holds_at ?idx (q + 7) (tail_bytes ((B(r := b)) q))" if q: "q \<in> set rs" for q
  proof (cases "q = r")
    case False
    have "q + 7 + length (tail_bytes (B q)) \<le> r \<or> r + rsize (B r) \<le> q + 7"
      using layout_apart(2) [OF l _ q, of r] layout_apart(2) [OF l _ r, of q] q r False
      unfolding tail_end [OF layoutD(4) [OF l q]] by (cases "q < r") simp_all
    with frame [OF layoutD(5) [OF l q]] False show ?thesis by simp
  qed (use w(2) in simp)
  have din: "bo_off b + length (bo_dat b) + 1 \<le> length dat" "bo_off b \<le> length dat"
    using layoutD(6) [OF l r] same by (auto simp: holds_at_def)
  show "holds_at ?dat (bo_off ((B(r := b)) q)) (bo_dat ((B(r := b)) q) @ [NEWLINE])" if q: "q \<in> set rs" for q
  proof (cases "q = r")
    case True
    then show ?thesis using holds_at_pwrite [OF din(2)] by simp
  next
    case False
    with holds_at_frame [OF layoutD(6) [OF l q] din(2), of "bo_dat b @ [NEWLINE]"] layoutD(7) [OF l q r False] same
    show ?thesis by auto
  qed
  show "bo_off ((B(r := b)) p) + length (bo_dat ((B(r := b)) p)) + 1 \<le> bo_off ((B(r := b)) q) \<or>
      bo_off ((B(r := b)) q) + length (bo_dat ((B(r := b)) q)) + 1 \<le> bo_off ((B(r := b)) p)"
    if "p \<in> set rs" "q \<in> set rs" "p \<noteq> q" for p q
    using layoutD(7) [OF l that] same by auto
qed (use layoutD(4) [OF l] b in auto)

lemma layout_data:
  assumes l: "layout idx dat P B rs" and r: "r \<in> set rs" and d: "NUL \<notin> set d" "length d = length (bo_dat (B r))"
  shows "layout idx (pwrite dat (bo_off (B r)) (d @ [NEWLINE])) P (B(r := (B r)\<lparr>bo_dat := d\<rparr>)) rs"
proof -
  let ?b = "(B r)\<lparr>bo_dat := d\<rparr>"
  have same: "body_bytes ?b = body_bytes (B r)" "tail_bytes ?b = tail_bytes (B r)"
    using d by (simp_all add: tail_bytes_def body_bytes_def)
  have "valid_body ?b" using layoutD(4) [OF l r] d same by (simp add: valid_body_def)
  from layout_rewrite [OF l r layoutD(2) [OF l, of r] this] d r
  have "layout (pwrite idx r (ptr_bytes (P r) @ tail_bytes ?b)) (pwrite dat (bo_off (B r)) (d @ [NEWLINE]))
      (P(r := P r)) (B(r := ?b)) rs" by simp
  moreover have "holds_at idx r (ptr_bytes (P r) @ tail_bytes (B r))"
    using layoutD(1,2) [OF l, of r] layoutD(5) [OF l r] r by (simp add: holds_at_append)
  ultimately show ?thesis using same by (simp add: pwrite_same)
qed

text \<open>A record appended to both files.\<close>

lemma layout_append:
  assumes l: "layout idx dat P B rs" and v: "v \<le> ptr_max" and b: "valid_body b" "bo_off b = length dat"
  shows "layout (idx @ ptr_bytes v @ tail_bytes b) (dat @ bo_dat b @ [NEWLINE])
    (P(length idx := v)) (B(length idx := b)) (rs @ [length idx])"
proof (rule layoutI)
  let ?e = "length idx" and ?idx = "idx @ ptr_bytes v @ tail_bytes b" and ?dat = "dat @ bo_dat b @ [NEWLINE]"
  have new: "?e \<notin> heads \<and> ?e \<notin> set rs"
    using cell_in_file(1) [OF l, of ?e] by auto
  have old: "c \<noteq> ?e" if "c \<in> heads \<or> c \<in> set rs" for c using new that by auto
  have w: "holds_at ?idx ?e (ptr_bytes v)" "holds_at ?idx (?e + 7) (tail_bytes b)"
    using holds_at_pwrite [of ?e idx "ptr_bytes v @ tail_bytes b"] v by (simp_all add: holds_at_append pwrite_end)
  show "holds_at ?idx c (ptr_bytes ((P(?e := v)) c))" if "c \<in> heads \<or> c \<in> set (rs @ [?e])" for c
  proof (cases "c = ?e")
    case False
    with that have "c \<in> heads \<or> c \<in> set rs" by auto
    with False holds_at_end [OF layoutD(1) [OF l]] show ?thesis by simp
  qed (use w(1) in simp)
  show "(P(?e := v)) c \<le> ptr_max" if "c \<in> heads \<or> c \<in> set (rs @ [?e])" for c
    using that v layoutD(2) [OF l, of c] by auto
  have "tiles (\<lambda>r. rsize ((B(?e := b)) r)) 967 rs ?e"
    using layoutD(3) [OF l] old by (subst tiles_cong [where sz' = "\<lambda>r. rsize (B r)"]) auto
  from tiles_append [OF this] have "tiles (\<lambda>r. rsize ((B(?e := b)) r)) 967 (rs @ [?e]) (?e + rsize b)" by simp
  moreover have "length ?idx = ?e + rsize b" using length_tail_bytes [OF b(1)] v by (simp add: rsize_def)
  ultimately show "tiles (\<lambda>r. rsize ((B(?e := b)) r)) 967 (rs @ [?e]) (length ?idx)" by (simp only:)
  show "holds_at ?idx (r + 7) (tail_bytes ((B(?e := b)) r))" if "r \<in> set (rs @ [?e])" for r
  proof (cases "r = ?e")
    case False
    with that holds_at_end [OF layoutD(5) [OF l, of r]] show ?thesis by simp
  qed (use w(2) in simp)
  have wd: "holds_at ?dat (length dat) (bo_dat b @ [NEWLINE])"
    using holds_at_pwrite [of "length dat" dat "bo_dat b @ [NEWLINE]"] by (simp add: pwrite_end)
  show "holds_at ?dat (bo_off ((B(?e := b)) r)) (bo_dat ((B(?e := b)) r) @ [NEWLINE])" if "r \<in> set (rs @ [?e])" for r
  proof (cases "r = ?e")
    case False
    with that holds_at_end [OF layoutD(6) [OF l, of r]] show ?thesis by simp
  qed (use wd b(2) in simp)
  have ends: "bo_off (B r) + length (bo_dat (B r)) + 1 \<le> length dat" if "r \<in> set rs" for r
    using layoutD(6) [OF l that] by (auto simp: holds_at_def)
  show "bo_off ((B(?e := b)) p) + length (bo_dat ((B(?e := b)) p)) + 1 \<le> bo_off ((B(?e := b)) q) \<or>
      bo_off ((B(?e := b)) q) + length (bo_dat ((B(?e := b)) q)) + 1 \<le> bo_off ((B(?e := b)) p)"
    if "p \<in> set (rs @ [?e])" "q \<in> set (rs @ [?e])" "p \<noteq> q" for p q
    using that layoutD(7) [OF l, of p q] ends b(2) by auto
qed (use layoutD(4) [OF l] b in auto)

end
