(* ===== verification/Db_Lists.thy ===== *)
theory Db_Lists
  imports Db_Rep
begin

text \<open>
  The linked lists in the index file: the free list, whose head is the pointer at offset 0, and the
  137 hash chains. A list state is the pointer \<open>P\<close> stored in every cell and, for every head, the
  records \<open>L\<close> of its list; every record of the file is in one list. The lemmas are about taking a record
  out of a list, putting it at the front of another, and what the searches of the code find.
\<close>

section \<open>The lists\<close>

definition links :: "(nat \<Rightarrow> nat) \<Rightarrow> nat \<Rightarrow> nat option" where
  "links P r = ix (P r)"

lemma links_update [simp]: "links (P(c := v)) = (links P)(c := ix v)"
  by (auto simp: links_def)

definition listed :: "(nat \<Rightarrow> nat) \<Rightarrow> (nat \<Rightarrow> nat list) \<Rightarrow> nat set \<Rightarrow> bool" where
  "listed P L S \<longleftrightarrow>
     (\<forall>c\<in>heads. chain (links P) (links P c) (L c)) \<and>
     (\<forall>c\<in>heads. \<forall>d\<in>heads. c \<noteq> d \<longrightarrow> set (L c) \<inter> set (L d) = {}) \<and>
     (\<Union>c\<in>heads. set (L c)) = S \<and> S \<inter> heads = {}"

lemma listedD:
  assumes "listed P L S"
  shows "c \<in> heads \<Longrightarrow> chain (links P) (links P c) (L c)"
    "c \<in> heads \<Longrightarrow> d \<in> heads \<Longrightarrow> c \<noteq> d \<Longrightarrow> set (L c) \<inter> set (L d) = {}"
    "(\<Union>c\<in>heads. set (L c)) = S" "S \<inter> heads = {}"
  using assms unfolding listed_def by blast+

lemma listedI:
  assumes "\<And>c. c \<in> heads \<Longrightarrow> chain (links P) (links P c) (L c)"
    "\<And>c d. c \<in> heads \<Longrightarrow> d \<in> heads \<Longrightarrow> c \<noteq> d \<Longrightarrow> set (L c) \<inter> set (L d) = {}"
    "(\<Union>c\<in>heads. set (L c)) = S" "S \<inter> heads = {}"
  shows "listed P L S"
  using assms unfolding listed_def by (intro conjI ballI impI)

lemma listed_mem: "listed P L S \<Longrightarrow> c \<in> heads \<Longrightarrow> r \<in> set (L c) \<Longrightarrow> r \<in> S \<and> r \<notin> heads"
  using listedD(3,4) by blast

text \<open>A pointer in no list and in no head is free to change.\<close>

lemma listed_frame:
  assumes "listed P L S" "r \<notin> S" "r \<notin> heads"
  shows "listed (P(r := v)) L S"
proof (rule listedI)
  fix c
  assume c: "c \<in> heads"
  have "r \<notin> set (L c)" "r \<noteq> c" using listed_mem [OF assms(1) c, of r] assms c by auto
  then show "chain (links (P(r := v))) (links (P(r := v)) c) (L c)" using listedD(1) [OF assms(1) c] by simp
qed (use listedD(2-) [OF assms(1)] in auto)

definition pred :: "nat \<Rightarrow> nat list \<Rightarrow> nat" where
  "pred c us = (if us = [] then c else last us)"

lemma chain_unlink:
  assumes "chain f p (us @ r # vs)" "us \<noteq> []"
  shows "chain (f(last us := f r)) p (us @ vs)"
proof -
  obtain us' q where us: "us = us' @ [q]" using \<open>us \<noteq> []\<close> by (metis rev_exhaust)
  have d: "distinct (us' @ q # r # vs)" using chain_distinct [OF assms(1)] us by simp
  have "chain_to f p us' (Some q)" "chain f (f r) vs"
    using assms(1) by (auto simp: us chain_append chain_to_append)
  with d chain_hd [of f "f r" vs] show ?thesis by (auto simp: us chain_append chain_to_append)
qed

lemma listed_unlink:
  assumes l: "listed P L S" and c: "c \<in> heads" and Lc: "L c = us @ r # vs"
  shows "listed (P(pred c us := P r)) (L(c := us @ vs)) (S - {r})"
proof -
  let ?q = "pred c us" and ?P = "P(pred c us := P r)" and ?L = "L(c := us @ vs)"
  have ch: "chain (links P) (links P c) (us @ r # vs)" using listedD(1) [OF l c] Lc by simp
  note d = chain_distinct [OF ch]
  have mem: "set (L c) \<inter> heads = {}" using listed_mem [OF l c] by auto
  have q: "?q = c \<or> ?q \<in> set us" by (simp add: pred_def)
  have "chain (links ?P) (links ?P e) (?L e)" if e: "e \<in> heads" for e
  proof (cases "e = c")
    case True
    show ?thesis
    proof (cases "us = []")
      case True
      have "c \<notin> set vs" using mem Lc c by auto
      with True \<open>e = c\<close> ch show ?thesis by (simp add: pred_def links_def)
    next
      case False
      have "last us \<noteq> c" using mem Lc c last_in_set [OF False] by auto
      with False \<open>e = c\<close> chain_unlink [OF ch False] show ?thesis by (simp add: pred_def) (simp add: links_def)
    qed
  next
    case False
    have "set (L c) \<inter> set (L e) = {}" using listedD(2) [OF l c e] False by simp
    then have "?q \<notin> set (L e)" "?q \<noteq> e"
      using q listed_mem [OF l e, of c] c e False mem Lc by auto
    with listedD(1) [OF l e] False show ?thesis by simp
  qed
  moreover have "set (?L e) \<inter> set (?L e') = {}" if "e \<in> heads" "e' \<in> heads" "e \<noteq> e'" for e e'
    using listedD(2) [OF l that] listedD(2) [OF l c, of e] listedD(2) [OF l c, of e'] that Lc by auto
  moreover have "(\<Union>e\<in>heads. set (?L e)) = S - {r}"
  proof -
    have "(\<Union>e\<in>heads. set (?L e)) = set (us @ vs) \<union> (\<Union>e\<in>heads - {c}. set (L e))"
      using c by (auto split: if_splits)
    moreover have "S = set (L c) \<union> (\<Union>e\<in>heads - {c}. set (L e))" using listedD(3) [OF l] c by blast
    moreover have "r \<notin> (\<Union>e\<in>heads - {c}. set (L e))" using listedD(2) [OF l c] Lc by fastforce
    ultimately show ?thesis using d Lc by auto
  qed
  ultimately show ?thesis using listedD(4) [OF l] by (intro listedI) blast+
qed

lemma listed_push:
  assumes l: "listed P L S" and c: "c \<in> heads" and r: "r \<notin> S" "r \<notin> heads"
  shows "listed (P(r := P c, c := r)) (L(c := r # L c)) (insert r S)"
proof -
  let ?P = "P(r := P c, c := r)" and ?L = "L(c := r # L c)"
  have r0: "0 < r" using r(2) by (cases r) (auto simp: heads_def)
  have out: "r \<notin> set (L e)" "c \<notin> set (L e)" if "e \<in> heads" for e
    using listed_mem [OF l that] r c by blast+
  have "chain (links ?P) (links ?P e) (?L e)" if e: "e \<in> heads" for e
    using listedD(1) [OF l e] out [OF e] r c e r0 by (cases "e = c") (auto simp: links_def)
  moreover have "set (?L e) \<inter> set (?L e') = {}" if "e \<in> heads" "e' \<in> heads" "e \<noteq> e'" for e e'
    using listedD(2) [OF l that] that out by auto
  moreover have "(\<Union>e\<in>heads. set (?L e)) = insert r S"
    using listedD(3) [OF l] c by (auto split: if_splits)
  ultimately show ?thesis using listedD(4) [OF l] r by (intro listedI) blast+
qed

section \<open>Searching a list\<close>

text \<open>What a search leaves alone in the handle, and the record it stops at.\<close>

definition keeps :: "db \<Rightarrow> db \<Rightarrow> bool" where
  "keeps db db' \<longleftrightarrow> db_idx db' = db_idx db \<and> db_dat db' = db_dat db \<and> db_nhash db' = db_nhash db \<and>
     db_hashoff db' = db_hashoff db \<and> db_chainoff db' = db_chainoff db"

definition at_record :: "db \<Rightarrow> (nat \<Rightarrow> nat) \<Rightarrow> (nat \<Rightarrow> body) \<Rightarrow> nat \<Rightarrow> bool" where
  "at_record db P B r \<longleftrightarrow> db_idxoff db = r \<and> db_ptrval db = int (P r) \<and> db_idxbuf db = bo_key (B r) \<and>
     db_datoff db = bo_off (B r) \<and> db_datlen db = length (bo_dat (B r)) + 1"

lemma keeps_refl [simp]: "keeps db db"
  by (simp add: keeps_def)

lemma keeps_trans: "keeps a b \<Longrightarrow> keeps b c \<Longrightarrow> keeps a c"
  by (simp add: keeps_def)

lemma keeps_read_handle [simp]: "keeps db (read_handle db P B r)" "keeps db ((read_handle db P B r)\<lparr>db_ptroff := q\<rparr>)"
  by (simp_all add: keeps_def read_handle_def)

lemma read_handle_simps [simp]:
  "db_idx (read_handle db P B r) = db_idx db" "db_dat (read_handle db P B r) = db_dat db"
  "db_idxbuf (read_handle db P B r) = bo_key (B r)" "db_datlen (read_handle db P B r) = length (bo_dat (B r)) + 1"
  "db_ptroff (read_handle db P B r) = db_ptroff db" "db_pos (read_handle db P B r) = r + rsize (B r)"
  "at_record (read_handle db P B r) P B r"
  by (simp_all add: read_handle_def at_record_def)

lemma chain_links_Cons:
  assumes "chain (links P) (ix p) (a # as)"
  shows "p = a" "0 < p" "chain (links P) (ix (P a)) as"
  using assms by (auto simp: links_def)

text \<open>
  \<open>_db_find\<close> along a chain: at the end of a chain without the key it returns 0; at the first record
  with the key it returns its offset, with \<open>ptroff\<close> at the cell that points to the record.
\<close>

lemma db_find_missing:
  assumes "layout (db_idx db) (db_dat db) P B rs" "chain (links P) (ix p) as" "set as \<subseteq> set rs"
    "\<And>r. r \<in> set as \<Longrightarrow> bo_key (B r) \<noteq> key"
  shows "\<exists>db'. db_find db key (int p) = Some (Returns (0, db')) \<and> keeps db db'"
  using assms
proof (induction as arbitrary: db p)
  case Nil
  then show ?case by (subst db_find.simps) auto
next
  case (Cons a as)
  note p = chain_links_Cons [OF Cons.prems(2)]
  let ?db = "(read_handle db P B a)\<lparr>db_ptroff := a\<rparr>"
  have rd: "db_readidx db (int a) = Returns (int (P a), read_handle db P B a)"
    by (rule db_readidx_layout [OF Cons.prems(1)]) (use Cons.prems(3) in auto)
  obtain db' where "db_find ?db key (int (P a)) = Some (Returns (0, db'))" "keeps ?db db'"
    using Cons.IH [of ?db "P a"] Cons.prems p by auto
  moreover have "db_find db key (int p) = db_find ?db key (int (P a))"
    using Cons.prems(4) [of a] p rd by (subst db_find.simps) simp
  ultimately show ?case using keeps_trans [OF keeps_read_handle(2)] by auto
qed

lemma db_find_present:
  assumes "layout (db_idx db) (db_dat db) P B rs" "chain (links P) (ix p) (us @ r # vs)"
    "set (us @ r # vs) \<subseteq> set rs" "\<And>u. u \<in> set us \<Longrightarrow> bo_key (B u) \<noteq> key" "bo_key (B r) = key"
  shows "\<exists>db'. db_find db key (int p) = Some (Returns (int r, db')) \<and> keeps db db' \<and> at_record db' P B r \<and>
    db_ptroff db' = pred (db_ptroff db) us"
  using assms
proof (induction us arbitrary: db p)
  case Nil
  note p = chain_links_Cons [OF Nil.prems(2) [unfolded append_Nil]]
  have "db_readidx db (int r) = Returns (int (P r), read_handle db P B r)"
    by (rule db_readidx_layout [OF Nil.prems(1)]) (use Nil.prems(3) in auto)
  with Nil p show ?case by (subst db_find.simps) (simp add: pred_def)
next
  case (Cons a us)
  note p = chain_links_Cons [OF Cons.prems(2) [unfolded append_Cons]]
  let ?db = "(read_handle db P B a)\<lparr>db_ptroff := a\<rparr>"
  have rd: "db_readidx db (int a) = Returns (int (P a), read_handle db P B a)"
    by (rule db_readidx_layout [OF Cons.prems(1)]) (use Cons.prems(3) in auto)
  obtain db' where "db_find ?db key (int (P a)) = Some (Returns (int r, db'))" "keeps ?db db'"
    "at_record db' P B r" "db_ptroff db' = pred a us"
    using Cons.IH [of ?db "P a"] Cons.prems p by auto
  moreover have "db_find db key (int p) = db_find ?db key (int (P a))"
    using Cons.prems(4) [of a] p rd by (subst db_find.simps) simp
  ultimately show ?case using keeps_trans [OF keeps_read_handle(2)] by (auto simp: pred_def)
qed

text \<open>The search of the free list, in the same way.\<close>

lemma db_findfree_missing:
  assumes "layout (db_idx db) (db_dat db) P B rs" "chain (links P) (ix p) as" "set as \<subseteq> set rs"
    "\<And>r. r \<in> set as \<Longrightarrow> \<not> (length (bo_key (B r)) = kl \<and> length (bo_dat (B r)) + 1 = dl)"
  shows "\<exists>db' q. db_findfree_loop db kl dl s (int p) = Some (Returns (q, 0, db')) \<and> keeps db db'"
  using assms
proof (induction as arbitrary: db p s)
  case Nil
  then show ?case by (subst db_findfree_loop.simps) auto
next
  case (Cons a as)
  note p = chain_links_Cons [OF Cons.prems(2)]
  let ?db = "read_handle db P B a"
  have rd: "db_readidx db (int a) = Returns (int (P a), ?db)"
    by (rule db_readidx_layout [OF Cons.prems(1)]) (use Cons.prems(3) in auto)
  obtain db' q where "db_findfree_loop ?db kl dl a (int (P a)) = Some (Returns (q, 0, db'))" "keeps ?db db'"
    using Cons.IH [of ?db "P a" a] Cons.prems p by auto
  moreover have "db_findfree_loop db kl dl s (int p) = db_findfree_loop ?db kl dl a (int (P a))"
    using Cons.prems(4) [of a] p rd by (subst db_findfree_loop.simps) auto
  ultimately show ?case using keeps_trans [OF keeps_read_handle(1)] by auto
qed

lemma db_findfree_present:
  assumes "layout (db_idx db) (db_dat db) P B rs" "chain (links P) (ix p) (us @ r # vs)"
    "set (us @ r # vs) \<subseteq> set rs"
    "\<And>u. u \<in> set us \<Longrightarrow> \<not> (length (bo_key (B u)) = kl \<and> length (bo_dat (B u)) + 1 = dl)"
    "length (bo_key (B r)) = kl" "length (bo_dat (B r)) + 1 = dl"
  shows "\<exists>db'. db_findfree_loop db kl dl s (int p) = Some (Returns (pred s us, int r, db')) \<and> keeps db db' \<and>
    at_record db' P B r"
  using assms
proof (induction us arbitrary: db p s)
  case Nil
  note p = chain_links_Cons [OF Nil.prems(2) [unfolded append_Nil]]
  have "db_readidx db (int r) = Returns (int (P r), read_handle db P B r)"
    by (rule db_readidx_layout [OF Nil.prems(1)]) (use Nil.prems(3) in auto)
  with Nil p show ?case by (subst db_findfree_loop.simps) (simp add: pred_def)
next
  case (Cons a us)
  note p = chain_links_Cons [OF Cons.prems(2) [unfolded append_Cons]]
  let ?db = "read_handle db P B a"
  have rd: "db_readidx db (int a) = Returns (int (P a), ?db)"
    by (rule db_readidx_layout [OF Cons.prems(1)]) (use Cons.prems(3) in auto)
  obtain db' where "db_findfree_loop ?db kl dl a (int (P a)) = Some (Returns (pred a us, int r, db'))"
    "keeps ?db db'" "at_record db' P B r"
    using Cons.IH [of ?db "P a" a] Cons.prems p by auto
  moreover have "db_findfree_loop db kl dl s (int p) = db_findfree_loop ?db kl dl a (int (P a))"
    using Cons.prems(4) [of a] p rd by (subst db_findfree_loop.simps) auto
  ultimately show ?case using keeps_trans [OF keeps_read_handle(1)] by (auto simp: pred_def)
qed

end
