(* ===== verification/Db_Correct.thy ===== *)
theory Db_Correct
  imports Db_Lists
begin

text \<open>
  The database as a finite map. A handle represents a map when its files have the layout of \<open>Db_Rep\<close>, every
  record is in one of the lists of \<open>Db_Lists\<close>, a record in a hash chain has a key with that hash and no
  chain has a key twice, and the records of the free list are blank. Fetching, storing and deleting are
  proved to be the operations of the map and to keep the representation.
\<close>

section \<open>The representation\<close>

definition khash :: "string \<Rightarrow> nat" where
  "khash k = unat (hash_loop 0 1 k) mod 137"

definition hc :: "string \<Rightarrow> nat" where
  "hc k = khash k * 7 + 7"

lemma hc_heads [simp]: "hc k \<in> heads" "hc k \<noteq> 0" "0 \<in> heads" "0 < hc k"
proof -
  have "khash k < 137" by (simp add: khash_def)
  then show "hc k \<in> heads" unfolding heads_def hc_def by (intro image_eqI [of _ _ "khash k + 1"]) auto
  show "0 \<in> heads" unfolding heads_def by (intro image_eqI [of _ _ 0]) auto
qed (simp_all add: hc_def)

definition keyed :: "(nat \<Rightarrow> body) \<Rightarrow> (nat \<Rightarrow> nat list) \<Rightarrow> bool" where
  "keyed B L \<longleftrightarrow>
     (\<forall>c\<in>heads. c \<noteq> 0 \<longrightarrow> (\<forall>r\<in>set (L c). hc (bo_key (B r)) = c) \<and> distinct (map (\<lambda>r. bo_key (B r)) (L c))) \<and>
     (\<forall>r\<in>set (L 0). set (bo_key (B r)) \<subseteq> {SPACE})"

definition rep :: "string \<Rightarrow> string \<Rightarrow> (nat \<Rightarrow> nat) \<Rightarrow> (nat \<Rightarrow> body) \<Rightarrow> nat list \<Rightarrow> (nat \<Rightarrow> nat list) \<Rightarrow> nat set \<Rightarrow> bool" where
  "rep idx dat P B rs L S \<longleftrightarrow> layout idx dat P B rs \<and> listed P L S \<and> keyed B L \<and> S \<subseteq> set rs \<and> (\<forall>r\<in>set rs. r \<le> ptr_max)"

lemma repD:
  assumes "rep idx dat P B rs L S"
  shows "layout idx dat P B rs" "listed P L S" "keyed B L" "S \<subseteq> set rs" "r \<in> set rs \<Longrightarrow> r \<le> ptr_max"
  using assms by (auto simp: rep_def)

definition db_map :: "(nat \<Rightarrow> body) \<Rightarrow> (nat \<Rightarrow> nat list) \<Rightarrow> string \<Rightarrow> string option" where
  "db_map B L k = map_of (map (\<lambda>r. (bo_key (B r), bo_dat (B r))) (L (hc k))) k"

definition db_ok :: "db \<Rightarrow> (nat \<Rightarrow> nat) \<Rightarrow> (nat \<Rightarrow> body) \<Rightarrow> nat list \<Rightarrow> (nat \<Rightarrow> nat list) \<Rightarrow> nat set \<Rightarrow> bool" where
  "db_ok db P B rs L S \<longleftrightarrow> rep (db_idx db) (db_dat db) P B rs L S \<and> db_nhash db = 137 \<and> db_hashoff db = 7"

definition db_abs :: "db \<Rightarrow> (string \<rightharpoonup> string) \<Rightarrow> bool" where
  "db_abs db m \<longleftrightarrow> (\<exists>P B rs L. db_ok db P B rs L (set rs) \<and> m = db_map B L)"

lemma keyedD:
  assumes "keyed B L"
  shows "c \<in> heads \<Longrightarrow> c \<noteq> 0 \<Longrightarrow> r \<in> set (L c) \<Longrightarrow> hc (bo_key (B r)) = c"
    "c \<in> heads \<Longrightarrow> c \<noteq> 0 \<Longrightarrow> distinct (map (\<lambda>r. bo_key (B r)) (L c))"
    "r \<in> set (L 0) \<Longrightarrow> set (bo_key (B r)) \<subseteq> {SPACE}"
  using assms unfolding keyed_def by blast+

lemma keyedI:
  assumes "\<And>c r. c \<in> heads \<Longrightarrow> c \<noteq> 0 \<Longrightarrow> r \<in> set (L c) \<Longrightarrow> hc (bo_key (B r)) = c"
    "\<And>c. c \<in> heads \<Longrightarrow> c \<noteq> 0 \<Longrightarrow> distinct (map (\<lambda>r. bo_key (B r)) (L c))"
    "\<And>r. r \<in> set (L 0) \<Longrightarrow> set (bo_key (B r)) \<subseteq> {SPACE}"
  shows "keyed B L"
  using assms unfolding keyed_def by blast

lemma db_map_Some:
  assumes "keyed B L"
  shows "db_map B L k = Some d \<longleftrightarrow> (\<exists>r\<in>set (L (hc k)). bo_key (B r) = k \<and> bo_dat (B r) = d)"
proof -
  have "distinct (map fst (map (\<lambda>r. (bo_key (B r), bo_dat (B r))) (L (hc k))))"
    using keyedD(2) [OF assms, of "hc k"] by (simp add: comp_def)
  from map_of_eq_Some_iff [OF this] show ?thesis by (auto simp: db_map_def)
qed

lemma db_map_None: "db_map B L k = None \<longleftrightarrow> (\<forall>r\<in>set (L (hc k)). bo_key (B r) \<noteq> k)"
  by (force simp: db_map_def map_of_eq_None_iff)

lemma option_eqI: "(\<And>d. x = Some d \<longleftrightarrow> y = Some d) \<Longrightarrow> x = y"
  by (cases x; cases y) auto

lemma db_ok_keeps: "db_ok db P B rs L S \<Longrightarrow> keeps db db' \<Longrightarrow> db_ok db' P B rs L S"
  by (simp add: db_ok_def keeps_def)

lemma db_absI: "db_ok db P B rs L (set rs) \<Longrightarrow> db_abs db (db_map B L)"
  unfolding db_abs_def by blast

lemma db_abs_eqI: "db_ok db P B rs L (set rs) \<Longrightarrow> db_map B L = m \<Longrightarrow> db_abs db m"
  unfolding db_abs_def by blast

text \<open>How much the files grow: by one record at most.\<close>

definition grown :: "db \<Rightarrow> db \<Rightarrow> bool" where
  "grown db db' \<longleftrightarrow> length (db_idx db') \<le> length (db_idx db) + 1035 \<and> length (db_dat db') \<le> length (db_dat db) + 1035"

lemma grown_same: "length (db_idx db') = length (db_idx db) \<Longrightarrow> length (db_dat db') = length (db_dat db) \<Longrightarrow> grown db db'"
  by (simp add: grown_def)

lemma grown_cong:
  "length (db_idx a) = length (db_idx b) \<Longrightarrow> length (db_dat a) = length (db_dat b) \<Longrightarrow> grown b c \<Longrightarrow> grown a c"
  by (simp add: grown_def)

text \<open>The counters are no part of the representation.\<close>

lemma db_ok_counters [simp]:
  "db_ok (db\<lparr>cnt_delok := n\<rparr>) P B rs L S = db_ok db P B rs L S"
  "db_ok (db\<lparr>cnt_delerr := n\<rparr>) P B rs L S = db_ok db P B rs L S"
  "db_ok (db\<lparr>cnt_fetchok := n\<rparr>) P B rs L S = db_ok db P B rs L S"
  "db_ok (db\<lparr>cnt_fetcherr := n\<rparr>) P B rs L S = db_ok db P B rs L S"
  "db_ok (db\<lparr>cnt_nextrec := n\<rparr>) P B rs L S = db_ok db P B rs L S"
  "db_ok (db\<lparr>cnt_stor1 := n\<rparr>) P B rs L S = db_ok db P B rs L S"
  "db_ok (db\<lparr>cnt_stor2 := n\<rparr>) P B rs L S = db_ok db P B rs L S"
  "db_ok (db\<lparr>cnt_stor3 := n\<rparr>) P B rs L S = db_ok db P B rs L S"
  "db_ok (db\<lparr>cnt_stor4 := n\<rparr>) P B rs L S = db_ok db P B rs L S"
  "db_ok (db\<lparr>cnt_storerr := n\<rparr>) P B rs L S = db_ok db P B rs L S"
  by (simp_all add: db_ok_def)

lemma list_in_file:
  assumes "rep idx dat P B rs L S" "c \<in> heads"
  shows "set (L c) \<subseteq> set rs"
  using listed_mem [OF repD(2) [OF assms(1)] assms(2)] repD(4) [OF assms(1)] by blast

section \<open>Finding a key\<close>

lemma find_setup:
  assumes "db_ok db P B rs L S"
  shows "db_find_and_lock db k =
    bind_run (db_find (db\<lparr>db_chainoff := hc k, db_ptroff := hc k, db_pos := hc k + 7\<rparr>) k (int (P (hc k))))
      (\<lambda>(offset, db3). Some (Returns (if offset = 0 then - 1 else 0, db3)))"
proof -
  have "db_hash db k * PTR_SZ + db_hashoff db = hc k"
    using assms by (simp add: db_ok_def db_hash_def hc_def khash_def PTR_SZ_def)
  moreover have "db_readptr (db\<lparr>db_chainoff := hc k, db_ptroff := hc k\<rparr>) (int (hc k)) =
      Returns (int (P (hc k)), db\<lparr>db_chainoff := hc k, db_ptroff := hc k, db_pos := hc k + 7\<rparr>)"
    using assms by (subst db_readptr_layout [where c = "hc k"]) (auto simp: db_ok_def rep_def)
  ultimately show ?thesis by (simp add: db_find_and_lock_def Let_def)
qed

lemma chain_of:
  assumes "db_ok db P B rs L S" "c \<in> heads"
  shows "chain (links P) (ix (P c)) (L c)" "set (L c) \<subseteq> set rs" "layout (db_idx db) (db_dat db) P B rs"
proof -
  have r: "rep (db_idx db) (db_dat db) P B rs L S" using assms(1) by (simp add: db_ok_def)
  show "chain (links P) (ix (P c)) (L c)" using listedD(1) [OF repD(2) [OF r] assms(2)] by (simp add: links_def)
  show "set (L c) \<subseteq> set rs" by (rule list_in_file [OF r assms(2)])
  show "layout (db_idx db) (db_dat db) P B rs" by (rule repD(1) [OF r])
qed

lemma find_missing:
  assumes "db_ok db P B rs L S" "db_map B L k = None"
  shows "\<exists>db'. db_find_and_lock db k = Some (Returns (- 1, db')) \<and> db_ok db' P B rs L S \<and> db_chainoff db' = hc k \<and>
    keeps (db\<lparr>db_chainoff := hc k\<rparr>) db'"
proof -
  let ?db = "db\<lparr>db_chainoff := hc k, db_ptroff := hc k, db_pos := hc k + 7\<rparr>"
  have ok: "db_ok ?db P B rs L S" using assms(1) by (simp add: db_ok_def)
  have "\<exists>db'. db_find ?db k (int (P (hc k))) = Some (Returns (0, db')) \<and> keeps ?db db'"
    using chain_of [OF ok hc_heads(1)] assms(2) by (intro db_find_missing) (auto simp: db_map_None)
  with db_ok_keeps [OF ok] show ?thesis by (auto simp: find_setup [OF assms(1)] keeps_def)
qed

lemma find_present:
  assumes "db_ok db P B rs L S" "db_map B L k = Some d"
  shows "\<exists>db' us r vs. db_find_and_lock db k = Some (Returns (0, db')) \<and> db_ok db' P B rs L S \<and> db_chainoff db' = hc k \<and>
    L (hc k) = us @ r # vs \<and> r \<in> set rs \<and> at_record db' P B r \<and> db_ptroff db' = pred (hc k) us \<and> bo_key (B r) = k \<and> bo_dat (B r) = d \<and>
    keeps (db\<lparr>db_chainoff := hc k\<rparr>) db'"
proof -
  let ?db = "db\<lparr>db_chainoff := hc k, db_ptroff := hc k, db_pos := hc k + 7\<rparr>"
  have ok: "db_ok ?db P B rs L S" using assms(1) by (simp add: db_ok_def)
  have "keyed B L" using assms(1) repD(3) by (auto simp: db_ok_def)
  then obtain r0 where "r0 \<in> set (L (hc k))" "bo_key (B r0) = k \<and> bo_dat (B r0) = d"
    using assms(2) db_map_Some by blast
  then obtain us r vs where L: "L (hc k) = us @ r # vs" and r: "bo_key (B r) = k" and us: "\<And>u. u \<in> set us \<Longrightarrow> bo_key (B u) \<noteq> k"
    using split_list_first_prop [of "L (hc k)" "\<lambda>x. bo_key (B x) = k"] by blast
  have "db_map B L k = Some (bo_dat (B r))" using db_map_Some [OF \<open>keyed B L\<close>] L r by auto
  with assms(2) have d: "bo_dat (B r) = d" by simp
  note ch = chain_of [OF ok hc_heads(1) [of k], unfolded L]
  obtain db' where f: "db_find ?db k (int (P (hc k))) = Some (Returns (int r, db'))" and kp: "keeps ?db db'"
      and a: "at_record db' P B r" and q: "db_ptroff db' = pred (hc k) us"
    using db_find_present [OF ch(3,1,2) us r] by auto
  have "0 < r" using layout_rec(1) [OF ch(3), of r] ch(2) by auto
  then show ?thesis
    using db_ok_keeps [OF ok kp] kp a q L r d ch(2) by (auto simp: find_setup [OF assms(1)] f keeps_def)
qed

section \<open>Fetching\<close>

lemma db_fetch_run:
  assumes "db_ok db P B rs L S"
  shows "\<exists>db'. db_fetch db k = Some (Returns (db_map B L k, db')) \<and> db_ok db' P B rs L S \<and> grown db db'"
proof (cases "db_map B L k")
  case None
  with find_missing [OF assms None] show ?thesis by (auto simp: db_fetch_def keeps_def intro!: grown_same)
next
  case (Some d)
  from find_present [OF assms Some] obtain db' us r vs where
    f: "db_find_and_lock db k = Some (Returns (0, db'))" "db_ok db' P B rs L S" "r \<in> set rs" "at_record db' P B r" "bo_dat (B r) = d"
    "keeps (db\<lparr>db_chainoff := hc k\<rparr>) db'"
    by blast
  have "db_readdat db' = Returns (d, db'\<lparr>db_datbuf := d\<rparr>)"
    using db_readdat_layout [of db' P B rs r] f by (auto simp: db_ok_def rep_def at_record_def)
  with f Some show ?thesis by (auto simp: db_fetch_def db_ok_def keeps_def intro!: grown_same)
qed

section \<open>Deleting\<close>

lemma db_writeptr_eq:
  "v \<le> ptr_max \<Longrightarrow> db_writeptr db c (int v) = Returns (db\<lparr>db_idx := pwrite (db_idx db) c (ptr_bytes v), db_pos := c + 7\<rparr>)"
  by (simp add: db_writeptr_def PTR_MAX_def ptr_bytes_def) (simp add: PTR_SZ_def)

lemma db_writeidx_eq:
  assumes "valid_body b" "db_datoff db = bo_off b" "db_datlen db = length (bo_dat b) + 1" "v \<le> ptr_max"
    "off = (case w of None \<Rightarrow> length (db_idx db) | Some x \<Rightarrow> x)"
  shows "\<exists>db'. db_writeidx db (bo_key b) w (int v) = Returns db' \<and> db_idxoff db' = off \<and>
    db_idx db' = pwrite (db_idx db) off (ptr_bytes v @ tail_bytes b) \<and> db_dat db' = db_dat db \<and>
    db_nhash db' = db_nhash db \<and> db_hashoff db' = db_hashoff db \<and> db_chainoff db' = db_chainoff db \<and> db_ptroff db' = db_ptroff db"
proof -
  have body: "idx_body (bo_key b) (db_datoff db) (db_datlen db) = body_bytes b"
    using assms by (simp add: body_bytes_def)
  have len: "6 \<le> int (length (body_bytes b))" "int (length (body_bytes b)) \<le> 1024" using assms(1) by (simp_all add: valid_body_def)
  have v: "int v \<le> 9999999" using assms(4) by simp
  show ?thesis
    unfolding db_writeidx_def body Let_def using len v
    by (simp add: PTR_MAX_def IDXLEN_MIN_def IDXLEN_MAX_def tail_bytes_def ptr_bytes_def assms(5))
qed

definition blank :: "body \<Rightarrow> body" where
  "blank b = b\<lparr>bo_key := replicate (length (bo_key b)) SPACE, bo_dat := replicate (length (bo_dat b)) SPACE\<rparr>"

lemma blank_simps [simp]:
  "bo_off (blank b) = bo_off b" "length (bo_key (blank b)) = length (bo_key b)"
  "length (bo_dat (blank b)) = length (bo_dat b)"
  by (simp_all add: blank_def)

lemma valid_blank: "valid_body b \<Longrightarrow> valid_body (blank b)"
  by (auto simp: valid_body_def blank_def body_bytes_def idx_body_def)

lemma keyed_shrink:
  assumes k: "keyed B L" and c: "c \<in> heads" and L: "L c = us @ r # vs"
  shows "keyed B (L(c := us @ vs))"
proof (rule keyedI)
  have sub: "set (us @ vs) \<subseteq> set (L c)" using L by auto
  show "hc (bo_key (B q)) = e" if "e \<in> heads" "e \<noteq> 0" "q \<in> set ((L(c := us @ vs)) e)" for e q
    using keyedD(1) [OF k that(1,2), of q] that(3) sub by (cases "e = c") auto
  show "distinct (map (\<lambda>r. bo_key (B r)) ((L(c := us @ vs)) e))" if "e \<in> heads" "e \<noteq> 0" for e
    using keyedD(2) [OF k that] L by (cases "e = c") auto
  show "set (bo_key (B q)) \<subseteq> {SPACE}" if "q \<in> set ((L(c := us @ vs)) 0)" for q
    using keyedD(3) [OF k, of q] that sub by (cases "c = 0") auto
qed

lemma keyed_other:
  assumes k: "keyed B L" and r: "\<And>c. c \<in> heads \<Longrightarrow> r \<notin> set (L c)"
  shows "keyed (B(r := b)) L"
proof -
  have "(B(r := b)) q = B q" if "c \<in> heads" "q \<in> set (L c)" for c q using r that by auto
  moreover from this have "map (\<lambda>q. bo_key ((B(r := b)) q)) (L c) = map (\<lambda>q. bo_key (B q)) (L c)" if "c \<in> heads" for c
    using that by auto
  ultimately show ?thesis using keyedD [OF k] hc_heads(3) unfolding keyed_def by metis
qed

lemma listed_out: "listed P L S \<Longrightarrow> r \<notin> S \<Longrightarrow> c \<in> heads \<Longrightarrow> r \<notin> set (L c)"
  using listed_mem by blast

text \<open>Linking a blank record into the free list.\<close>

lemma keyed_free:
  assumes "keyed B L" "set (bo_key (B r)) \<subseteq> {SPACE}"
  shows "keyed B (L(0 := r # L 0))"
  using keyedD [OF assms(1)] assms(2) unfolding keyed_def by auto

text \<open>Linking a record into its hash chain.\<close>

lemma keyed_push:
  assumes k: "keyed B L" and c: "hc (bo_key (B r)) = c" and "\<And>q. q \<in> set (L c) \<Longrightarrow> bo_key (B q) \<noteq> bo_key (B r)"
  shows "keyed B (L(c := r # L c))"
proof (rule keyedI)
  have c0: "c \<noteq> 0" using c hc_heads(2) by metis
  show "hc (bo_key (B q)) = e" if "e \<in> heads" "e \<noteq> 0" "q \<in> set ((L(c := r # L c)) e)" for e q
    using keyedD(1) [OF k that(1,2), of q] that(3) c by (cases "e = c") auto
  show "distinct (map (\<lambda>r. bo_key (B r)) ((L(c := r # L c)) e))" if "e \<in> heads" "e \<noteq> 0" for e
    using keyedD(2) [OF k that] assms(3) by (cases "e = c") fastforce+
  show "set (bo_key (B q)) \<subseteq> {SPACE}" if "q \<in> set ((L(c := r # L c)) 0)" for q
    using keyedD(3) [OF k, of q] that c0 by simp
qed

text \<open>The cell that points to a record of a list.\<close>

lemma pred_cell:
  assumes rep: "rep idx dat P B rs L S" and c: "c \<in> heads" and L: "L c = us @ r # vs"
  shows "pred c us \<in> heads \<or> pred c us \<in> set rs" "pred c us \<noteq> r" "c \<noteq> 0 \<Longrightarrow> pred c us \<noteq> 0"
proof -
  note l = repD(1) [OF rep]
  have sub: "set us \<subseteq> set rs" "r \<in> set rs" using list_in_file [OF rep c] L by auto
  have "r \<notin> set us" using chain_distinct [OF listedD(1) [OF repD(2) [OF rep] c]] L by simp
  moreover have "0 \<notin> set rs" using layout_rec(1) [OF l] by fastforce
  ultimately have "us \<noteq> [] \<Longrightarrow> last us \<in> set rs \<and> last us \<noteq> r \<and> last us \<noteq> 0"
    using last_in_set [of us] sub(1) by (metis subsetD)
  with c layout_rec(3) [OF l sub(2)]
  show "pred c us \<in> heads \<or> pred c us \<in> set rs" "pred c us \<noteq> r" "c \<noteq> 0 \<Longrightarrow> pred c us \<noteq> 0"
    by (auto simp: pred_def)
qed

lemma db_dodelete_run:
  assumes ok: "db_ok db P B rs L (set rs)" and c: "c \<in> heads" "c \<noteq> 0" and L: "L c = us @ r # vs" and r: "r \<in> set rs"
    and a: "at_record db P B r" and q: "db_ptroff db = pred c us"
  shows "\<exists>db' P'. db_dodelete db = Returns db' \<and> db_chainoff db' = db_chainoff db \<and>
    length (db_idx db') = length (db_idx db) \<and> length (db_dat db') = length (db_dat db) \<and>
    db_ok db' P' (B(r := blank (B r))) rs (L(c := us @ vs, 0 := r # L 0)) (set rs)"
proof -
  let ?b = "blank (B r)" and ?q = "pred c us"
  have rep: "rep (db_idx db) (db_dat db) P B rs L (set rs)" using ok by (simp add: db_ok_def)
  note l = repD(1) [OF rep] and li = repD(2) [OF rep] and ke = repD(3) [OF rep]
  have v: "valid_body ?b" by (rule valid_blank [OF layoutD(4) [OF l r]])
  have bounds: "P 0 \<le> ptr_max" "P r \<le> ptr_max" "r \<le> ptr_max"
    using layoutD(2) [OF l, of 0] layoutD(2) [OF l, of r] r repD(5) [OF rep r] hc_heads(3) by auto
  have qc: "?q \<in> heads \<or> ?q \<in> set rs" "?q \<noteq> r" "?q \<noteq> 0"
    using pred_cell [OF rep c(1) L] c(2) by auto
  let ?db2 = "db\<lparr>db_datbuf := bo_dat ?b, db_idxbuf := bo_key ?b,
    db_datoff := bo_off ?b, db_datlen := length (bo_dat ?b) + 1, db_dat := pwrite (db_dat db) (bo_off ?b) (bo_dat ?b @ [NEWLINE])\<rparr>"
  have st: "db_writedat (db\<lparr>db_datbuf := bo_dat ?b, db_idxbuf := bo_key ?b\<rparr>) (bo_dat ?b) (Some (db_datoff db)) = ?db2"
    using a by (simp add: db_writedat_def at_record_def Let_def)
  have spaces: "replicate (db_datlen db - 1) SPACE = bo_dat ?b" "replicate (length (db_idxbuf db)) SPACE = bo_key ?b"
    using a by (simp_all add: at_record_def blank_def)
  have rd: "db_readptr ?db2 (int FREE_OFF) = Returns (int (P 0), ?db2\<lparr>db_pos := 7\<rparr>)"
    using pread_ptr [OF l, of 0] layoutD(2) [OF l, of 0] hc_heads(3)
    by (simp add: db_readptr_def Let_def FREE_OFF_def atol_ptr_bytes) (simp add: PTR_SZ_def)
  obtain db4 where w: "db_writeidx (?db2\<lparr>db_pos := 7\<rparr>) (bo_key ?b) (Some r) (int (P 0)) = Returns db4"
    "db_idxoff db4 = r" "db_idx db4 = pwrite (db_idx db) r (ptr_bytes (P 0) @ tail_bytes ?b)"
    "db_dat db4 = pwrite (db_dat db) (bo_off ?b) (bo_dat ?b @ [NEWLINE])"
    "db_nhash db4 = db_nhash db" "db_hashoff db4 = db_hashoff db" "db_chainoff db4 = db_chainoff db" "db_ptroff db4 = db_ptroff db"
    using db_writeidx_eq [OF v, of "?db2\<lparr>db_pos := 7\<rparr>" "P 0" r "Some r"] a bounds by (auto simp: at_record_def)
  let ?P = "P(r := P 0, 0 := r, ?q := P r)"
  have l1: "layout (db_idx db4) (db_dat db4) (P(r := P 0)) (B(r := ?b)) rs"
    unfolding w(3,4) by (rule layout_rewrite [OF l r bounds(1) v]) simp_all
  note l2 = layout_writeptr [OF layout_writeptr [OF l1 _ bounds(3), of 0] qc(1) bounds(2)]
  have "?P = (P(?q := P r))(r := (P(?q := P r)) 0, 0 := r)" using qc layout_rec(1) [OF l r] by (auto simp: fun_eq_iff)
  with listed_push [OF listed_unlink [where c = c and L = L, OF li c(1) L], of 0 r] layout_rec(3) [OF l r] r
  have li2: "listed ?P (L(c := us @ vs, 0 := r # L 0)) (set rs)" using c(2) hc_heads(3) by (simp add: insert_absorb)
  have out: "r \<notin> set ((L(c := us @ vs)) e)" if "e \<in> heads" for e
    by (rule listed_out [OF listed_unlink [where c = c and L = L, OF li c(1) L] _ that]) simp
  have "keyed (B(r := ?b)) ((L(c := us @ vs))(0 := r # (L(c := us @ vs)) 0))"
    by (rule keyed_free [OF keyed_other [OF keyed_shrink [OF ke c(1) L] out]]) (auto simp: blank_def)
  then have ke2: "keyed (B(r := ?b)) (L(c := us @ vs, 0 := r # L 0))" using c(2) by simp
  have "db_dodelete db = bind_outcome (db_readptr ?db2 (int FREE_OFF)) (\<lambda>(freeptr, db3).
      bind_outcome (db_writeidx db3 (db_idxbuf db3) (Some (db_idxoff db3)) freeptr) (\<lambda>db4.
      bind_outcome (db_writeptr db4 FREE_OFF (int (db_idxoff db4))) (\<lambda>db5.
      db_writeptr db5 (db_ptroff db5) (db_ptrval db3))))"
    unfolding db_dodelete_def Let_def spaces by (simp add: st del: bind_outcome.simps)
  also have "\<dots> = Returns (db4\<lparr>db_idx := pwrite (pwrite (db_idx db4) 0 (ptr_bytes r)) ?q (ptr_bytes (P r)), db_pos := ?q + 7\<rparr>)"
    unfolding rd bind_outcome.simps prod.case using a w q bounds
    by (simp add: at_record_def FREE_OFF_def db_writeptr_eq)
  finally have "db_dodelete db = Returns (db4\<lparr>db_idx := pwrite (pwrite (db_idx db4) 0 (ptr_bytes r)) ?q (ptr_bytes (P r)), db_pos := ?q + 7\<rparr>)" .
  moreover have "db_ok (db4\<lparr>db_idx := pwrite (pwrite (db_idx db4) 0 (ptr_bytes r)) ?q (ptr_bytes (P r)), db_pos := ?q + 7\<rparr>)
      ?P (B(r := ?b)) rs (L(c := us @ vs, 0 := r # L 0)) (set rs)"
    using l2 li2 ke2 repD(5) [OF rep] ok w by (simp add: db_ok_def rep_def)
  moreover have "length (db_idx db4) = length (db_idx db)" "length (db_dat db4) = length (db_dat db)"
    using layout_rec(2) [OF l r] layoutD(6) [OF l r] bounds length_tail_bytes [OF v]
    by (simp_all add: w length_pwrite holds_at_def rsize_def body_bytes_def idx_body_def)
  moreover from this have "length (pwrite (pwrite (db_idx db4) 0 (ptr_bytes r)) ?q (ptr_bytes (P r))) = length (db_idx db)"
    using cell_in_file [OF l qc(1)] cell_in_file [OF l, of 0] hc_heads(3) bounds by (simp add: length_pwrite)
  ultimately show ?thesis using w by auto
qed

lemma db_map_delete:
  assumes k: "keyed B L" and L: "L (hc key) = us @ r # vs" and key: "bo_key (B r) = key"
    and out: "\<And>c. c \<in> heads \<Longrightarrow> r \<notin> set ((L(hc key := us @ vs)) c)"
  shows "db_map (B(r := b)) (L(hc key := us @ vs, 0 := l)) = (db_map B L)(key := None)"
proof
  fix x
  have d: "distinct (map (\<lambda>r. bo_key (B r)) (us @ r # vs))" using keyedD(2) [OF k, of "hc key"] L by simp
  have upd: "map (\<lambda>q. (bo_key ((B(r := b)) q), bo_dat ((B(r := b)) q))) ((L(hc key := us @ vs)) c) =
      map (\<lambda>q. (bo_key (B q), bo_dat (B q))) ((L(hc key := us @ vs)) c)" if "c \<in> heads" for c
    using out [OF that] by auto
  have "db_map (B(r := b)) (L(hc key := us @ vs, 0 := l)) x =
      map_of (map (\<lambda>q. (bo_key (B q), bo_dat (B q))) ((L(hc key := us @ vs)) (hc x))) x"
    using upd [OF hc_heads(1) [of x]] fun_upd_other [OF hc_heads(2), of "L(hc key := us @ vs)" l x] unfolding db_map_def
    by (simp only:)
  also have "\<dots> = ((db_map B L)(key := None)) x"
  proof (cases "x = key")
    case True
    then show ?thesis using d key by (force simp: map_of_eq_None_iff)
  next
    case False
    then show ?thesis using L key by (auto simp: db_map_def map_add_def split: option.splits)
  qed
  finally show "db_map (B(r := b)) (L(hc key := us @ vs, 0 := l)) x = ((db_map B L)(key := None)) x" .
qed

lemma db_delete_run:
  assumes ok: "db_ok db P B rs L (set rs)"
  shows "\<exists>db'. db_delete db k = Some (Returns (if db_map B L k = None then - 1 else 0, db')) \<and> db_abs db' ((db_map B L)(k := None)) \<and> grown db db'"
proof (cases "db_map B L k")
  case None
  then have "(db_map B L)(k := None) = db_map B L" by auto
  moreover obtain db1 where "db_find_and_lock db k = Some (Returns (- 1, db1))" "db_ok db1 P B rs L (set rs)" "keeps (db\<lparr>db_chainoff := hc k\<rparr>) db1"
    using find_missing [OF ok None] by blast
  ultimately show ?thesis using None by (auto simp: db_delete_def keeps_def intro: db_absI intro!: grown_same)
next
  case (Some d)
  from find_present [OF ok Some] obtain db1 us r vs where
    f: "db_find_and_lock db k = Some (Returns (0, db1))" "db_ok db1 P B rs L (set rs)" "L (hc k) = us @ r # vs"
    "r \<in> set rs" "at_record db1 P B r" "db_ptroff db1 = pred (hc k) us" "bo_key (B r) = k" "keeps (db\<lparr>db_chainoff := hc k\<rparr>) db1" by blast
  from db_dodelete_run [OF f(2) hc_heads(1,2) f(3-6)] obtain db2 P' where
    d: "db_dodelete db1 = Returns db2" "db_ok db2 P' (B(r := blank (B r))) rs (L(hc k := us @ vs, 0 := r # L 0)) (set rs)"
    "length (db_idx db2) = length (db_idx db1)" "length (db_dat db2) = length (db_dat db1)" by blast
  have li: "listed P L (set rs)" and ke: "keyed B L" using ok repD(2,3) by (auto simp: db_ok_def)
  have out: "r \<notin> set ((L(hc k := us @ vs)) c)" if "c \<in> heads" for c
    by (rule listed_out [OF listed_unlink [where c = "hc k" and L = L, OF li hc_heads(1) f(3)] _ that]) simp
  have "db_abs (db2\<lparr>cnt_delok := cnt_delok db2 + 1\<rparr>) ((db_map B L)(k := None))"
    by (rule db_abs_eqI [OF _ db_map_delete [OF ke f(3) f(7) out]]) (use d(2) in simp_all)
  moreover have "db_delete db k = Some (Returns (0, db2\<lparr>cnt_delok := cnt_delok db2 + 1\<rparr>))" using f(1) d(1) by (simp add: db_delete_def)
  ultimately show ?thesis using Some d(3,4) f(8) by (auto simp: keeps_def intro!: grown_same)
qed

section \<open>Storing\<close>

text \<open>
  Linking a record, whose bytes are in place with the chain's first record as its pointer, to the front of the chain of
  its key.
\<close>

lemma rep_link:
  assumes l: "layout idx dat (P(r := P c)) B rs" and li: "listed P L (set rs - {r})" and ke: "keyed B L"
    and r: "r \<in> set rs" "\<And>q. q \<in> set rs \<Longrightarrow> q \<le> ptr_max" and c: "c = hc (bo_key (B r))"
    and new: "\<And>q. q \<in> set (L c) \<Longrightarrow> bo_key (B q) \<noteq> bo_key (B r)"
  shows "rep (pwrite idx c (ptr_bytes r)) dat (P(r := P c, c := r)) B rs (L(c := r # L c)) (set rs)"
proof -
  have "r \<notin> heads" by (rule layout_rec(3) [OF l r(1)])
  moreover have ch: "c \<in> heads" using c by simp
  ultimately have "listed (P(r := P c, c := r)) (L(c := r # L c)) (set rs)"
    using listed_push [OF li ch, of r] r(1) by (simp add: insert_absorb)
  moreover have "layout (pwrite idx c (ptr_bytes r)) dat (P(r := P c, c := r)) B rs"
    by (rule layout_writeptr [OF l]) (use ch r in auto)
  ultimately show ?thesis using keyed_push [OF ke c [symmetric] new] r by (simp add: rep_def)
qed

lemma db_map_push:
  assumes ke: "keyed B L" and out: "\<And>c. c \<in> heads \<Longrightarrow> r \<notin> set (L c)" and k: "bo_key b = key"
  shows "db_map (B(r := b)) (L(hc key := r # L (hc key))) = (db_map B L)(key \<mapsto> bo_dat b)"
proof
  fix x
  have "map (\<lambda>q. (bo_key ((B(r := b)) q), bo_dat ((B(r := b)) q))) (L (hc x)) = map (\<lambda>q. (bo_key (B q), bo_dat (B q))) (L (hc x))"
    using out [OF hc_heads(1)] by auto
  then have "map_of (map (\<lambda>q. (bo_key ((B(r := b)) q), bo_dat ((B(r := b)) q))) (L (hc x))) x = db_map B L x"
    by (simp only: db_map_def)
  then show "db_map (B(r := b)) (L(hc key := r # L (hc key))) x = ((db_map B L)(key \<mapsto> bo_dat b)) x"
    using k by (cases "hc x = hc key"; cases "x = key") (simp_all add: db_map_def del: fun_upd_apply, simp_all add: db_map_def)
qed

text \<open>The lengths a record must have to be written and read again.\<close>

definition storable :: "db \<Rightarrow> string \<Rightarrow> string \<Rightarrow> bool" where
  "storable db key data \<longleftrightarrow> key \<noteq> [] \<and> length key \<le> 1000 \<and> NUL \<notin> set key \<and> SEP \<notin> set key \<and>
     1 \<le> length data \<and> length data < 1024 \<and> NUL \<notin> set data \<and>
     length (db_idx db) \<le> ptr_max \<and> length (db_dat db) < 10 ^ 10"

lemma storable_valid:
  assumes "storable db key data" "off \<le> length (db_dat db)"
  shows "valid_body \<lparr>bo_key = key, bo_off = off, bo_dat = data\<rparr>"
proof -
  have "off < 10 ^ 10" using assms by (simp add: storable_def)
  then have o10: "length (dec off) \<le> 10" using length_dec [of 10 off] by simp
  have "length data + 1 < 10 ^ 4" using assms(1) by (simp add: storable_def)
  then have d4: "length (dec (length data + 1)) \<le> 4" using length_dec [of 4 "length data + 1"] by simp
  have pos: "1 \<le> length (dec n)" for n using dec_nonempty [of n] by (cases "dec n") auto
  have key: "1 \<le> length key" "length key \<le> 1000" using assms(1) by (auto simp: storable_def Suc_le_eq)
  have "length (idx_body key off (length data + 1)) = length key + length (dec off) + length (dec (length data + 1)) + 3"
    by (simp add: idx_body_def)
  with o10 d4 pos [of off] pos [of "length data + 1"] key
  have "6 \<le> length (idx_body key off (length data + 1))" "length (idx_body key off (length data + 1)) \<le> 1024"
    by linarith+
  then show ?thesis using assms(1) by (simp add: valid_body_def body_bytes_def storable_def)
qed

text \<open>A new record at the end of both files.\<close>

lemma db_write_append:
  assumes ok: "db_ok db P B rs L (set rs)" and st: "storable db key data" and ch: "db_chainoff db = hc key"
    and new: "db_map B L key = None"
  shows "\<exists>db'. db_write_record db key data None None (int (P (hc key))) = Returns db' \<and> db_abs db' ((db_map B L)(key \<mapsto> data)) \<and>
    grown db db'"
proof -
  let ?e = "length (db_idx db)" and ?c = "hc key"
  let ?b = "\<lparr>bo_key = key, bo_off = length (db_dat db), bo_dat = data\<rparr>"
  have rep: "rep (db_idx db) (db_dat db) P B rs L (set rs)" using ok by (simp add: db_ok_def)
  note l = repD(1) [OF rep] and li = repD(2) [OF rep] and ke = repD(3) [OF rep]
  have v: "valid_body ?b" by (rule storable_valid [OF st]) simp
  have pc: "P ?c \<le> ptr_max" using layoutD(2) [OF l, of ?c] by simp
  let ?db1 = "db_writedat db data None"
  obtain db2 where w: "db_writeidx ?db1 key None (int (P ?c)) = Returns db2" "db_idxoff db2 = ?e"
    "db_idx db2 = pwrite (db_idx db) ?e (ptr_bytes (P ?c) @ tail_bytes ?b)" "db_dat db2 = db_dat ?db1"
    "db_nhash db2 = db_nhash db" "db_hashoff db2 = db_hashoff db" "db_chainoff db2 = db_chainoff db"
    using db_writeidx_eq [OF v, of ?db1 "P ?c" ?e None] pc by (auto simp: db_writedat_def Let_def)
  have new_off: "?e \<notin> heads" "?e \<notin> set rs" using cell_in_file(1) [OF l, of ?e] by auto
  have e: "?e \<le> ptr_max" using st by (simp add: storable_def)
  have l2: "layout (db_idx db2) (db_dat db2) (P(?e := P ?c)) (B(?e := ?b)) (rs @ [?e])"
    using layout_append [OF l pc v] by (simp add: w pwrite_end db_writedat_def)
  have out: "\<And>c. c \<in> heads \<Longrightarrow> ?e \<notin> set (L c)" by (rule listed_out [OF li new_off(2)])
  have old: "\<And>q. q \<in> set (L ?c) \<Longrightarrow> q \<noteq> ?e \<and> bo_key (B q) \<noteq> key" using out [of ?c] new db_map_None by auto
  have "rep (pwrite (db_idx db2) ?c (ptr_bytes ?e)) (db_dat db2) (P(?e := P ?c, ?c := ?e)) (B(?e := ?b)) (rs @ [?e])
      (L(?c := ?e # L ?c)) (set (rs @ [?e]))"
    by (rule rep_link [OF l2 _ keyed_other [OF ke out]]) (use li new_off old e repD(5) [OF rep] in auto)
  moreover have "db_write_record db key data None None (int (P ?c)) =
      Returns (db2\<lparr>db_idx := pwrite (db_idx db2) ?c (ptr_bytes ?e), db_pos := ?c + 7\<rparr>)"
    unfolding db_write_record_def w(1) bind_outcome.simps using ch w e by (simp add: db_writeptr_eq)
  moreover have "db_map (B(?e := ?b)) (L(?c := ?e # L ?c)) = (db_map B L)(key \<mapsto> data)"
    using db_map_push [OF ke out, of ?b key] by simp
  moreover have "db_ok (db2\<lparr>db_idx := pwrite (db_idx db2) ?c (ptr_bytes ?e), db_pos := ?c + 7\<rparr>)
      (P(?e := P ?c, ?c := ?e)) (B(?e := ?b)) (rs @ [?e]) (L(?c := ?e # L ?c)) (set (rs @ [?e]))"
    using calculation(1) ok w by (simp add: db_ok_def)
  moreover have "grown db (db2\<lparr>db_idx := pwrite (db_idx db2) ?c (ptr_bytes ?e), db_pos := ?c + 7\<rparr>)"
    using e pc v length_tail_bytes [OF v] cell_in_file [OF l, of ?c] st
    by (simp add: w grown_def length_pwrite db_writedat_def Let_def valid_body_def storable_def)
  ultimately show ?thesis by (blast intro: db_abs_eqI)
qed

text \<open>A record of the free list, taken out of it, is written over.\<close>

lemma db_write_reuse:
  assumes ok: "db_ok db P B rs L (set rs - {r})" and st: "storable db key data" and ch: "db_chainoff db = hc key"
    and new: "db_map B L key = None" and r: "r \<in> set rs" and a: "db_idxoff db = r" "db_datoff db = bo_off (B r)"
    and len: "length (bo_key (B r)) = length key" "length (bo_dat (B r)) = length data"
  shows "\<exists>db'. db_write_record db key data (Some (db_datoff db)) (Some (db_idxoff db)) (int (P (hc key))) = Returns db' \<and>
    db_abs db' ((db_map B L)(key \<mapsto> data)) \<and> grown db db'"
proof -
  let ?c = "hc key" and ?b = "\<lparr>bo_key = key, bo_off = bo_off (B r), bo_dat = data\<rparr>"
  have rep: "rep (db_idx db) (db_dat db) P B rs L (set rs - {r})" using ok by (simp add: db_ok_def)
  note l = repD(1) [OF rep] and li = repD(2) [OF rep] and ke = repD(3) [OF rep]
  have v: "valid_body ?b" by (rule storable_valid [OF st]) (use layoutD(6) [OF l r] in \<open>simp add: holds_at_def\<close>)
  have bounds: "P ?c \<le> ptr_max" "r \<le> ptr_max" using layoutD(2) [OF l, of ?c] repD(5) [OF rep r] by simp_all
  let ?db1 = "db_writedat db data (Some (db_datoff db))"
  obtain db2 where w: "db_writeidx ?db1 key (Some r) (int (P ?c)) = Returns db2" "db_idxoff db2 = r"
    "db_idx db2 = pwrite (db_idx db) r (ptr_bytes (P ?c) @ tail_bytes ?b)" "db_dat db2 = db_dat ?db1"
    "db_nhash db2 = db_nhash db" "db_hashoff db2 = db_hashoff db" "db_chainoff db2 = db_chainoff db"
    using db_writeidx_eq [OF v, of ?db1 "P ?c" r "Some r"] bounds a by (auto simp: db_writedat_def Let_def)
  have l2: "layout (db_idx db2) (db_dat db2) (P(r := P ?c)) (B(r := ?b)) rs"
    using layout_rewrite [OF l r bounds(1) v] len a by (simp add: w db_writedat_def Let_def)
  have out: "\<And>c. c \<in> heads \<Longrightarrow> r \<notin> set (L c)" by (rule listed_out [OF li]) simp_all
  have old: "\<And>q. q \<in> set (L ?c) \<Longrightarrow> q \<noteq> r \<and> bo_key (B q) \<noteq> key" using out [of ?c] new db_map_None by auto
  have "rep (pwrite (db_idx db2) ?c (ptr_bytes r)) (db_dat db2) (P(r := P ?c, ?c := r)) (B(r := ?b)) rs
      (L(?c := r # L ?c)) (set rs)"
    by (rule rep_link [OF l2 li keyed_other [OF ke out] r]) (use old repD(5) [OF rep] in auto)
  moreover have "db_write_record db key data (Some (db_datoff db)) (Some (db_idxoff db)) (int (P ?c)) =
      Returns (db2\<lparr>db_idx := pwrite (db_idx db2) ?c (ptr_bytes r), db_pos := ?c + 7\<rparr>)"
    unfolding db_write_record_def a(1) w(1) bind_outcome.simps using ch w bounds by (simp add: db_writeptr_eq)
  moreover have "db_map (B(r := ?b)) (L(?c := r # L ?c)) = (db_map B L)(key \<mapsto> data)"
    using db_map_push [OF ke out, of ?b key] by simp
  moreover have "db_ok (db2\<lparr>db_idx := pwrite (db_idx db2) ?c (ptr_bytes r), db_pos := ?c + 7\<rparr>)
      (P(r := P ?c, ?c := r)) (B(r := ?b)) rs (L(?c := r # L ?c)) (set rs)"
    using calculation(1) ok w by (simp add: db_ok_def)
  moreover have "grown db (db2\<lparr>db_idx := pwrite (db_idx db2) ?c (ptr_bytes r), db_pos := ?c + 7\<rparr>)"
    using bounds v length_tail_bytes [OF v] cell_in_file [OF l, of ?c] st layoutD(6) [OF l r] cell_in_file [OF l, of r] r a
    by (simp add: w grown_def length_pwrite db_writedat_def Let_def valid_body_def storable_def holds_at_def)
  ultimately show ?thesis by (blast intro: db_abs_eqI)
qed

text \<open>
  \<open>_db_findfree\<close>: no record fits and nothing changes, or the first record that fits is taken out of
  the free list.
\<close>

lemma db_findfree_run:
  assumes ok: "db_ok db P B rs L (set rs)"
  obtains (none) db' where "db_findfree db kl dl = Some (Returns (- 1, db'))" "db_ok db' P B rs L (set rs)"
      "db_chainoff db' = db_chainoff db" "keeps db db'"
  | (some) db' P' us r vs where "db_findfree db kl dl = Some (Returns (0, db'))" "L 0 = us @ r # vs" "r \<in> set rs"
      "db_ok db' P' B rs (L(0 := us @ vs)) (set rs - {r})" "db_chainoff db' = db_chainoff db"
      "db_idxoff db' = r" "db_datoff db' = bo_off (B r)" "length (bo_key (B r)) = kl" "length (bo_dat (B r)) + 1 = dl"
      "\<And>c. c \<in> heads \<Longrightarrow> c \<noteq> 0 \<Longrightarrow> P' c = P c" "length (db_idx db') = length (db_idx db)" "db_dat db' = db_dat db"
proof -
  have rep: "rep (db_idx db) (db_dat db) P B rs L (set rs)" using ok by (simp add: db_ok_def)
  note l = repD(1) [OF rep]
  let ?db = "db\<lparr>db_pos := 7\<rparr>"
  have ok1: "db_ok ?db P B rs L (set rs)" and l1: "layout (db_idx ?db) (db_dat ?db) P B rs" using ok l by (simp_all add: db_ok_def)
  note ch = chain_of [OF ok1 hc_heads(3)]
  have rd: "db_readptr db (int FREE_OFF) = Returns (int (P 0), ?db)"
    using db_readptr_layout [OF l, of 0] by (simp add: FREE_OFF_def)
  let ?fits = "\<lambda>r. length (bo_key (B r)) = kl \<and> length (bo_dat (B r)) + 1 = dl"
  show thesis
  proof (cases "\<exists>r\<in>set (L 0). ?fits r")
    case False
    then obtain db' q where "db_findfree_loop ?db kl dl 0 (int (P 0)) = Some (Returns (q, 0, db'))" "keeps ?db db'"
      using db_findfree_missing [OF l1 ch(1,2), of kl dl 0] by blast
    with rd db_ok_keeps [OF ok1] none [of db'] show thesis by (simp add: db_findfree_def FREE_OFF_def keeps_def)
  next
    case True
    then obtain us r vs where L: "L 0 = us @ r # vs" and r: "?fits r" and us: "\<And>u. u \<in> set us \<Longrightarrow> \<not> ?fits u"
      using split_list_first_prop [of "L 0" ?fits] by blast
    obtain db' where f: "db_findfree_loop ?db kl dl 0 (int (P 0)) = Some (Returns (pred 0 us, int r, db'))"
      and kp: "keeps ?db db'" and a: "at_record db' P B r"
      using db_findfree_present [OF l1 ch(1,2) [unfolded L], of kl dl 0] us r by blast
    have rin: "r \<in> set rs" "0 < r" using ch(2) L layout_rec(1) [OF l, of r] by auto
    note q = pred_cell [OF rep hc_heads(3) L]
    have pr: "P r \<le> ptr_max" using layoutD(2) [OF l, of r] rin by simp
    let ?db3 = "db'\<lparr>db_idx := pwrite (db_idx db') (pred 0 us) (ptr_bytes (P r)), db_pos := pred 0 us + 7\<rparr>"
    have run: "db_findfree db kl dl = Some (Returns (0, ?db3))"
      using rd f a rin pr by (simp add: db_findfree_def FREE_OFF_def at_record_def db_writeptr_eq)
    have "rep (pwrite (db_idx db) (pred 0 us) (ptr_bytes (P r))) (db_dat db) (P(pred 0 us := P r)) B rs (L(0 := us @ vs)) (set rs - {r})"
      using layout_writeptr [OF l q(1) pr] listed_unlink [OF repD(2) [OF rep] hc_heads(3) L] keyed_shrink [OF repD(3) [OF rep] hc_heads(3) L] repD(5) [OF rep]
      by (auto simp: rep_def)
    then have ok3: "db_ok ?db3 (P(pred 0 us := P r)) B rs (L(0 := us @ vs)) (set rs - {r})"
      using ok kp by (simp add: db_ok_def keeps_def)
    have other: "(P(pred 0 us := P r)) c = P c" if "c \<in> heads" "c \<noteq> 0" for c
    proof -
      have sub: "set us \<subseteq> set rs" using ch(2) L by simp
      have "us \<noteq> [] \<Longrightarrow> last us \<notin> heads" using layout_rec(3) [OF l] subsetD [OF sub last_in_set] by blast
      with that have "pred 0 us \<noteq> c" by (auto simp: pred_def)
      then show ?thesis by simp
    qed
    have len: "length (db_idx ?db3) = length (db_idx db)" using cell_in_file [OF l q(1)] pr kp by (simp add: length_pwrite keeps_def)
    show thesis
      by (rule some [OF run L rin(1) ok3 _ _ _ _ _ other len]) (use a kp r in \<open>simp_all add: at_record_def keeps_def\<close>)
  qed
qed

lemma db_store_new_run:
  assumes ok: "db_ok db P B rs L (set rs)" and st: "storable db key data" and ch: "db_chainoff db = hc key"
    and new: "db_map B L key = None"
  shows "\<exists>db'. db_store_new db key data = Some (Returns (0, db')) \<and> db_abs db' ((db_map B L)(key \<mapsto> data)) \<and> grown db db'"
proof -
  let ?db = "db\<lparr>db_pos := hc key + 7\<rparr>"
  have l: "layout (db_idx db) (db_dat db) P B rs" by (rule chain_of(3) [OF ok hc_heads(3)])
  have rd: "db_readptr db (int (db_chainoff db)) = Returns (int (P (hc key)), ?db)"
    using db_readptr_layout [OF l, of "hc key"] ch by simp
  have ok1: "db_ok ?db P B rs L (set rs)" using ok by (simp add: db_ok_def)
  show ?thesis
  proof (rule db_findfree_run [OF ok1, of "length key" "length data + 1"])
    fix db2
    assume f: "db_findfree ?db (length key) (length data + 1) = Some (Returns (- 1, db2))" "db_ok db2 P B rs L (set rs)"
      "db_chainoff db2 = db_chainoff ?db" "keeps ?db db2"
    have "storable db2 key data" using st f(4) by (simp add: storable_def keeps_def)
    from db_write_append [OF f(2) this _ new] f(3) ch obtain db3 where
      "db_write_record db2 key data None None (int (P (hc key))) = Returns db3" "db_abs db3 ((db_map B L)(key \<mapsto> data))" "grown db2 db3" by auto
    with rd f(1,4) show ?thesis by (auto simp: db_store_new_def db_abs_def grown_def keeps_def)
  next
    fix db2 P' us r vs
    assume f: "db_findfree ?db (length key) (length data + 1) = Some (Returns (0, db2))" "L 0 = us @ r # vs" "r \<in> set rs"
      "db_ok db2 P' B rs (L(0 := us @ vs)) (set rs - {r})" "db_chainoff db2 = db_chainoff ?db"
      "db_idxoff db2 = r" "db_datoff db2 = bo_off (B r)" "length (bo_key (B r)) = length key" "length (bo_dat (B r)) + 1 = length data + 1"
      "\<And>c. c \<in> heads \<Longrightarrow> c \<noteq> 0 \<Longrightarrow> P' c = P c" "length (db_idx db2) = length (db_idx ?db)" "db_dat db2 = db_dat ?db"
    have st2: "storable db2 key data" using st f(11,12) by (simp add: storable_def)
    have m: "db_map B (L(0 := us @ vs)) = db_map B L" by (auto simp: db_map_def)
    from db_write_reuse [OF f(4) st2 _ _ f(3,6,7,8)] f(5,9,10) ch new m obtain db3 where
      "db_write_record db2 key data (Some (db_datoff db2)) (Some (db_idxoff db2)) (int (P (hc key))) = Returns db3"
      "db_abs db3 ((db_map B L)(key \<mapsto> data))" "grown db2 db3" by auto
    with rd f(1,11,12) show ?thesis by (auto simp: db_store_new_def db_abs_def grown_def)
  qed
qed

text \<open>A record of the same length is written over in the data file.\<close>

lemma db_store_same_run:
  assumes ok: "db_ok db P B rs L (set rs)" and st: "storable db key data" and L: "L (hc key) = us @ r # vs"
    and r: "r \<in> set rs" "at_record db P B r" "bo_key (B r) = key" and len: "length (bo_dat (B r)) = length data"
  shows "db_abs (db_writedat db data (Some (db_datoff db))) ((db_map B L)(key \<mapsto> data)) \<and>
    grown db (db_writedat db data (Some (db_datoff db)))"
proof
  show "grown db (db_writedat db data (Some (db_datoff db)))"
    using layoutD(6) [OF chain_of(3) [OF ok hc_heads(3)] r(1)] r(2) len
    by (simp add: grown_def db_writedat_def Let_def at_record_def holds_at_def length_pwrite)
  have rep: "rep (db_idx db) (db_dat db) P B rs L (set rs)" using ok by (simp add: db_ok_def)
  note l = repD(1) [OF rep] and ke = repD(3) [OF rep]
  let ?B = "B(r := (B r)\<lparr>bo_dat := data\<rparr>)"
  have l2: "layout (db_idx db) (pwrite (db_dat db) (bo_off (B r)) (data @ [NEWLINE])) P ?B rs"
    by (rule layout_data [OF l r(1)]) (use st len in \<open>auto simp: storable_def\<close>)
  have keys: "bo_key (?B q) = bo_key (B q)" for q by simp
  have ke2: "keyed ?B L" using ke unfolding keyed_def keys .
  have "db_map ?B L = (db_map B L)(key \<mapsto> data)"
  proof
    fix x
    show "db_map ?B L x = ((db_map B L)(key \<mapsto> data)) x"
    proof (cases "x = key")
      case True
      then show ?thesis using db_map_Some [OF ke2, of key data] L r by auto
    next
      case False
      then have "bo_key (?B q) = x \<and> bo_dat (?B q) = d \<longleftrightarrow> bo_key (B q) = x \<and> bo_dat (B q) = d" for q d
        using r(3) by auto
      then have "db_map ?B L x = Some d \<longleftrightarrow> db_map B L x = Some d" for d
        by (simp only: db_map_Some [OF ke2] db_map_Some [OF ke])
      with False show ?thesis by (simp add: option_eqI)
    qed
  qed
  then show "db_abs (db_writedat db data (Some (db_datoff db))) ((db_map B L)(key \<mapsto> data))"
    by (rule db_abs_eqI [rotated, where P = P and rs = rs])
      (use l2 repD [OF rep] ke2 ok r in \<open>simp add: db_ok_def rep_def db_writedat_def at_record_def Let_def\<close>)
qed

text \<open>The record is deleted and a longer or shorter one appended.\<close>

lemma db_store_found_run:
  assumes ok: "db_ok db P B rs L (set rs)" and st: "storable db key data" and ch: "db_chainoff db = hc key"
    and L: "L (hc key) = us @ r # vs" and r: "r \<in> set rs" "at_record db P B r" "db_ptroff db = pred (hc key) us" "bo_key (B r) = key"
  shows "\<exists>db'. db_store_found db key data = Returns (0, db') \<and> db_abs db' ((db_map B L)(key \<mapsto> data)) \<and> grown db db'"
proof (cases "length data + 1 = db_datlen db")
  case True
  with r(2) have len: "length (bo_dat (B r)) = length data" by (simp add: at_record_def)
  from db_store_same_run [OF ok st L r(1,2,4) len] True show ?thesis by (simp add: db_store_found_def Let_def db_abs_def grown_def)
next
  case False
  from db_dodelete_run [OF ok hc_heads(1,2) L r(1-3)] obtain db1 P' where
    d: "db_dodelete db = Returns db1" "db_chainoff db1 = db_chainoff db"
    "length (db_idx db1) = length (db_idx db)" "length (db_dat db1) = length (db_dat db)"
    "db_ok db1 P' (B(r := blank (B r))) rs (L(hc key := us @ vs, 0 := r # L 0)) (set rs)" (is "db_ok db1 P' ?B rs ?L _") by blast
  have li: "listed P L (set rs)" and ke: "keyed B L" using ok repD(2,3) by (auto simp: db_ok_def)
  have out: "r \<notin> set ((L(hc key := us @ vs)) c)" if "c \<in> heads" for c
    by (rule listed_out [OF listed_unlink [where c = "hc key" and L = L, OF li hc_heads(1) L] _ that]) simp
  have m: "db_map ?B ?L = (db_map B L)(key := None)" by (rule db_map_delete [OF ke L r(4) out])
  let ?db2 = "db1\<lparr>db_pos := hc key + 7\<rparr>"
  have rd: "db_readptr db1 (int (db_chainoff db1)) = Returns (int (P' (hc key)), ?db2)"
    using db_readptr_layout [OF chain_of(3) [OF d(5) hc_heads(3)], of "hc key"] d(2) ch by simp
  have "db_ok ?db2 P' ?B rs ?L (set rs)" "storable ?db2 key data" using d(3-5) st by (simp_all add: db_ok_def storable_def)
  from db_write_append [OF this] m d(2) ch obtain db3 where
    "db_write_record ?db2 key data None None (int (P' (hc key))) = Returns db3" "db_abs db3 ((db_map B L)(key \<mapsto> data))" "grown ?db2 db3" by auto
  with False d(1,3,4) rd show ?thesis by (simp add: db_store_found_def db_abs_def grown_def)
qed

section \<open>The operations of a map\<close>

text \<open>What \<open>db_store\<close> returns for a key that is there or not.\<close>

definition store_result :: "db_flag \<Rightarrow> bool \<Rightarrow> int" where
  "store_result flag there =
     (case flag of DB_INSERT \<Rightarrow> if there then 1 else 0 | DB_REPLACE \<Rightarrow> if there then 0 else - 1
        | DB_STORE \<Rightarrow> 0 | DB_OTHER \<Rightarrow> - 1)"

lemma db_store_run:
  assumes abs: "db_abs db m" and st: "storable db key data"
  shows "\<exists>db'. db_store db key data flag = Some (Returns (store_result flag (m key \<noteq> None), db')) \<and>
    db_abs db' (if store_result flag (m key \<noteq> None) = 0 then m(key \<mapsto> data) else m) \<and> grown db db'"
proof (cases "flag = DB_OTHER")
  case True
  with abs show ?thesis by (simp add: db_store_def store_result_def grown_same)
next
  case False
  obtain P B rs L where ok: "db_ok db P B rs L (set rs)" and m: "m = db_map B L" using abs by (auto simp: db_abs_def)
  have len: "\<not> (int (length data + 1) < DATLEN_MIN \<or> int (length data + 1) > DATLEN_MAX)"
    using st by (auto simp: storable_def DATLEN_MIN_def DATLEN_MAX_def)
  let ?rest = "\<lambda>(r, db1).
        if r < (0 :: int)
        then (if flag = DB_REPLACE then Some (Returns (- 1 :: int, db1\<lparr>cnt_storerr := cnt_storerr db1 + 1\<rparr>))
              else db_store_new db1 key data)
        else (if flag = DB_INSERT then Some (Returns (1, db1\<lparr>cnt_storerr := cnt_storerr db1 + 1\<rparr>))
              else Some (db_store_found db1 key data))"
  have unf: "db_store db key data flag = bind_run (db_find_and_lock db key) ?rest"
    unfolding db_store_def using False len by (simp only: if_False)
  show ?thesis
  proof (cases "m key")
    case None
    with m find_missing [OF ok, of key] obtain db1 where
      f: "db_find_and_lock db key = Some (Returns (- 1, db1))" "db_ok db1 P B rs L (set rs)" "db_chainoff db1 = hc key" "keeps (db\<lparr>db_chainoff := hc key\<rparr>) db1"
      by auto
    have st1: "storable db1 key data" using st f(4) by (simp add: storable_def keeps_def)
    from None m have "db_map B L key = None" by simp
    from db_store_new_run [OF f(2) st1 f(3) this] f(2,4) m None False show ?thesis
      unfolding unf f(1) by (cases flag) (auto simp: store_result_def grown_def keeps_def intro: db_absI)
  next
    case (Some d)
    with m find_present [OF ok, of key d] obtain db1 us r vs where
      f: "db_find_and_lock db key = Some (Returns (0, db1))" "db_ok db1 P B rs L (set rs)" "db_chainoff db1 = hc key" "L (hc key) = us @ r # vs"
      "r \<in> set rs" "at_record db1 P B r" "db_ptroff db1 = pred (hc key) us" "bo_key (B r) = key" "keeps (db\<lparr>db_chainoff := hc key\<rparr>) db1" by auto
    have st1: "storable db1 key data" using st f(9) by (simp add: storable_def keeps_def)
    from db_store_found_run [OF f(2) st1 f(3-8)] f(2,9) m Some False show ?thesis
      unfolding unf f(1) by (cases flag) (auto simp: store_result_def grown_def keeps_def intro: db_absI)
  qed
qed

end
