(* ===== verification/Db_Spec.thy ===== *)
theory Db_Spec
  imports Db_Correct
begin

text \<open>
  The database against its specification, a map from keys to data: a new database represents the empty map, sequences of
  calls return what the map returns, and a scan of the index file returns every pair once. The contract between the
  calls and the map is the locale \<open>budgeted_refinement\<close>.
\<close>

section \<open>Refinement of sequences of calls\<close>

fun run_cmds :: "('c \<Rightarrow> 'h \<Rightarrow> ('r \<times> 'h) run) \<Rightarrow> 'c list \<Rightarrow> 'h \<Rightarrow> ('r list \<times> 'h) run" where
  "run_cmds step [] h = Some (Returns ([], h))"
| "run_cmds step (c # cs) h =
     bind_run (step c h) (\<lambda>(r, h1). bind_run (run_cmds step cs h1) (\<lambda>(rs, h2). Some (Returns (r # rs, h2))))"

fun run_spec :: "('c \<Rightarrow> 'm \<Rightarrow> 'r \<times> 'm) \<Rightarrow> 'c list \<Rightarrow> 'm \<Rightarrow> 'r list \<times> 'm" where
  "run_spec spec [] m = ([], m)"
| "run_spec spec (c # cs) m = (let (r, m1) = spec c m; (rs, m2) = run_spec spec cs m1 in (r # rs, m2))"

text \<open>
  \<open>abs n\<close> relates a concrete state with room for \<open>n\<close> more calls to an abstract one. Every good call returns
  what the specification returns.
\<close>

locale budgeted_refinement =
  fixes step :: "'c \<Rightarrow> 'h \<Rightarrow> ('r \<times> 'h) run" and spec :: "'c \<Rightarrow> 'm \<Rightarrow> 'r \<times> 'm"
    and abs :: "nat \<Rightarrow> 'h \<Rightarrow> 'm \<Rightarrow> bool" and good :: "'c \<Rightarrow> bool"
  assumes step_abs: "good c \<Longrightarrow> abs (Suc n) h m \<Longrightarrow>
    \<exists>h'. step c h = Some (Returns (fst (spec c m), h')) \<and> abs n h' (snd (spec c m))"
begin

lemma run_abs:
  "list_all good cs \<Longrightarrow> abs (length cs + n) h m \<Longrightarrow>
    \<exists>h'. run_cmds step cs h = Some (Returns (fst (run_spec spec cs m), h')) \<and> abs n h' (snd (run_spec spec cs m))"
proof (induction cs arbitrary: h m)
  case Nil
  then show ?case by simp
next
  case (Cons c cs)
  then obtain h1 where h1: "step c h = Some (Returns (fst (spec c m), h1))" "abs (length cs + n) h1 (snd (spec c m))"
    using step_abs [of c "length cs + n" h m] by auto
  from Cons.IH [OF _ this(2)] Cons.prems(1) obtain h2 where
    "run_cmds step cs h1 = Some (Returns (fst (run_spec spec cs (snd (spec c m))), h2))"
    "abs n h2 (snd (run_spec spec cs (snd (spec c m))))" by auto
  with h1 show ?case by (auto simp: Let_def split: prod.splits)
qed

end

section \<open>The calls and the map\<close>

datatype db_cmd = Fetch string | Store string string db_flag | Delete string
datatype db_res = Data "string option" | Code int

fun exec_cmd :: "db_cmd \<Rightarrow> db \<Rightarrow> (db_res \<times> db) run" where
  "exec_cmd (Fetch k) db = bind_run (db_fetch db k) (\<lambda>(d, db1). Some (Returns (Data d, db1)))"
| "exec_cmd (Store k d f) db = bind_run (db_store db k d f) (\<lambda>(r, db1). Some (Returns (Code r, db1)))"
| "exec_cmd (Delete k) db = bind_run (db_delete db k) (\<lambda>(r, db1). Some (Returns (Code r, db1)))"

fun spec_cmd :: "db_cmd \<Rightarrow> (string \<rightharpoonup> string) \<Rightarrow> db_res \<times> (string \<rightharpoonup> string)" where
  "spec_cmd (Fetch k) m = (Data (m k), m)"
| "spec_cmd (Store k d f) m =
     (let r = store_result f (m k \<noteq> None) in (Code r, if r = 0 then m(k \<mapsto> d) else m))"
| "spec_cmd (Delete k) m = (Code (if m k = None then - 1 else 0), m(k := None))"

fun good_cmd :: "db_cmd \<Rightarrow> bool" where
  "good_cmd (Store k d f) \<longleftrightarrow> k \<noteq> [] \<and> length k \<le> 1000 \<and> NUL \<notin> set k \<and> SEP \<notin> set k \<and>
     1 \<le> length d \<and> length d < 1024 \<and> NUL \<notin> set d"
| "good_cmd _ \<longleftrightarrow> True"

definition db_room :: "nat \<Rightarrow> db \<Rightarrow> (string \<rightharpoonup> string) \<Rightarrow> bool" where
  "db_room n db m \<longleftrightarrow> db_abs db m \<and> length (db_idx db) + 1035 * n \<le> ptr_max \<and> length (db_dat db) + 1035 * n < 10 ^ 10"

lemma db_room_grown: "db_room (Suc n) db m \<Longrightarrow> db_abs db' m' \<Longrightarrow> grown db db' \<Longrightarrow> db_room n db' m'"
  by (simp add: db_room_def grown_def)

interpretation db: budgeted_refinement exec_cmd spec_cmd db_room good_cmd
proof unfold_locales
  fix c :: db_cmd and n db m
  assume good: "good_cmd c" and room: "db_room (Suc n) db m"
  then have abs: "db_abs db m" by (simp add: db_room_def)
  then obtain P B rs L where ok: "db_ok db P B rs L (set rs)" and m: "m = db_map B L" by (auto simp: db_abs_def)
  note keep = db_room_grown [OF room]
  show "\<exists>h'. exec_cmd c db = Some (Returns (fst (spec_cmd c m), h')) \<and> db_room n h' (snd (spec_cmd c m))"
  proof (cases c)
    case (Fetch k)
    with db_fetch_run [OF ok, of k] m show ?thesis by (auto intro!: keep db_absI)
  next
    case (Store k d f)
    then have st: "storable db k d" using good room by (simp add: storable_def db_room_def)
    from db_store_run [OF abs st, of f] Store keep show ?thesis by (auto simp: Let_def)
  next
    case (Delete k)
    with db_delete_run [OF ok, of k] m keep show ?thesis by auto
  qed
qed

section \<open>A new database\<close>

lemma holds_at_replicate: "k < n \<Longrightarrow> holds_at (concat (replicate n s) @ t) (k * length s) s"
proof (induction n arbitrary: k)
  case 0
  then show ?case by simp
next
  case (Suc n)
  show ?case
  proof (cases k)
    case 0
    then show ?thesis by (simp add: holds_at_def nth_append)
  next
    case (Suc j)
    with Suc.IH [of j] Suc.prems have "holds_at (concat (replicate n s) @ t) (j * length s) s" by simp
    then show ?thesis using Suc by (simp add: holds_at_def nth_append add.assoc)
  qed
qed

definition new_db :: db where
  "new_db = (case db_open True True (Some []) (Some []) of Returns (Some db) \<Rightarrow> db)"

lemma length_concat_replicate: "length (concat (replicate n s)) = n * length s"
  by (induction n) auto

lemma db_open_new: "db_open True True (Some idx) (Some dat) = Returns (Some new_db)"
  by (simp add: new_db_def db_open_def db_alloc_def Let_def)

lemma new_db_files:
  "db_idx new_db = concat (replicate 138 (ptr_bytes 0)) @ [NEWLINE]" "db_dat new_db = []"
  "db_nhash new_db = 137" "db_hashoff new_db = 7" "db_pos new_db = 967"
proof -
  have n: "NHASH_DEF + 1 = 138" by (simp add: NHASH_DEF_def)
  show "db_idx new_db = concat (replicate 138 (ptr_bytes 0)) @ [NEWLINE]"
    unfolding new_db_def db_open_def n by (simp add: db_alloc_def Let_def db_rewind_def ptr_bytes_def)
qed (simp_all add: new_db_def db_open_def db_alloc_def Let_def db_rewind_def NHASH_DEF_def HASH_OFF_def PTR_SZ_def)

lemma new_db_length: "length (db_idx new_db) = 967"
  by (simp add: new_db_files length_concat_replicate)

lemma new_db_abs: "db_abs new_db Map.empty"
proof -
  have "layout (db_idx new_db) (db_dat new_db) (\<lambda>_. 0) B []" for B
  proof (rule layoutI)
    fix c
    assume "c \<in> heads \<or> c \<in> set []"
    then obtain k where "c = k * length (ptr_bytes 0)" "k < 138" by (auto simp: heads_def)
    then show "holds_at (db_idx new_db) c (ptr_bytes 0)" using holds_at_replicate [of k 138 "ptr_bytes 0"] by (simp only: new_db_files)
  qed (use new_db_length in auto)
  moreover have "listed (\<lambda>_. 0) (\<lambda>_. []) {}" by (simp add: listed_def links_def)
  moreover have "keyed B (\<lambda>_. [])" for B by (simp add: keyed_def)
  ultimately have "db_ok new_db (\<lambda>_. 0) B [] (\<lambda>_. []) (set [])" for B by (simp add: db_ok_def rep_def new_db_files)
  moreover have "db_map B (\<lambda>_. []) = Map.empty" for B by (auto simp: db_map_def)
  ultimately show ?thesis by (blast intro: db_abs_eqI)
qed

section \<open>Scanning the index file\<close>

definition blank_key :: "string \<Rightarrow> bool" where
  "blank_key k \<longleftrightarrow> list_all (\<lambda>c. c = SPACE) k"

text \<open>The file offset is at the first of the records \<open>bs\<close>, the last ones of the file.\<close>

definition scan_at :: "db \<Rightarrow> (nat \<Rightarrow> body) \<Rightarrow> nat list \<Rightarrow> bool" where
  "scan_at db B bs \<longleftrightarrow> tiles (\<lambda>r. rsize (B r)) (db_pos db) bs (length (db_idx db))"

abbreviation skip :: "(nat \<Rightarrow> body) \<Rightarrow> nat list \<Rightarrow> nat list" where
  "skip B bs \<equiv> dropWhile (\<lambda>r. blank_key (bo_key (B r))) bs"

lemma db_nextrec_run:
  assumes "db_ok db P B rs L S" "scan_at db B bs" "set bs \<subseteq> set rs"
  shows "\<exists>db'. db_nextrec db = Some (Returns (case skip B bs of [] \<Rightarrow> None | r # _ \<Rightarrow> Some (bo_key (B r), bo_dat (B r)), db')) \<and>
    db_ok db' P B rs L S \<and> scan_at db' B (tl (skip B bs))"
  using assms
proof (induction bs arbitrary: db)
  case Nil
  then have "db_pos db = length (db_idx db)" by (simp add: scan_at_def)
  from db_readidx_end [OF this] Nil show ?case by (subst db_nextrec.simps) (auto simp: db_ok_def scan_at_def)
next
  case (Cons r bs)
  let ?db = "read_handle db P B r"
  have l: "layout (db_idx db) (db_dat db) P B rs" by (rule chain_of(3) [OF Cons.prems(1) hc_heads(3)])
  have r: "r \<in> set rs" "db_pos db = r" using Cons.prems by (auto simp: scan_at_def)
  have rd: "db_readidx db 0 = Returns (int (P r), ?db)" by (rule db_readidx_layout [OF l r(1)]) (use r in simp)
  have ok: "db_ok ?db P B rs L S" by (rule db_ok_keeps [OF Cons.prems(1)]) simp
  have sc: "scan_at ?db B bs" using Cons.prems(2) by (auto simp: scan_at_def)
  show ?case
  proof (cases "blank_key (bo_key (B r))")
    case True
    then have "db_nextrec db = db_nextrec ?db" by (subst db_nextrec.simps) (simp add: rd blank_key_def)
    with Cons.IH [OF ok sc] Cons.prems(3) True show ?thesis by simp
  next
    case False
    have "db_readdat ?db = Returns (bo_dat (B r), ?db\<lparr>db_datbuf := bo_dat (B r)\<rparr>)"
      by (rule db_readdat_layout [of _ P B rs]) (use l r in \<open>simp_all add: read_handle_def\<close>)
    with False rd ok sc show ?thesis by (subst db_nextrec.simps) (simp add: blank_key_def db_ok_def scan_at_def)
  qed
qed

text \<open>The results of \<open>n\<close> calls of \<open>db_nextrec\<close>.\<close>

fun db_scan :: "nat \<Rightarrow> db \<Rightarrow> ((string \<times> string) option list \<times> db) run" where
  "db_scan 0 db = Some (Returns ([], db))"
| "db_scan (Suc n) db =
     bind_run (db_nextrec db) (\<lambda>(r, db1). bind_run (db_scan n db1) (\<lambda>(rs, db2). Some (Returns (r # rs, db2))))"

lemma db_scan_run:
  assumes "db_ok db P B rs L S" "scan_at db B bs" "set bs \<subseteq> set rs"
  defines "ps \<equiv> \<lambda>bs. map (\<lambda>r. (bo_key (B r), bo_dat (B r))) (filter (\<lambda>r. \<not> blank_key (bo_key (B r))) bs)"
  shows "\<exists>db'. db_scan (length (ps bs) + 1) db = Some (Returns (map Some (ps bs) @ [None], db')) \<and> db_ok db' P B rs L S"
  using assms(1-3)
proof (induction "length bs" arbitrary: db bs rule: less_induct)
  case less
  from db_nextrec_run [OF less.prems] obtain db1 where
    n: "db_nextrec db = Some (Returns (case skip B bs of [] \<Rightarrow> None | r # _ \<Rightarrow> Some (bo_key (B r), bo_dat (B r)), db1))"
    "db_ok db1 P B rs L S" "scan_at db1 B (tl (skip B bs))" by blast
  have sk: "filter (\<lambda>r. \<not> blank_key (bo_key (B r))) bs = filter (\<lambda>r. \<not> blank_key (bo_key (B r))) (skip B bs)" by (induction bs) auto
  show ?case
  proof (cases "skip B bs")
    case Nil
    with n sk show ?thesis by (simp add: ps_def)
  next
    case (Cons r cs)
    have nb: "\<not> blank_key (bo_key (B r))" using hd_dropWhile [of _ bs] Cons by (metis list.sel(1) list.simps(3))
    have "length cs < length bs" using length_dropWhile_le [of _ bs] Cons by (metis Suc_le_eq length_Cons)
    moreover have "set cs \<subseteq> set rs" using set_dropWhileD [of _ _ bs] Cons less.prems(3) by (metis list.set_intros(2) subsetD subsetI)
    ultimately obtain db2 where "db_scan (length (ps cs) + 1) db1 = Some (Returns (map Some (ps cs) @ [None], db2))" "db_ok db2 P B rs L S"
      using less.hyps [of cs db1] n(2,3) Cons by auto
    moreover have "ps bs = (bo_key (B r), bo_dat (B r)) # ps cs" using sk Cons nb by (simp add: ps_def)
    ultimately show ?thesis using n(1) Cons by simp
  qed
qed

lemma tiles_distinct: "tiles sz s rs e \<Longrightarrow> (\<And>r. r \<in> set rs \<Longrightarrow> 0 < sz r) \<Longrightarrow> distinct rs"
proof (induction rs arbitrary: s)
  case (Cons r rs)
  have "tiles sz (s + sz r) rs e" "r = s" using Cons.prems(1) by auto
  moreover from this have "r + sz r \<le> q" if "q \<in> set rs" for q using tiles_bounds [of sz "s + sz r" rs e] that by auto
  moreover have "0 < sz r" using Cons.prems(2) [of r] by simp
  ultimately have "r \<notin> set rs" "distinct rs" using Cons.IH [of "s + sz r"] Cons.prems(2) by force+
  then show ?case by simp
qed simp

lemma live_pairs:
  assumes ok: "db_ok db P B rs L (set rs)" and ps: "ps = map (\<lambda>r. (bo_key (B r), bo_dat (B r))) (filter (\<lambda>r. \<not> blank_key (bo_key (B r))) rs)"
  shows "distinct (map fst ps)" "map_of ps = (\<lambda>k. if blank_key k then None else db_map B L k)"
proof -
  have rep: "rep (db_idx db) (db_dat db) P B rs L (set rs)" using ok by (simp add: db_ok_def)
  note ke = repD(3) [OF rep] and li = repD(2) [OF rep]
  have place: "r \<in> set (L (hc (bo_key (B r))))" if "r \<in> set rs" "\<not> blank_key (bo_key (B r))" for r
  proof -
    have "r \<in> (\<Union>c\<in>heads. set (L c))" unfolding listedD(3) [OF li] by (rule that(1))
    then obtain c where c: "c \<in> heads" "r \<in> set (L c)" by (rule UN_E)
    have "c \<noteq> 0"
    proof
      assume "c = 0"
      then have "set (bo_key (B r)) \<subseteq> {SPACE}" using keyedD(3) [OF ke] c(2) by blast
      then show False using that(2) by (auto simp: blank_key_def list_all_iff)
    qed
    with keyedD(1) [OF ke c(1) _ c(2)] c show ?thesis by simp
  qed
  have "inj_on (\<lambda>r. bo_key (B r)) (set (filter (\<lambda>r. \<not> blank_key (bo_key (B r))) rs))"
  proof (rule inj_onI, goal_cases)
    case (1 r q)
    then have "r \<in> set (L (hc (bo_key (B r))))" "q \<in> set (L (hc (bo_key (B r))))" using place [of r] place [of q] by auto
    then show ?case using keyedD(2) [OF ke, of "hc (bo_key (B r))"] 1(3) by (auto simp: distinct_map inj_on_def)
  qed
  moreover have "distinct rs" by (rule tiles_distinct [OF layoutD(3) [OF repD(1) [OF rep]]]) (simp add: rsize_def)
  ultimately show d: "distinct (map fst ps)" by (simp add: ps distinct_map comp_def)
  have "map_of ps k = Some d \<longleftrightarrow> \<not> blank_key k \<and> db_map B L k = Some d" for k d
  proof -
    have "map_of ps k = Some d \<longleftrightarrow> (\<exists>r\<in>set rs. \<not> blank_key k \<and> bo_key (B r) = k \<and> bo_dat (B r) = d)"
      using map_of_eq_Some_iff [OF d] by (auto simp: ps)
    also have "\<dots> \<longleftrightarrow> \<not> blank_key k \<and> db_map B L k = Some d"
      using place list_in_file [OF rep hc_heads(1)] by (fastforce simp: db_map_Some [OF ke])
    finally show ?thesis .
  qed
  then show "map_of ps = (\<lambda>k. if blank_key k then None else db_map B L k)" by (intro ext option_eqI) auto
qed

section \<open>Properties\<close>

text \<open>
  C2. For every list of calls with keys and data the record format can hold, on a database that \<open>db_open\<close> just created,
  \<open>db_fetch\<close>, \<open>db_store\<close> and \<open>db_delete\<close> end and return exactly what the same operations of a map return,
  whatever records share a hash chain, are reused from the free list or change their length. The bound is the room
  the 7 digit pointers leave for one new record per call.
\<close>

theorem db_refines_map:
  assumes "list_all good_cmd cs" "length cs \<le> 9660"
  shows "\<exists>db db'. db_open True True (Some idx) (Some dat) = Returns (Some db) \<and>
    run_cmds exec_cmd cs db = Some (Returns (fst (run_spec spec_cmd cs Map.empty), db')) \<and>
    db_abs db' (snd (run_spec spec_cmd cs Map.empty))"
proof -
  have "db_room (length cs + 0) new_db Map.empty"
    using assms(2) new_db_abs new_db_length by (simp add: db_room_def new_db_files)
  from db.run_abs [OF assms(1) this] db_open_new show ?thesis by (auto simp: db_room_def)
qed

theorem db_refines_map_witness:
  "\<exists>db db'. db_open True True (Some []) (Some []) = Returns (Some db) \<and>
    run_cmds exec_cmd [Store ''k'' ''one'' DB_INSERT, Store ''k'' ''other'' DB_INSERT, Store ''k'' ''longer'' DB_STORE,
      Fetch ''k'', Delete ''k'', Fetch ''k'', Store ''j'' ''d'' DB_REPLACE] db =
      Some (Returns ([Code 0, Code 1, Code 0, Data (Some ''longer''), Code 0, Data None, Code (- 1)], db'))"
  using db_refines_map [of "[Store ''k'' ''one'' DB_INSERT, Store ''k'' ''other'' DB_INSERT, Store ''k'' ''longer'' DB_STORE,
      Fetch ''k'', Delete ''k'', Fetch ''k'', Store ''j'' ''d'' DB_REPLACE]" "[]" "[]"]
  by (simp add: store_result_def Let_def del: run_cmds.simps) blast

text \<open>
  \<open>db_store\<close> on any database that represents a map: its return value for every flag, and the map afterwards. Storing
  writes over a record of the same length, deletes and appends otherwise, and a new key takes a free record of
  its lengths or goes to the end of the files.
\<close>

theorem db_store_correct:
  assumes "db_abs db m" "storable db key data"
  shows "\<exists>db'. db_store db key data flag = Some (Returns (store_result flag (m key \<noteq> None), db')) \<and>
    db_abs db' (if store_result flag (m key \<noteq> None) = 0 then m(key \<mapsto> data) else m)"
  using db_store_run [OF assms] by blast

theorem db_store_correct_witness:
  "\<exists>db'. db_store new_db ''key'' ''data'' DB_INSERT = Some (Returns (0, db')) \<and> db_abs db' [''key'' \<mapsto> ''data'']"
  using db_store_correct [OF new_db_abs, of "''key''" "''data''" DB_INSERT] new_db_length
  by (simp add: storable_def new_db_files store_result_def)

text \<open>
  C20. After \<open>db_rewind\<close>, \<open>db_nextrec\<close> returns every pair of the map with a key that is not blank exactly once,
  and then reports the end; the database is unchanged.
\<close>

theorem db_nextrec_scan:
  assumes "db_abs db m"
  shows "\<exists>ps db'. db_scan (length ps + 1) (db_rewind db) = Some (Returns (map Some ps @ [None], db')) \<and>
    distinct (map fst ps) \<and> map_of ps = (\<lambda>k. if blank_key k then None else m k) \<and> db_abs db' m"
proof -
  obtain P B rs L where ok: "db_ok db P B rs L (set rs)" and m: "m = db_map B L" using assms by (auto simp: db_abs_def)
  let ?ps = "map (\<lambda>r. (bo_key (B r), bo_dat (B r))) (filter (\<lambda>r. \<not> blank_key (bo_key (B r))) rs)"
  have ok1: "db_ok (db_rewind db) P B rs L (set rs)" using ok by (simp add: db_ok_def db_rewind_def Let_def)
  have "scan_at (db_rewind db) B rs"
    using layoutD(3) [OF chain_of(3) [OF ok hc_heads(3)]] ok by (simp add: scan_at_def db_rewind_def Let_def db_ok_def PTR_SZ_def)
  from db_scan_run [OF ok1 this subset_refl] obtain db' where
    "db_scan (length ?ps + 1) (db_rewind db) = Some (Returns (map Some ?ps @ [None], db'))" "db_ok db' P B rs L (set rs)" by blast
  with live_pairs [OF ok refl] db_absI m show ?thesis by blast
qed

theorem db_nextrec_scan_witness:
  "\<exists>ps db'. db_scan (length ps + 1) (db_rewind new_db) = Some (Returns (map Some ps @ [None], db')) \<and>
    distinct (map fst ps) \<and> map_of ps = Map.empty"
  using db_nextrec_scan [OF new_db_abs] by auto

text \<open>
  Round trip of the record format: parsing the bytes \<open>_db_writeidx\<close> prints for a record gives the key, the data
  offset and the data length back.
\<close>

theorem db_record_roundtrip:
  assumes "NUL \<notin> set key" "SEP \<notin> set key" "1 \<le> datlen" "datlen \<le> 1024"
  shows "db_parse (idx_body key datoff datlen) = Returns (key, int datoff, int datlen)"
  using parse_idx_body [OF assms] .

theorem db_record_roundtrip_witness: "db_parse (idx_body ''alpha'' 1234 17) = Returns (''alpha'', 1234, 17)"
  using db_record_roundtrip [of "''alpha''" 17 1234] by simp

text \<open>
  A key with a separator in it is written without complaint, but its record cannot be read again: the
  process ends the next time the record is read.
\<close>

theorem db_separator_in_key:
  assumes "NUL \<notin> set key" "SEP \<in> set key"
  shows "db_parse (idx_body key datoff datlen) = Dies ''_db_readidx: too many separators''"
  using parse_separator [OF assms] .

theorem db_separator_in_key_witness:
  "db_parse (idx_body ''a:b'' 0 2) = Dies ''_db_readidx: too many separators''"
  using db_separator_in_key [of "''a:b''" 0 2] by simp

end
