(* ===== verification/Checksum.thy ===== *)
theory Checksum
  imports Prelude
begin

text \<open>
  The Internet checksum: \<open>in_cksum\<close> of \<open>extra_lib/unpv13e/libfree/in_cksum.c\<close> with a 32 bit sum and
  two folding steps, and \<open>in_checknum\<close> of \<open>person/traceroute/in_checknum.c\<close> with an \<open>unsigned long\<close> and
  a folding loop. Buffers are lists of bytes; a 16 bit word is read in the byte order of the host, low byte
  first. The sums are natural numbers with the wrap-around of their types written out.
\<close>

section \<open>The two routines\<close>

definition le16 :: "nat \<Rightarrow> nat \<Rightarrow> nat" where
  "le16 b0 b1 = b0 + 256 * b1"

fun in_cksum_loop :: "nat \<Rightarrow> nat list \<Rightarrow> nat" where
  "in_cksum_loop acc (b0 # b1 # w) = in_cksum_loop ((acc + le16 b0 b1) mod 2 ^ 32) w"
| "in_cksum_loop acc [b] = (acc + b) mod 2 ^ 32"
| "in_cksum_loop acc [] = acc"

definition in_cksum :: "nat list \<Rightarrow> nat" where
  "in_cksum addr =
     (let acc = in_cksum_loop 0 addr;
          sum1 = (acc div 2 ^ 16 + acc mod 2 ^ 16) mod 2 ^ 32;
          sum2 = (sum1 + sum1 div 2 ^ 16) mod 2 ^ 32 in
      (2 ^ 32 - 1 - sum2) mod 2 ^ 16)"

fun in_checknum_loop :: "nat \<Rightarrow> nat list \<Rightarrow> nat" where
  "in_checknum_loop cksum (b0 # b1 # buffer) = in_checknum_loop ((cksum + le16 b0 b1) mod 2 ^ 64) buffer"
| "in_checknum_loop cksum [b] = (cksum + b) mod 2 ^ 64"
| "in_checknum_loop cksum [] = cksum"

text \<open>The folding loop, which ends because a fold makes a sum of more than 16 bits smaller.\<close>

function fold_carry :: "nat \<Rightarrow> nat" where
  "fold_carry cksum = (if cksum div 2 ^ 16 \<noteq> 0 then fold_carry (cksum div 2 ^ 16 + cksum mod 2 ^ 16) else cksum)"
  by pat_completeness auto
termination
proof (relation "measure id")
  fix c :: nat
  assume q: "c div 2 ^ 16 \<noteq> 0"
  then have "0 < c div 65536" by simp
  then have "c div 65536 + c mod 65536 < c" using div_mult_mod_eq [of c 65536] by linarith
  then show "(c div 2 ^ 16 + c mod 2 ^ 16, c) \<in> measure id" by simp
qed simp

declare fold_carry.simps [simp del]

definition in_checknum :: "nat list \<Rightarrow> nat" where
  "in_checknum buffer = (2 ^ 64 - 1 - fold_carry (in_checknum_loop 0 buffer)) mod 2 ^ 16"

section \<open>The ones' complement sum\<close>

fun word_sum :: "nat list \<Rightarrow> nat" where
  "word_sum (b0 # b1 # w) = le16 b0 b1 + word_sum w"
| "word_sum [b] = b"
| "word_sum [] = 0"

text \<open>The residue of the sum, with 65535 instead of 0 for a sum that is not 0.\<close>

definition ones_sum :: "nat \<Rightarrow> nat" where
  "ones_sum n = (if n = 0 then 0 else if n mod 65535 = 0 then 65535 else n mod 65535)"

lemma ones_sum_bound: "ones_sum n \<le> 65535"
  using mod_less_divisor [of 65535 n] by (auto simp: ones_sum_def)

lemma ones_sum_small: "n \<le> 65535 \<Longrightarrow> ones_sum n = n"
  by (cases "n = 65535") (auto simp: ones_sum_def)

lemma ones_sum_fold: "ones_sum (n div 65536 + n mod 65536) = ones_sum n"
proof -
  have "n = n div 65536 * 65535 + (n div 65536 + n mod 65536)" using div_mult_mod_eq [of n 65536] by simp
  then have "n mod 65535 = (n div 65536 + n mod 65536) mod 65535" by (metis mod_mult_self3)
  moreover have "n div 65536 + n mod 65536 = 0 \<longleftrightarrow> n = 0" using div_mult_mod_eq [of n 65536] by auto
  ultimately show ?thesis by (simp add: ones_sum_def)
qed

lemma fold_carry_ones: "fold_carry n = ones_sum n"
proof (induction n rule: fold_carry.induct)
  case (1 n)
  show ?case
  proof (cases "n div 2 ^ 16 \<noteq> 0")
    case True
    with 1 ones_sum_fold [of n] show ?thesis by (subst fold_carry.simps) simp
  next
    case False
    then have "n \<le> 65535" by (simp add: div_eq_0_iff)
    with False ones_sum_small show ?thesis by (subst fold_carry.simps) simp
  qed
qed

lemma word_sum_bound: "list_all (\<lambda>b. b \<le> 255) bs \<Longrightarrow> word_sum bs \<le> 65535 * ((length bs + 1) div 2)"
proof (induction bs rule: word_sum.induct)
  case (1 b0 b1 w)
  then have "word_sum w \<le> 65535 * ((length w + 1) div 2)" "le16 b0 b1 \<le> 65535" by (auto simp: le16_def)
  then show ?case by (simp add: le16_def)
qed auto

lemma in_cksum_loop_sum: "acc < 2 ^ 32 \<Longrightarrow> in_cksum_loop acc bs = (acc + word_sum bs) mod 2 ^ 32"
  by (induction acc bs rule: in_cksum_loop.induct) (auto simp: mod_simps ac_simps)

lemma in_checknum_loop_sum: "acc < 2 ^ 64 \<Longrightarrow> in_checknum_loop acc bs = (acc + word_sum bs) mod 2 ^ 64"
  by (induction acc bs rule: in_checknum_loop.induct) (auto simp: mod_simps ac_simps)

text \<open>Two folding steps are enough for a 32 bit sum.\<close>

lemma two_folds:
  assumes "n < 2 ^ 32"
  defines "s1 \<equiv> n div 65536 + n mod 65536"
  shows "(s1 + s1 div 65536) mod 65536 = ones_sum n" "s1 + s1 div 65536 < 2 ^ 32" "s1 < 2 ^ 32"
proof -
  have "n div 65536 \<le> 65535" using assms(1) by (simp add: div_le_mono [of n "2 ^ 32 - 1" 65536, simplified])
  moreover have "n mod 65536 \<le> 65535" using mod_less_divisor [of 65536 n] by linarith
  ultimately have s1: "s1 \<le> 131070" unfolding s1_def by linarith
  have eq: "ones_sum n = ones_sum s1" unfolding s1_def by (rule ones_sum_fold [symmetric])
  show "(s1 + s1 div 65536) mod 65536 = ones_sum n"
  proof (cases "s1 \<le> 65535")
    case True
    then show ?thesis using eq ones_sum_small by simp
  next
    case False
    then have "s1 div 65536 = 1" using s1 by (simp add: div_nat_eqI)
    moreover obtain r where r: "s1 = 65536 + r" "r \<le> 65534" using False s1 le_Suc_ex [of 65536 s1] by auto
    moreover have "ones_sum s1 = r + 1" using r by (cases "r = 65534") (auto simp: ones_sum_def mod_if)
    moreover have "(65536 + (r + 1)) mod 65536 = r + 1" using r(2) by (simp only: mod_add_self1) simp
    ultimately show ?thesis using eq by (simp add: add.commute)
  qed
  show "s1 + s1 div 65536 < 2 ^ 32" "s1 < 2 ^ 32" using s1 div_le_dividend [of s1 65536] by auto
qed

text \<open>The complement, cut off to 16 bits.\<close>

lemma complement16:
  fixes s K :: nat
  assumes "s < 65536 * K"
  shows "(65536 * K - 1 - s) mod 65536 = 65535 - s mod 65536"
proof -
  define q r where "q = s div 65536" and "r = s mod 65536"
  then have s: "s = 65536 * q + r" "r < 65536" by simp_all
  have "q < K" using assms unfolding q_def by (simp add: less_mult_imp_div_less mult.commute)
  then obtain d where K: "K = Suc (q + d)" using less_imp_Suc_add by blast
  have "65536 * K - 1 - s = 65536 * d + (65535 - r)" using s by (simp add: K)
  moreover have "(65536 * d + x) mod 65536 = x" if "x < 65536" for x using that by simp
  moreover have "65535 - r < 65536" by simp
  ultimately show ?thesis using r_def by (simp only:)
qed

lemma in_cksum_ones:
  assumes "list_all (\<lambda>b. b \<le> 255) bs" "length bs \<le> 131072"
  shows "in_cksum bs = 65535 - ones_sum (word_sum bs)"
proof -
  have "(length bs + 1) div 2 \<le> 65536" using assms(2) by simp
  then have "word_sum bs \<le> 65535 * 65536" using word_sum_bound [OF assms(1)] by (meson le_trans mult_le_mono2)
  then have small: "word_sum bs < 2 ^ 32" by simp
  let ?n = "word_sum bs"
  let ?s = "(?n div 65536 + ?n mod 65536) + (?n div 65536 + ?n mod 65536) div 65536"
  have "in_cksum bs = (2 ^ 32 - 1 - ?s) mod 2 ^ 16"
    using in_cksum_loop_sum [of 0 bs] small two_folds(2,3) [OF small] by (simp add: in_cksum_def Let_def)
  also have "\<dots> = 65535 - ?s mod 65536" using complement16 [of ?s 65536] two_folds(2) [OF small] by simp
  finally show ?thesis using two_folds(1) [OF small] by simp
qed

lemma in_checknum_ones:
  assumes "list_all (\<lambda>b. b \<le> 255) bs" "length bs < 2 ^ 32"
  shows "in_checknum bs = 65535 - ones_sum (word_sum bs)"
proof -
  have "(length bs + 1) div 2 \<le> 2 ^ 32" using assms(2) by simp
  then have "word_sum bs \<le> 65535 * 2 ^ 32" using word_sum_bound [OF assms(1)] by (meson le_trans mult_le_mono2)
  then have small: "word_sum bs < 2 ^ 64" by simp
  have "in_checknum bs = (2 ^ 64 - 1 - ones_sum (word_sum bs)) mod 2 ^ 16"
    using in_checknum_loop_sum [of 0 bs] small by (simp add: in_checknum_def fold_carry_ones)
  also have "\<dots> = 65535 - ones_sum (word_sum bs)"
    using complement16 [of "ones_sum (word_sum bs)" "2 ^ 48"] ones_sum_bound [of "word_sum bs"] by simp
  finally show ?thesis .
qed

section \<open>Properties\<close>

text \<open>
  The checksum routine of the traceroute program and the library's routine with its 32 bit sum and two folds return
  the same checksum for every buffer in which the 32 bit sum cannot overflow.
\<close>

theorem in_cksum_in_checknum:
  assumes "list_all (\<lambda>b. b \<le> 255) bs" "length bs \<le> 131072"
  shows "in_cksum bs = in_checknum bs"
  using in_cksum_ones [OF assms] in_checknum_ones [OF assms(1)] assms(2) by simp

theorem in_cksum_in_checknum_witness: "in_cksum [8, 0, 0, 0, 1, 2, 3] = in_checknum [8, 0, 0, 0, 1, 2, 3]"
  by (rule in_cksum_in_checknum) simp_all

text \<open>A message with its checksum stored in it sums to 65535, whose complement is 0.\<close>

lemma ones_sum_complement: "ones_sum (n + (65535 - ones_sum n)) = 65535"
proof (cases "n = 0 \<or> n mod 65535 = 0")
  case True
  then show ?thesis by (auto simp: ones_sum_def)
next
  case False
  have "n mod 65535 \<le> 65535" using mod_less_divisor [of 65535 n] by linarith
  then have "(n + (65535 - n mod 65535)) mod 65535 = 0"
    by (metis add_diff_cancel_left' le_add_diff_inverse mod_add_left_eq mod_self)
  with False show ?thesis by (simp add: ones_sum_def)
qed

end
