(* ===== verification/Inet.thy ===== *)
theory Inet
  imports Cstring
begin

text \<open>
  Text form of IPv4 addresses: \<open>inet_pton4\<close> and \<open>inet_ntop4\<close> of
  \<open>extra_lib/unpv13e/libfree/inet_pton.c\<close> and \<open>inet_ntop.c\<close>, and \<open>inet_aton\<close> of \<open>inet_aton.c\<close>. Addresses are
  lists of bytes in network order; \<open>None\<close> is the return value 0 of the parsers, which then leave the
  destination alone. The parsers work on the characters before the null byte.
\<close>

section \<open>Characters\<close>

text \<open>\<open>strchr(s, c) - s\<close>, for a character other than the null byte.\<close>

definition strchr_pos :: "string \<Rightarrow> char \<Rightarrow> nat option" where
  "strchr_pos s c = (if c \<in> set s then Some (length (takeWhile (\<lambda>x. x \<noteq> c) s)) else None)"

abbreviation DOT :: char where "DOT \<equiv> CHR ''.''"

definition digits :: string where
  "digits = ''0123456789''"

lemma digit_cases:
  assumes "isdigit c"
  obtains d where "d < 10" "c = digit d"
proof -
  have "c = digit ((of_char c :: nat) - 48)" using assms by (simp add: isdigit_def digit_def)
  moreover have "(of_char c :: nat) - 48 < 10" using assms unfolding isdigit_def by arith
  ultimately show thesis by (rule that [rotated])
qed

lemma strchr_digit: "d < 10 \<Longrightarrow> strchr_pos digits (digit d) = Some d"
proof -
  have "list_all (\<lambda>d. strchr_pos digits (digit d) = Some d) [0..<10]" by code_simp
  then show "d < 10 \<Longrightarrow> strchr_pos digits (digit d) = Some d" by (simp add: list_all_iff)
qed

lemma isdigit_iff: "isdigit c \<longleftrightarrow> c \<in> set digits"
proof
  assume "isdigit c"
  then obtain d where "d < 10" "c = digit d" by (rule digit_cases)
  then show "c \<in> set digits" using strchr_digit [of d] by (auto simp: strchr_pos_def split: if_splits)
qed (auto simp: digits_def isdigit_def)

lemma strchr_digits: "strchr_pos digits c = (if isdigit c then Some ((of_char c :: nat) - 48) else None)"
proof (cases "isdigit c")
  case True
  then obtain d where "d < 10" "c = digit d" by (rule digit_cases)
  with True strchr_digit [of d] show ?thesis by simp
qed (simp add: strchr_pos_def isdigit_iff)

section \<open>Parsing\<close>

fun pton4_loop :: "nat list \<Rightarrow> nat \<Rightarrow> bool \<Rightarrow> nat \<Rightarrow> string \<Rightarrow> nat list option" where
  "pton4_loop tmp tp saw_digit octets [] = (if octets < 4 then None else Some tmp)"
| "pton4_loop tmp tp saw_digit octets (ch # src) =
     (case strchr_pos digits ch of
        Some d \<Rightarrow>
          let new = tmp ! tp * 10 + d in
          if new > 255 then None
          else let tmp1 = tmp[tp := new] in
               if \<not> saw_digit
               then (if octets + 1 > 4 then None else pton4_loop tmp1 tp True (octets + 1) src)
               else pton4_loop tmp1 tp True octets src
      | None \<Rightarrow>
          if ch = DOT \<and> saw_digit
          then (if octets = 4 then None else pton4_loop (tmp[tp + 1 := 0]) (tp + 1) False octets src)
          else None)"

definition inet_pton4 :: "string \<Rightarrow> nat list option" where
  "inet_pton4 src = pton4_loop [0, 0, 0, 0] 0 False 0 src"

text \<open>
  \<open>inet_aton\<close>: the accumulators are \<open>unsigned long\<close> and wrap around. The list of characters is
  consumed with its null byte, the last round of the loop.
\<close>

fun aton_loop :: "nat \<Rightarrow> 64 word \<Rightarrow> 64 word \<Rightarrow> string \<Rightarrow> (nat \<times> 64 word) option" where
  "aton_loop dots acc addr [] =
     (if acc > 255 then None else Some (dots, or (push_bit 8 addr) acc))"
| "aton_loop dots acc addr (cc # cp) =
     (if isdigit cc then aton_loop dots (acc * 10 + of_nat ((of_char cc :: nat) - 48)) addr cp
      else if cc = DOT
      then (if dots + 1 > 3 then None
            else if acc > 255 then None
            else aton_loop (dots + 1) 0 (or (push_bit 8 addr) acc) cp)
      else None)"

definition addr_bytes :: "64 word \<Rightarrow> nat list" where
  "addr_bytes a = map (\<lambda>k. unat (and (drop_bit k a) 255)) [24, 16, 8, 0]"

definition inet_aton :: "string \<Rightarrow> nat list option" where
  "inet_aton cp =
     (case aton_loop 0 0 0 cp of
        None \<Rightarrow> None
      | Some (dots, addr) \<Rightarrow> Some (addr_bytes (if dots < 3 then push_bit (8 * (3 - dots)) addr else addr)))"

section \<open>Printing\<close>

text \<open>What a call left in the destination: the characters, to which \<open>strcpy\<close> adds a null byte, or errno.\<close>

datatype ntop = Text string | Errno int

fun octets_text :: "nat list \<Rightarrow> string" where
  "octets_text [] = []"
| "octets_text [b] = dec b"
| "octets_text (b # bs) = dec b @ [DOT] @ octets_text bs"

definition inet_ntop4 :: "nat list \<Rightarrow> nat \<Rightarrow> ntop" where
  "inet_ntop4 src sz =
     (let tmp = octets_text src in if length tmp > sz then Errno ENOSPC else Text tmp)"

section \<open>The dotted quad\<close>

text \<open>A reference definition: four groups of digits between dots, each a number of at most 255.\<close>

fun split_dot :: "string \<Rightarrow> string list" where
  "split_dot [] = [[]]"
| "split_dot (c # cs) = (if c = DOT then [] # split_dot cs else (c # hd (split_dot cs)) # tl (split_dot cs))"

definition octet :: "string \<Rightarrow> bool" where
  "octet g \<longleftrightarrow> g \<noteq> [] \<and> list_all isdigit g \<and> digits_value 0 g \<le> 255"

definition dotted_quad :: "string \<Rightarrow> nat list option" where
  "dotted_quad s =
     (let gs = split_dot s in if length gs = 4 \<and> list_all octet gs then Some (map (digits_value 0) gs) else None)"

lemma split_dot_nonempty [simp]: "split_dot s \<noteq> []"
  by (cases s) auto

lemma digits_value_mono: "acc \<le> digits_value acc ds"
proof (induction ds arbitrary: acc)
  case (Cons c ds)
  show ?case
  proof (cases "isdigit c")
    case True
    have "acc \<le> 10 * acc + ((of_char c :: nat) - 48)" by simp
    also note Cons.IH
    finally show ?thesis using True by simp
  qed simp
qed simp

lemma not_isdigit_DOT [simp]: "\<not> isdigit DOT"
  by (simp add: isdigit_def)

text \<open>The loop in any of its states against the groups that are left.\<close>

definition quad_rest :: "nat list \<Rightarrow> nat \<Rightarrow> bool \<Rightarrow> string list \<Rightarrow> nat list option" where
  "quad_rest tmp tp saw gs =
     (let g = hd gs; v = digits_value (tmp ! tp) g in
      if length gs = 4 - tp \<and> (saw \<or> g \<noteq> []) \<and> list_all isdigit g \<and> v \<le> 255 \<and> list_all octet (tl gs)
      then Some (take tp tmp @ [v] @ map (digits_value 0) (tl gs)) else None)"

lemma pton4_loop_quad:
  assumes "length tmp = 4" "tp < 4" "tmp ! tp \<le> 255" "octets = tp + of_bool saw"
  shows "pton4_loop tmp tp saw octets src = quad_rest tmp tp saw (split_dot src)"
  using assms
proof (induction src arbitrary: tmp tp saw octets)
  case Nil
  then show ?case
    by (cases saw) (auto simp: quad_rest_def list_all_iff take_Suc_conv_app_nth [symmetric] simp flip: append_Cons)
next
  case (Cons c src)
  consider (digit) "isdigit c" | (dot) "c = DOT" | (other) "\<not> isdigit c" "c \<noteq> DOT" by blast
  then show ?case
  proof cases
    case digit
    let ?v = "tmp ! tp * 10 + ((of_char c :: nat) - 48)"
    have c: "c \<noteq> DOT" using digit by auto
    show ?thesis
    proof (cases "?v > 255")
      case True
      then have "\<not> digits_value ?v (hd (split_dot src)) \<le> 255" using digits_value_mono [of ?v "hd (split_dot src)"] by linarith
      with True digit c show ?thesis by (simp add: strchr_digits quad_rest_def Let_def mult.commute)
    next
      case False
      have "pton4_loop (tmp[tp := ?v]) tp True (tp + 1) src = quad_rest (tmp[tp := ?v]) tp True (split_dot src)"
        using Cons.IH [of "tmp[tp := ?v]" tp "tp + 1" True] Cons.prems False by simp
      with False digit c Cons.prems show ?thesis
        by (cases saw) (simp_all add: strchr_digits quad_rest_def Let_def mult.commute)
    qed
  next
    case dot
    show ?thesis
    proof (cases "saw \<and> tp < 3")
      case True
      with Cons.IH [of "tmp[tp + 1 := 0]" "tp + 1" octets False] Cons.prems dot show ?thesis
        by (cases "split_dot src") (auto simp: strchr_digits quad_rest_def Let_def octet_def take_Suc_conv_app_nth)
    next
      case False
      with Cons.prems dot show ?thesis by (cases "split_dot src") (auto simp: strchr_digits quad_rest_def)
    qed
  next
    case other
    then show ?thesis by (simp add: strchr_digits quad_rest_def)
  qed
qed

lemma inet_pton4_quad: "inet_pton4 src = dotted_quad src"
proof -
  obtain g gs where gs: "split_dot src = g # gs" by (cases "split_dot src") auto
  have "pton4_loop [0, 0, 0, 0] 0 False 0 src = quad_rest [0, 0, 0, 0] 0 False (split_dot src)"
    by (rule pton4_loop_quad) simp_all
  then show ?thesis by (auto simp: inet_pton4_def dotted_quad_def quad_rest_def gs octet_def Let_def)
qed

section \<open>Round trip\<close>

fun join_dot :: "string list \<Rightarrow> string" where
  "join_dot [] = []"
| "join_dot [g] = g"
| "join_dot (g # gs) = g @ [DOT] @ join_dot gs"

lemma join_split: "join_dot (split_dot s) = s"
proof (induction s)
  case (Cons c s)
  obtain g gs where "split_dot s = g # gs" by (cases "split_dot s") auto
  with Cons show ?case by (cases gs) auto
qed simp

lemma split_join:
  assumes "gs \<noteq> []" "\<And>g. g \<in> set gs \<Longrightarrow> DOT \<notin> set g"
  shows "split_dot (join_dot gs) = gs"
proof -
  have one: "DOT \<notin> set g \<Longrightarrow> split_dot g = [g]" "DOT \<notin> set g \<Longrightarrow> split_dot (g @ DOT # s) = g # split_dot s" for g s
    by (induction g) auto
  from assms show ?thesis by (induction gs rule: join_dot.induct) (auto simp: one)
qed

lemma octets_text_join: "octets_text bs = join_dot (map dec bs)"
  by (induction bs rule: octets_text.induct) auto

lemma dotted_quad_octets:
  assumes "length bs = 4" "list_all (\<lambda>b. b \<le> 255) bs"
  shows "dotted_quad (octets_text bs) = Some bs"
proof -
  have split: "split_dot (octets_text bs) = map dec bs" unfolding octets_text_join by (rule split_join) (use assms(1) in auto)
  have "octet (dec b)" if "b \<le> 255" for b
    using that dec_isdigit [of _ b] by (auto simp: octet_def list_all_iff digits_value_dec)
  with assms show ?thesis by (auto simp: dotted_quad_def split Let_def list_all_iff digits_value_dec map_idI)
qed

section \<open>The older parser\<close>

lemma aton_loop_digits:
  assumes "list_all isdigit g"
  shows "aton_loop dots (of_nat n) addr (g @ rest) = aton_loop dots (of_nat (digits_value n g)) addr rest"
  using assms
proof (induction g arbitrary: n)
  case (Cons c g)
  let ?n = "10 * n + ((of_char c :: nat) - 48)"
  have "of_nat n * 10 + of_nat ((of_char c :: nat) - 48) = (of_nat ?n :: 64 word)" by simp
  moreover have "isdigit c" "list_all isdigit g" using Cons.prems by simp_all
  ultimately show ?case using Cons.IH [of ?n] by (simp only: append_Cons aton_loop.simps digits_value.simps if_True)
qed simp

lemma addr_bytes_octets:
  fixes a b c d :: "64 word"
  assumes "a \<le> 255" "b \<le> 255" "c \<le> 255" "d \<le> 255"
  shows "addr_bytes (or (push_bit 8 (or (push_bit 8 (or (push_bit 8 (or (push_bit 8 0) a)) b)) c)) d) = [unat a, unat b, unat c, unat d]"
proof -
  have m: "\<not> bit x n" if "x \<le> 255" "8 \<le> n" for x :: "64 word" and n
  proof -
    have "unat x < 2 ^ 8" using that(1) by (simp add: word_le_nat_alt)
    then have "take_bit 8 x = x" by (simp add: word_unat_eq_iff unsigned_take_bit_eq take_bit_nat_eq_self)
    then show ?thesis using that(2) by (metis bit_take_bit_iff not_le)
  qed
  have "n < 8" if "bit a n \<or> bit b n \<or> bit c n \<or> bit d n" for n using that m assms by (meson not_le)
  then have lt: "bit a n \<Longrightarrow> n < 8" "bit b n \<Longrightarrow> n < 8" "bit c n \<Longrightarrow> n < 8" "bit d n \<Longrightarrow> n < 8" for n by blast+
  have e: "(255::64 word) = mask 8" by (simp add: mask_eq_exp_minus_1)
  have "and (drop_bit 24 (or (push_bit 8 (or (push_bit 8 (or (push_bit 8 (or (push_bit 8 0) a)) b)) c)) d)) 255 = a"
    "and (drop_bit 16 (or (push_bit 8 (or (push_bit 8 (or (push_bit 8 (or (push_bit 8 0) a)) b)) c)) d)) 255 = b"
    "and (drop_bit 8 (or (push_bit 8 (or (push_bit 8 (or (push_bit 8 (or (push_bit 8 0) a)) b)) c)) d)) 255 = c"
    "and (drop_bit 0 (or (push_bit 8 (or (push_bit 8 (or (push_bit 8 (or (push_bit 8 0) a)) b)) c)) d)) 255 = d"
    unfolding e by (rule bit_word_eqI, (auto simp: bit_simps m assms dest: lt; drule lt; simp)[1])+
  then show ?thesis by (simp add: addr_bytes_def)
qed

lemma aton_octet:
  "octet g \<Longrightarrow> aton_loop dots 0 addr (g @ rest) = aton_loop dots (of_nat (digits_value 0 g)) addr rest"
  using aton_loop_digits [of g dots 0 addr rest] by (simp add: octet_def)

lemma aton_quad:
  assumes "dotted_quad s = Some bs"
  shows "inet_aton s = Some bs"
proof -
  let ?w = "\<lambda>g. of_nat (digits_value 0 g) :: 64 word"
  obtain g0 g1 g2 g3 where gs: "split_dot s = [g0, g1, g2, g3]" and o: "list_all octet [g0, g1, g2, g3]"
    and bs: "bs = map (digits_value 0) [g0, g1, g2, g3]"
    using assms by (auto simp: dotted_quad_def Let_def numeral_eq_Suc length_Suc_conv split: if_splits)
  have s: "s = g0 @ DOT # g1 @ DOT # g2 @ DOT # g3 @ []" using join_split [of s] gs by simp
  have v: "digits_value 0 g \<le> 255" if "octet g" for g using that by (simp add: octet_def)
  have u: "unat (?w g) = digits_value 0 g" if "octet g" for g
    using v [OF that] by (simp add: unsigned_of_nat take_bit_nat_eq_self)
  have w: "\<not> ?w g > 255" "?w g \<le> 255" if "octet g" for g
    using u [OF that] v [OF that] by (simp_all add: word_le_nat_alt word_less_nat_alt)
  have "inet_aton s = Some (addr_bytes (or (push_bit 8 (or (push_bit 8 (or (push_bit 8 (or (push_bit 8 0) (?w g0))) (?w g1))) (?w g2))) (?w g3)))"
    unfolding s inet_aton_def using o w by (simp add: aton_octet del: append_Nil2)
  with addr_bytes_octets [of "?w g0" "?w g1" "?w g2" "?w g3"] o w u bs show ?thesis by simp
qed

section \<open>Properties\<close>

text \<open>
  C26. \<open>inet_pton4\<close> accepts exactly the dotted quads: four non-empty groups of decimal digits between dots,
  each with a value of at most 255, and stores their values in order.
\<close>

theorem inet_pton4_reference: "inet_pton4 src = dotted_quad src"
  by (rule inet_pton4_quad)

text \<open>
  Printing an IPv4 address and parsing the text gives the address back, and \<open>inet_aton\<close> reads the same
  address from every text that \<open>inet_pton4\<close> accepts.
\<close>

theorem inet_ntop4_roundtrip:
  assumes "length bs = 4" "list_all (\<lambda>b. b \<le> 255) bs"
  shows "(\<forall>sz t. inet_ntop4 bs sz = Text t \<longrightarrow> inet_pton4 t = Some bs) \<and> inet_ntop4 bs 16 = Text (octets_text bs) \<and>
    (\<forall>s. inet_pton4 s = Some bs \<longrightarrow> inet_aton s = Some bs)"
proof -
  have d: "length (dec b) \<le> 3" if "b \<le> 255" for b using length_dec [of 3 b] that by simp
  obtain a b c e where bs: "bs = [a, b, c, e]" using assms(1) by (auto simp: numeral_eq_Suc length_Suc_conv)
  have "length (octets_text bs) \<le> 15" using assms(2) d [of a] d [of b] d [of c] d [of e] by (simp add: bs)
  then have "inet_ntop4 bs 16 = Text (octets_text bs)" by (simp add: inet_ntop4_def Let_def)
  moreover have "inet_ntop4 bs sz = Text t \<Longrightarrow> inet_pton4 t = Some bs" for sz t
    using dotted_quad_octets [OF assms] by (auto simp: inet_ntop4_def Let_def inet_pton4_quad split: if_splits)
  ultimately show ?thesis using aton_quad by (auto simp: inet_pton4_quad)
qed

theorem inet_ntop4_roundtrip_witness:
  "inet_ntop4 [127, 0, 0, 1] 16 = Text ''127.0.0.1'' \<and> inet_pton4 ''127.0.0.1'' = Some [127, 0, 0, 1] \<and>
    inet_aton ''127.0.0.1'' = Some [127, 0, 0, 1]"
proof -
  have t: "octets_text [127, 0, 0, 1] = ''127.0.0.1''" by code_simp
  have h: "length [127, 0, 0, 1 :: nat] = 4" "list_all (\<lambda>b. b \<le> 255) [127, 0, 0, 1 :: nat]" by simp_all
  show ?thesis using inet_ntop4_roundtrip [OF h] unfolding t by blast
qed

text \<open>
  The size check of \<open>inet_ntop4\<close> does not count the null byte: a destination exactly as long as the text is
  accepted, and \<open>strcpy\<close> writes one byte past its end.
\<close>

theorem inet_ntop4_overflow:
  "inet_ntop4 bs (length (octets_text bs)) = Text (octets_text bs) \<and>
    length (octets_text bs @ [NUL]) = length (octets_text bs) + 1"
  by (simp add: inet_ntop4_def Let_def)

text \<open>
  \<open>inet_aton\<close> accepts texts that are no addresses: the empty text, empty groups, and a group that is too large by a
  multiple of \<open>2 ^ 64\<close>.
\<close>

lemma inet_aton_lax:
  "inet_aton [] = Some [0, 0, 0, 0]" "inet_aton ''1..2.3'' = Some [1, 0, 2, 3]"
  "inet_aton ''18446744073709551617.0.0.1'' = Some [1, 0, 0, 1]"
  by code_simp+

end
