(* ===== verification/Inet6.thy ===== *)
theory Inet6
  imports Inet
begin

text \<open>
  Text form of IPv6 addresses: \<open>inet_pton6\<close> and \<open>inet_ntop6\<close> of the same files, the longest run of zeros written as
  two colons and the last four bytes of some addresses as a dotted quad, and the dispatch on the address family.
\<close>

abbreviation COLON :: char where "COLON \<equiv> CHR '':''"

section \<open>Parsing\<close>

definition xdigits_l :: string where "xdigits_l = ''0123456789abcdef''"
definition xdigits_u :: string where "xdigits_u = ''0123456789ABCDEF''"

definition xdigit :: "char \<Rightarrow> nat option" where
  "xdigit ch = (case strchr_pos xdigits_l ch of None \<Rightarrow> strchr_pos xdigits_u ch | Some d \<Rightarrow> Some d)"

text \<open>
  The state of the loop: \<open>tp\<close> holds the bytes stored so far, the rest of \<open>tmp\<close> is zero; \<open>colonp\<close> is the
  position of the two colons. The result is the bytes, the position and whether a group is open.
\<close>

fun pton6_loop :: "string \<Rightarrow> bool \<Rightarrow> nat \<Rightarrow> nat list \<Rightarrow> nat option \<Rightarrow> string \<Rightarrow> (bool \<times> nat \<times> nat list \<times> nat option) option" where
  "pton6_loop curtok saw_xdigit val tp colonp [] = Some (saw_xdigit, val, tp, colonp)"
| "pton6_loop curtok saw_xdigit val tp colonp (ch # src) =
     (case xdigit ch of
        Some d \<Rightarrow> let val1 = val * 16 + d in if val1 > 65535 then None else pton6_loop curtok True val1 tp colonp src
      | None \<Rightarrow>
          if ch = COLON
          then (if \<not> saw_xdigit
                then (if colonp \<noteq> None then None else pton6_loop src saw_xdigit val tp (Some (length tp)) src)
                else if length tp + 2 > 16 then None
                else pton6_loop src False 0 (tp @ [val div 256 mod 256, val mod 256]) colonp src)
          else if ch = DOT \<and> length tp + 4 \<le> 16
          then (case inet_pton4 curtok of
                  Some q \<Rightarrow> Some (False, val, tp @ q, colonp)
                | None \<Rightarrow> None)
          else None)"

text \<open>The shift of the bytes behind the two colons to the end, one byte at a time.\<close>

function pton6_shift :: "nat \<Rightarrow> nat \<Rightarrow> nat \<Rightarrow> nat list \<Rightarrow> nat list" where
  "pton6_shift colonp n i tmp =
     (if i \<le> n then pton6_shift colonp n (i + 1) ((tmp[16 - i := tmp ! (colonp + (n - i))])[colonp + (n - i) := 0])
      else tmp)"
  by pat_completeness auto
termination by (relation "measure (\<lambda>(_, n, i, _). n + 1 - i)") auto

declare pton6_shift.simps [simp del]

definition pton6_finish :: "nat list \<Rightarrow> nat option \<Rightarrow> nat list option" where
  "pton6_finish tp colonp =
     (let tmp = tp @ replicate (16 - length tp) 0 in
      case colonp of
        Some c \<Rightarrow> Some (pton6_shift c (length tp - c) 1 tmp)
      | None \<Rightarrow> if length tp \<noteq> 16 then None else Some tmp)"

text \<open>After the loop: the last group is stored.\<close>

definition pton6_last :: "(bool \<times> nat \<times> nat list \<times> nat option) option \<Rightarrow> nat list option" where
  "pton6_last r =
     (case r of
        None \<Rightarrow> None
      | Some (saw_xdigit, val, tp, colonp) \<Rightarrow>
          if saw_xdigit
          then (if length tp + 2 > 16 then None else pton6_finish (tp @ [val div 256 mod 256, val mod 256]) colonp)
          else pton6_finish tp colonp)"

definition inet_pton6 :: "string \<Rightarrow> nat list option" where
  "inet_pton6 src =
     (case (if src \<noteq> [] \<and> hd src = COLON
            then (if tl src \<noteq> [] \<and> hd (tl src) = COLON then Some (tl src) else None) else Some src) of
        None \<Rightarrow> None
      | Some s \<Rightarrow> pton6_last (pton6_loop s False 0 [] None s))"

section \<open>Printing\<close>

definition words_of :: "nat list \<Rightarrow> nat list" where
  "words_of src = map (\<lambda>i. 256 * src ! (2 * i) + src ! (2 * i + 1)) [0..<8]"

text \<open>The longest run of zero words: base and length, the first one of several.\<close>

definition better :: "(nat \<times> nat) option \<Rightarrow> (nat \<times> nat) option \<Rightarrow> (nat \<times> nat) option" where
  "better best cur =
     (case cur of
        None \<Rightarrow> best
      | Some (cb, cl) \<Rightarrow> (case best of None \<Rightarrow> cur | Some (bb, bl) \<Rightarrow> if cl > bl then cur else best))"

fun best_run :: "(nat \<times> nat) option \<Rightarrow> (nat \<times> nat) option \<Rightarrow> nat \<Rightarrow> nat list \<Rightarrow> (nat \<times> nat) option" where
  "best_run best cur i [] = better best cur"
| "best_run best cur i (w # ws) =
     (if w = 0
      then (case cur of None \<Rightarrow> best_run best (Some (i, 1)) (i + 1) ws
                      | Some (b, l) \<Rightarrow> best_run best (Some (b, l + 1)) (i + 1) ws)
      else best_run (better best cur) None (i + 1) ws)"

definition best_of :: "nat list \<Rightarrow> (nat \<times> nat) option" where
  "best_of ws = (case best_run None None 0 ws of Some (b, l) \<Rightarrow> if l < 2 then None else Some (b, l) | None \<Rightarrow> None)"

fun hex :: "nat \<Rightarrow> string" where
  "hex n = (if n < 16 then [xdigits_l ! n] else hex (n div 16) @ [xdigits_l ! (n mod 16)])"

declare hex.simps [simp del]

definition in_run :: "(nat \<times> nat) option \<Rightarrow> nat \<Rightarrow> bool" where
  "in_run best i = (case best of None \<Rightarrow> False | Some (b, l) \<Rightarrow> b \<le> i \<and> i < b + l)"

definition encapsulated :: "(nat \<times> nat) option \<Rightarrow> nat list \<Rightarrow> bool" where
  "encapsulated best ws = (case best of None \<Rightarrow> False | Some (b, l) \<Rightarrow> b = 0 \<and> (l = 6 \<or> l = 5 \<and> ws ! 5 = 65535))"

text \<open>The text of the words from position \<open>i\<close> on.\<close>

function ntop6_loop :: "(nat \<times> nat) option \<Rightarrow> nat list \<Rightarrow> nat list \<Rightarrow> nat \<Rightarrow> string" where
  "ntop6_loop best src ws i =
     (if i \<ge> 8 then []
      else if in_run best i
      then (if best \<noteq> None \<and> i = fst (the best) then [COLON] else []) @ ntop6_loop best src ws (i + 1)
      else (if i \<noteq> 0 then [COLON] else []) @
           (if i = 6 \<and> encapsulated best ws then octets_text (drop 12 src)
            else hex (ws ! i) @ ntop6_loop best src ws (i + 1)))"
  by pat_completeness auto
termination by (relation "measure (\<lambda>(_, _, _, i). 8 - i)") auto

declare ntop6_loop.simps [simp del]

definition ntop6_text :: "nat list \<Rightarrow> string" where
  "ntop6_text src =
     (let ws = words_of src; best = best_of ws in
      ntop6_loop best src ws 0 @
      (case best of Some (b, l) \<Rightarrow> if b + l = 8 then [COLON] else [] | None \<Rightarrow> []))"

text \<open>The size check counts the null byte here.\<close>

definition inet_ntop6 :: "nat list \<Rightarrow> nat \<Rightarrow> ntop" where
  "inet_ntop6 src sz = (let t = ntop6_text src in if length t + 1 > sz then Errno ENOSPC else Text t)"

section \<open>The address family\<close>

datatype family = AF_INET | AF_INET6 | AF_OTHER

text \<open>\<open>Inl\<close> is the return value -1 with errno, \<open>Inr\<close> the return value 0 or 1 with the bytes.\<close>

definition inet_pton :: "family \<Rightarrow> string \<Rightarrow> int + nat list option" where
  "inet_pton af src =
     (case af of AF_INET \<Rightarrow> Inr (inet_pton4 src) | AF_INET6 \<Rightarrow> Inr (inet_pton6 src) | AF_OTHER \<Rightarrow> Inl EAFNOSUPPORT)"

definition inet_ntop :: "family \<Rightarrow> nat list \<Rightarrow> nat \<Rightarrow> ntop" where
  "inet_ntop af src sz =
     (case af of AF_INET \<Rightarrow> inet_ntop4 src sz | AF_INET6 \<Rightarrow> inet_ntop6 src sz | AF_OTHER \<Rightarrow> Errno EAFNOSUPPORT)"

text \<open>The versions for hosts without IPv6, in \<open>inet_pton_ipv4.c\<close> and \<open>inet_ntop_ipv4.c\<close>.\<close>

definition inet_pton_ipv4 :: "family \<Rightarrow> string \<Rightarrow> int + nat list option" where
  "inet_pton_ipv4 af strptr = (if af = AF_INET then Inr (inet_aton strptr) else Inl EAFNOSUPPORT)"

definition inet_ntop_ipv4 :: "family \<Rightarrow> nat list \<Rightarrow> nat \<Rightarrow> ntop" where
  "inet_ntop_ipv4 af addr len =
     (if af = AF_INET
      then (let temp = octets_text addr in if length temp \<ge> len then Errno ENOSPC else Text temp)
      else Errno EAFNOSUPPORT)"

text \<open>
  Where both versions accept their input they agree, and the IPv4 version never writes more than the buffer holds.
\<close>

lemma inet_pton_ipv4_agrees: "inet_pton AF_INET s = Inr (Some bs) \<Longrightarrow> inet_pton_ipv4 AF_INET s = Inr (Some bs)"
  by (simp add: inet_pton_def inet_pton_ipv4_def inet_pton4_quad aton_quad)

lemma inet_ntop_ipv4_fits: "inet_ntop_ipv4 af bs len = Text t \<Longrightarrow> length (t @ [NUL]) \<le> len \<and> inet_ntop AF_INET bs len = Text t"
  by (auto simp: inet_ntop_ipv4_def inet_ntop_def inet_ntop4_def Let_def split: if_splits)

section \<open>Parsing the printed pieces\<close>

lemma xdigit_l: "d < 16 \<Longrightarrow> xdigit (xdigits_l ! d) = Some d"
proof -
  have "list_all (\<lambda>d. xdigit (xdigits_l ! d) = Some d) [0..<16]" by code_simp
  then show "d < 16 \<Longrightarrow> xdigit (xdigits_l ! d) = Some d" by (simp add: list_all_iff)
qed

lemma xdigit_digit: "d < 10 \<Longrightarrow> xdigit (digit d) = Some d"
proof -
  have "list_all (\<lambda>d. xdigit (digit d) = Some d) [0..<10]" by code_simp
  then show "d < 10 \<Longrightarrow> xdigit (digit d) = Some d" by (simp add: list_all_iff)
qed

lemma xdigit_punctuation [simp]: "xdigit COLON = None" "xdigit DOT = None"
  by code_simp+

lemma hex_small: "w < 16 \<Longrightarrow> hex w = [xdigits_l ! w]"
  by (subst hex.simps) simp

lemma hex_big: "16 \<le> w \<Longrightarrow> hex w = hex (w div 16) @ [xdigits_l ! (w mod 16)]"
  by (subst hex.simps) simp

lemma pton6_hex:
  "w \<le> 65535 \<Longrightarrow> pton6_loop cur s 0 tp c (hex w @ rest) = pton6_loop cur True w tp c rest"
proof (induction w arbitrary: rest rule: less_induct)
  case (less w)
  show ?case
  proof (cases "w < 16")
    case True
    then show ?thesis by (simp add: hex_small xdigit_l)
  next
    case False
    then have "hex w @ rest = hex (w div 16) @ (xdigits_l ! (w mod 16)) # rest" by (simp add: hex_big)
    with False less show ?thesis by (simp add: xdigit_l Let_def)
  qed
qed

text \<open>The first octet of a dotted quad is read as hexadecimal before the dot shows what it is.\<close>

lemma pton6_dec:
  "length (dec a) \<le> 3 \<Longrightarrow>
    \<exists>v < 16 ^ length (dec a). pton6_loop cur s 0 tp c (dec a @ rest) = pton6_loop cur True v tp c rest"
proof (induction a arbitrary: rest rule: dec_induct)
  case (small a)
  then show ?case by (intro exI [of _ a]) (simp add: dec_small xdigit_digit)
next
  case (step a)
  then have d: "dec a = dec (a div 10) @ [digit (a mod 10)]" by (simp add: dec_big)
  with step.prems have l: "length (dec (a div 10)) \<le> 2" by simp
  from step.IH [of "digit (a mod 10) # rest"] l obtain v where v: "v < 16 ^ length (dec (a div 10))"
    "pton6_loop cur s 0 tp c (dec (a div 10) @ digit (a mod 10) # rest) = pton6_loop cur True v tp c (digit (a mod 10) # rest)" by auto
  have "(16::nat) ^ length (dec (a div 10)) \<le> 16 ^ 2" using l by (intro power_increasing) auto
  with v(1) have small: "v * 16 + a mod 10 \<le> 65535" using mod_less_divisor [of 10 a] by (simp add: power2_eq_square)
  have "v * 16 + a mod 10 < 16 ^ length (dec a)" using v(1) mod_less_divisor [of 10 a] unfolding d length_append by simp
  moreover have "pton6_loop cur s 0 tp c (dec a @ rest) = pton6_loop cur True (v * 16 + a mod 10) tp c rest"
    using v(2) small by (simp add: d xdigit_digit)
  ultimately show ?case by blast
qed

definition bytes :: "nat list \<Rightarrow> nat list" where
  "bytes ws = concat (map (\<lambda>w. [w div 256 mod 256, w mod 256]) ws)"

definition suf :: "nat list \<Rightarrow> string" where
  "suf ws = concat (map (\<lambda>w. COLON # hex w) ws)"

lemma bytes_simps [simp]: "bytes [] = []" "bytes (w # ws) = [w div 256 mod 256, w mod 256] @ bytes ws"
  "bytes (us @ ws) = bytes us @ bytes ws" "length (bytes ws) = 2 * length ws"
  by (simp_all add: bytes_def length_concat comp_def sum_list_triv)

lemma bytes_last: "ws \<noteq> [] \<Longrightarrow> bytes ws = bytes (butlast ws) @ [last ws div 256 mod 256, last ws mod 256]"
  by (induction ws) auto

lemma suf_simps [simp]: "suf [] = []" "suf (w # ws) = COLON # hex w @ suf ws"
  by (simp_all add: suf_def)

lemma pton6_suf:
  assumes "list_all (\<lambda>w. w \<le> 65535) vs" "length tp + 2 * length vs \<le> 16"
  shows "\<exists>cur'. pton6_loop cur True w tp c (suf vs @ rest) =
    pton6_loop cur' True (last (w # vs)) (tp @ bytes (butlast (w # vs))) c rest"
  using assms
proof (induction vs arbitrary: cur w tp)
  case Nil
  then show ?case by auto
next
  case (Cons v vs)
  let ?tp = "tp @ [w div 256 mod 256, w mod 256]" and ?cur = "hex v @ suf vs @ rest"
  have "pton6_loop cur True w tp c (suf (v # vs) @ rest) = pton6_loop ?cur True v ?tp c (suf vs @ rest)"
    using Cons.prems by (simp add: pton6_hex)
  moreover have "\<exists>cur'. pton6_loop ?cur True v ?tp c (suf vs @ rest) =
      pton6_loop cur' True (last (v # vs)) (?tp @ bytes (butlast (v # vs))) c rest"
    by (rule Cons.IH) (use Cons.prems in auto)
  ultimately show ?case by (cases vs) auto
qed

section \<open>The shift\<close>

lemma pton6_shift_run:
  assumes "length front = c" "c + length ds + z + length ts = 16" "n = length ds + length ts" "i = length ts + 1"
  shows "pton6_shift c n i (front @ ds @ replicate z 0 @ ts) =
    (if z = 0 then front @ replicate (length ds) 0 @ ts else front @ replicate z 0 @ ds @ ts)"
  using assms
proof (induction ds arbitrary: ts i rule: rev_induct)
  case Nil
  then show ?case by (subst pton6_shift.simps) simp
next
  case (snoc d ds)
  let ?e = "if z = 0 then 0 else d"
  have le: "i \<le> n" and k: "c + (n - i) = length front + length ds" using snoc.prems by auto
  have at: "(front @ (ds @ [d]) @ replicate z 0 @ ts) ! (c + (n - i)) = d"
    unfolding k by (simp add: nth_append)
  have "((front @ (ds @ [d]) @ replicate z 0 @ ts)[16 - i := d])[c + (n - i) := 0] = front @ ds @ replicate z 0 @ (?e # ts)"
  proof (cases z)
    case 0
    then have "16 - i = length front + length ds" using snoc.prems by simp
    with 0 show ?thesis unfolding k by (simp add: list_update_append)
  next
    case (Suc y)
    then have e: "16 - i = length front + length ds + 1 + y" using snoc.prems by simp
    have "replicate z (0::nat) = replicate y 0 @ [0]" using Suc by (simp add: replicate_append_same)
    then have "(front @ (ds @ [d]) @ replicate z 0 @ ts)[16 - i := d] = front @ ds @ [d] @ replicate y 0 @ d # ts"
      unfolding e by (simp add: list_update_append)
    then show ?thesis unfolding k using Suc by (simp add: list_update_append replicate_append_same)
  qed
  with le at have "pton6_shift c n i (front @ (ds @ [d]) @ replicate z 0 @ ts) =
      pton6_shift c n (i + 1) (front @ ds @ replicate z 0 @ (?e # ts))"
    by (subst pton6_shift.simps) simp
  also have "\<dots> = (if z = 0 then front @ replicate (length ds) 0 @ ?e # ts else front @ replicate z 0 @ ds @ ?e # ts)"
    by (rule snoc.IH) (use snoc.prems in auto)
  also have "\<dots> = (if z = 0 then front @ replicate (length (ds @ [d])) 0 @ ts else front @ replicate z 0 @ (ds @ [d]) @ ts)"
    by (simp add: replicate_app_Cons_same)
  finally show ?case .
qed

lemma pton6_finish_shift:
  assumes "length front + length ds + z = 16" "0 < z"
  shows "pton6_finish (front @ ds) (Some (length front)) = Some (front @ replicate z 0 @ ds)"
proof -
  have z: "16 - (length front + length ds) = z" using assms(1) by arith
  show ?thesis
    using pton6_shift_run [of front "length front" ds z "[]" "length ds" 1] assms by (simp add: pton6_finish_def Let_def z)
qed

section \<open>The run of zeros\<close>

definition zrun :: "nat list \<Rightarrow> (nat \<times> nat) option \<Rightarrow> bool" where
  "zrun ws r \<longleftrightarrow> (\<forall>b l. r = Some (b, l) \<longrightarrow> b + l \<le> length ws \<and> (\<forall>j. b \<le> j \<and> j < b + l \<longrightarrow> ws ! j = 0))"

lemma zrun_better: "zrun ws best \<Longrightarrow> zrun ws cur \<Longrightarrow> zrun ws (better best cur)"
  by (auto simp: better_def split: option.splits prod.splits)

lemma best_run_zrun:
  assumes "zrun ws best" "zrun ws cur" "\<And>b l. cur = Some (b, l) \<Longrightarrow> b + l = i" "ws = us @ rest" "i = length us"
  shows "zrun ws (best_run best cur i rest)"
  using assms
proof (induction rest arbitrary: best cur i us)
  case Nil
  then show ?case by (simp add: zrun_better)
next
  case (Cons w rest)
  have nth: "ws ! i = w" "i < length ws" "ws = (us @ [w]) @ rest" "i + 1 = length (us @ [w])" using Cons.prems(4,5) by auto
  show ?case
  proof (cases "w = 0")
    case False
    with Cons.IH [OF zrun_better [OF Cons.prems(1,2)] _ _ nth(3,4), of None] show ?thesis by (simp add: zrun_def)
  next
    case True
    let ?cur = "case cur of None \<Rightarrow> Some (i, 1) | Some (b, l) \<Rightarrow> Some (b, l + 1)"
    have "zrun ws ?cur"
      using Cons.prems(2,3) nth(1,2) True by (auto simp: zrun_def less_Suc_eq split: option.splits)
    moreover have "\<And>b l. ?cur = Some (b, l) \<Longrightarrow> b + l = i + 1"
      using Cons.prems(3) by (auto split: option.splits)
    ultimately show ?thesis
      using Cons.IH [OF Cons.prems(1) _ _ nth(3,4), of ?cur] True by (auto split: option.splits)
  qed
qed

lemma best_of_run:
  assumes "best_of ws = Some (b, l)"
  shows "2 \<le> l" "b + l \<le> length ws" "\<And>j. b \<le> j \<Longrightarrow> j < b + l \<Longrightarrow> ws ! j = 0"
proof -
  have "zrun ws (best_run None None 0 ws)" by (rule best_run_zrun [where us = "[]"]) (simp_all add: zrun_def)
  moreover have "best_run None None 0 ws = Some (b, l)" "2 \<le> l"
    using assms by (auto simp: best_of_def split: option.splits if_splits)
  ultimately show "2 \<le> l" "b + l \<le> length ws" "\<And>j. b \<le> j \<Longrightarrow> j < b + l \<Longrightarrow> ws ! j = 0" by (simp_all add: zrun_def)
qed

lemma run_zeros:
  assumes "best_of ws = Some (b, l)"
  shows "ws = take b ws @ replicate l 0 @ drop (b + l) ws"
proof -
  have "take l (drop b ws) = replicate l 0"
    using best_of_run [OF assms] by (intro nth_equalityI) auto
  moreover have "ws = take b ws @ take l (drop b ws) @ drop (b + l) ws"
    by (metis append_take_drop_id drop_drop add.commute)
  ultimately show ?thesis by simp
qed

section \<open>The shape of the text\<close>

text \<open>Words after the run, words before it, and the run itself.\<close>

lemma ntop6_after:
  assumes "0 < i" "i \<le> 8" "length ws = 8" "\<And>j. i \<le> j \<Longrightarrow> \<not> in_run best j" "\<not> encapsulated best ws \<or> 6 < i"
  shows "ntop6_loop best src ws i = suf (drop i ws)"
  using assms
proof (induction "8 - i" arbitrary: i)
  case 0
  then show ?case by (subst ntop6_loop.simps) simp
next
  case (Suc k)
  then have "ntop6_loop best src ws (i + 1) = suf (drop (i + 1) ws)" by (intro Suc.hyps(1)) auto
  moreover have "drop i ws = ws ! i # drop (i + 1) ws" using Suc by (simp add: Cons_nth_drop_Suc)
  moreover have "\<not> in_run best i" "i < 8" "\<not> (i = 6 \<and> encapsulated best ws)" using Suc.prems(4) [of i] Suc.hyps(2) Suc.prems(5) by auto
  ultimately show ?case using Suc.prems by (subst ntop6_loop.simps) auto
qed

lemma ntop6_before:
  assumes "0 < i" "i \<le> b" "b < 8" "length ws = 8" "best = Some (b, l)"
  shows "ntop6_loop best src ws i = suf (take (b - i) (drop i ws)) @ ntop6_loop best src ws b"
  using assms
proof (induction "b - i" arbitrary: i)
  case 0
  then show ?case by simp
next
  case (Suc k)
  then have "ntop6_loop best src ws (i + 1) = suf (take (b - (i + 1)) (drop (i + 1) ws)) @ ntop6_loop best src ws b"
    by (intro Suc.hyps(1)) auto
  moreover have "drop i ws = ws ! i # drop (i + 1) ws" "b - i = Suc (b - (i + 1))" using Suc by (simp_all add: Cons_nth_drop_Suc)
  moreover have "\<not> in_run best i" "\<not> encapsulated best ws" "i < 8" using Suc by (auto simp: in_run_def encapsulated_def)
  ultimately show ?case using Suc.prems by (subst ntop6_loop.simps) auto
qed

lemma ntop6_inside:
  assumes "b < i" "i \<le> b + l" "b + l \<le> 8" "best = Some (b, l)"
  shows "ntop6_loop best src ws i = ntop6_loop best src ws (b + l)"
  using assms
proof (induction "b + l - i" arbitrary: i)
  case 0
  then show ?case by simp
next
  case (Suc k)
  then have "ntop6_loop best src ws (i + 1) = ntop6_loop best src ws (b + l)" by (intro Suc.hyps(1)) auto
  moreover have "in_run best i" "i < 8" using Suc by (auto simp: in_run_def)
  ultimately show ?case using Suc.prems by (subst ntop6_loop.simps) auto
qed

lemma ntop6_run:
  assumes "best = Some (b, l)" "2 \<le> l" "b + l \<le> 8"
  shows "ntop6_loop best src ws b = COLON # ntop6_loop best src ws (b + l)"
  using ntop6_inside [of b "b + 1" l best src ws] assms by (subst ntop6_loop.simps) (simp add: in_run_def)

lemma hex_head: "hex w = x # xs \<Longrightarrow> x \<noteq> COLON"
proof (induction w arbitrary: x xs rule: less_induct)
  case (less w)
  show ?case
  proof (cases "w < 16")
    case True
    then have "xdigit x = Some w" using less.prems xdigit_l [of w] by (simp add: hex_small)
    then show ?thesis by auto
  next
    case False
    then obtain ys where "hex (w div 16) = x # ys" using less.prems by (cases "hex (w div 16)") (auto simp: hex_big hex.simps split: if_splits)
    with less.IH [of "w div 16"] False show ?thesis by auto
  qed
qed

lemma hex_nonempty [simp]: "hex w \<noteq> []"
  by (subst hex.simps) simp

lemma bytes_zeros: "bytes (replicate n 0) = replicate (2 * n) 0"
  by (induction n) auto

section \<open>Parsing the whole text\<close>

text \<open>After the groups \<open>us\<close> and their colon: the second colon and the groups behind the run.\<close>

lemma pton6_tail_loop:
  assumes "list_all (\<lambda>w. w \<le> 65535) rs" "2 * length us + 2 * length rs \<le> 16" "rs \<noteq> []"
  shows "pton6_last (pton6_loop cur False 0 (bytes us) None (suf rs)) = pton6_finish (bytes us @ bytes rs) (Some (2 * length us))"
proof -
  obtain v vs where Cons: "rs = v # vs" using assms(3) by (cases rs) auto
  have v: "v \<le> 65535" "list_all (\<lambda>w. w \<le> 65535) vs" using assms(1) Cons by auto
  have "pton6_loop cur False 0 (bytes us) None (suf rs @ []) =
      pton6_loop (hex v @ suf vs @ []) True v (bytes us) (Some (2 * length us)) (suf vs @ [])"
    using v Cons by (simp add: pton6_hex del: append_Nil2)
  moreover have "length (bytes us) + 2 * length vs \<le> 16" using assms(2) Cons by simp
  from pton6_suf [OF v(2) this] obtain cur' where
    "pton6_loop (hex v @ suf vs @ []) True v (bytes us) (Some (2 * length us)) (suf vs @ []) =
     pton6_loop cur' True (last rs) (bytes us @ bytes (butlast rs)) (Some (2 * length us)) []" using Cons by blast
  ultimately have "pton6_loop cur False 0 (bytes us) None (suf rs) =
      Some (True, last rs, bytes us @ bytes (butlast rs), Some (2 * length us))" by simp
  moreover have "bytes us @ bytes (butlast rs) @ [last rs div 256 mod 256, last rs mod 256] = bytes us @ bytes rs"
    using bytes_last [of rs] Cons by simp
  moreover have "\<not> 16 < length (bytes us @ bytes (butlast rs)) + 2" using assms(2) Cons by simp
  ultimately show ?thesis by (simp only: pton6_last_def option.case prod.case if_True if_False append_assoc)
qed

lemma pton6_tail:
  assumes "list_all (\<lambda>w. w \<le> 65535) rs" "2 * length us + 2 * length rs + z = 16" "0 < z"
  shows "pton6_last (pton6_loop cur False 0 (bytes us) None (suf rs @ (if rs = [] then [COLON] else []))) =
    Some (bytes us @ replicate z 0 @ bytes rs)"
proof -
  have "pton6_finish (bytes us @ bytes rs) (Some (2 * length us)) = Some (bytes us @ replicate z 0 @ bytes rs)"
    using pton6_finish_shift [of "bytes us" "bytes rs" z] assms(2,3) by simp
  moreover have "pton6_last (pton6_loop cur False 0 (bytes us) None (suf rs @ (if rs = [] then [COLON] else []))) =
      pton6_finish (bytes us @ bytes rs) (Some (2 * length us))"
  proof (cases "rs = []")
    case True
    then show ?thesis by (simp add: pton6_last_def)
  next
    case False
    have "2 * length us + 2 * length rs \<le> 16" using assms(2) by linarith
    from pton6_tail_loop [OF assms(1) this False] False show ?thesis by simp
  qed
  ultimately show ?thesis by (rule trans [rotated])
qed

lemma pton6_tail_full:
  assumes "list_all (\<lambda>w. w \<le> 65535) rs" "2 * length us + 2 * length rs = 16" "rs \<noteq> []"
  shows "pton6_last (pton6_loop cur False 0 (bytes us) None (suf rs)) = Some (bytes us @ replicate (2 * length rs) 0)"
proof -
  have "pton6_finish (bytes us @ bytes rs) (Some (2 * length us)) = Some (bytes us @ replicate (2 * length rs) 0)"
  proof -
    have "16 - length (bytes us @ bytes rs) = 0" "length (bytes us @ bytes rs) - 2 * length us = 2 * length rs" using assms(2) by simp_all
    then have "pton6_finish (bytes us @ bytes rs) (Some (2 * length us)) =
        Some (pton6_shift (2 * length us) (2 * length rs) 1 (bytes us @ bytes rs @ replicate 0 0 @ []))"
      unfolding pton6_finish_def Let_def by (simp only: option.case replicate_0 append_Nil2 append_assoc)
    also have "pton6_shift (2 * length us) (2 * length rs) 1 (bytes us @ bytes rs @ replicate 0 0 @ []) = bytes us @ replicate (2 * length rs) 0"
      by (subst pton6_shift_run) (use assms(2) in simp_all)
    finally show ?thesis .
  qed
  moreover have "2 * length us + 2 * length rs \<le> 16" using assms(2) by linarith
  ultimately show ?thesis using pton6_tail_loop [OF assms(1) _ assms(3)] by simp
qed

text \<open>Groups in front of the run.\<close>

lemma pton6_front:
  assumes "list_all (\<lambda>w. w \<le> 65535) (u # us)" "2 * length (u # us) \<le> 16"
  shows "\<exists>cur'. pton6_loop cur False 0 [] None (hex u @ suf us @ COLON # rest) = pton6_loop cur' False 0 (bytes (u # us)) None rest"
proof -
  have "pton6_loop cur False 0 [] None (hex u @ suf us @ COLON # rest) = pton6_loop cur True u [] None (suf us @ COLON # rest)"
    using assms(1) by (simp add: pton6_hex)
  moreover obtain cur' where "pton6_loop cur True u [] None (suf us @ COLON # rest) =
      pton6_loop cur' True (last (u # us)) ([] @ bytes (butlast (u # us))) None (COLON # rest)"
    using pton6_suf [of us "[]" cur u None "COLON # rest"] assms by auto
  moreover have "bytes (u # us) = bytes (butlast (u # us)) @ [last (u # us) div 256 mod 256, last (u # us) mod 256]"
    by (rule bytes_last) simp
  ultimately show ?thesis using assms(2) by (simp del: bytes_simps(2) butlast.simps last.simps) blast
qed

text \<open>A dotted quad at the end.\<close>

lemma pton6_quad:
  assumes "length q = 4" "list_all (\<lambda>b. b \<le> 255) q" "length tp + 4 \<le> 16"
  shows "\<exists>v. pton6_loop (octets_text q) False 0 tp c (octets_text q) = Some (False, v, tp @ q, c)"
proof -
  obtain a b d e where q: "q = [a, b, d, e]" using assms(1) by (auto simp: numeral_eq_Suc length_Suc_conv)
  have "length (dec a) \<le> 3" using length_dec [of 3 a] assms(2) q by simp
  from pton6_dec [OF this] obtain v where
    "pton6_loop (octets_text q) False 0 tp c (dec a @ DOT # octets_text [b, d, e]) =
     pton6_loop (octets_text q) True v tp c (DOT # octets_text [b, d, e])" by blast
  moreover have "octets_text q = dec a @ DOT # octets_text [b, d, e]" by (simp add: q)
  moreover have "inet_pton4 (octets_text q) = Some q" using dotted_quad_octets [OF assms(1,2)] by (simp add: inet_pton4_quad)
  ultimately show ?thesis using assms(3) by simp
qed

section \<open>Round trip\<close>

lemma bytes_words:
  assumes "length src = 16" "list_all (\<lambda>b. b \<le> 255) src"
  shows "bytes (words_of src) = src" "length (words_of src) = 8" "list_all (\<lambda>w. w \<le> 65535) (words_of src)"
proof -
  obtain a b c d e f g h i j k l m n p q where src: "src = [a, b, c, d, e, f, g, h, i, j, k, l, m, n, p, q]"
    using assms(1) by (auto simp: numeral_eq_Suc length_Suc_conv)
  have w: "words_of src = [256 * a + b, 256 * c + d, 256 * e + f, 256 * g + h, 256 * i + j, 256 * k + l, 256 * m + n, 256 * p + q]"
    by (simp add: words_of_def src upt_rec)
  show "bytes (words_of src) = src" unfolding w using assms(2) by (simp add: src)
  show "length (words_of src) = 8" unfolding w by simp
  show "list_all (\<lambda>w. w \<le> 65535) (words_of src)" unfolding w using assms(2) by (simp add: src)
qed

lemma inet_pton6_simple:
  assumes "length ws = 8" "list_all (\<lambda>w. w \<le> 65535) ws"
  shows "inet_pton6 (hex (ws ! 0) @ suf (drop 1 ws)) = Some (bytes ws)"
proof -
  obtain u us where ws: "ws = u # us" "length us = 7" using assms(1) by (cases ws) auto
  obtain x xs where h: "hex u = x # xs" by (cases "hex u") auto
  have p: "pton6_loop cur False 0 [] None (hex u @ suf us @ []) = pton6_loop cur True u [] None (suf us @ [])" for cur
    using assms(2) ws by (intro pton6_hex) simp
  have "length ([]::nat list) + 2 * length us \<le> 16" "list_all (\<lambda>w. w \<le> 65535) us" using ws assms(2) by simp_all
  with pton6_suf [of us "[]" _ u None "[]"] p
  have q: "pton6_loop cur False 0 [] None (hex u @ suf us) = Some (True, last ws, bytes (butlast ws), None)" for cur
    unfolding ws by (metis append.right_neutral append_Nil pton6_loop.simps(1))
  have "inet_pton6 (hex u @ suf us) = pton6_finish (bytes ws) None"
    using hex_head [OF h] h q bytes_last [of ws] ws by (simp add: inet_pton6_def pton6_last_def)
  with assms(1) ws show ?thesis by (simp add: pton6_finish_def Let_def)
qed

lemma inet_pton6_run:
  assumes ws: "length ws = 8" "list_all (\<lambda>w. w \<le> 65535) ws" "ws = us @ replicate l 0 @ rs" "2 \<le> l"
  shows "inet_pton6 ((if us = [] then [] else hex (us ! 0) @ suf (drop 1 us)) @ [COLON] @ suf rs @ (if rs = [] then [COLON] else [])) =
    Some (bytes ws)"
proof -
  let ?X = "suf rs @ (if rs = [] then [COLON] else [])"
  have rs: "list_all (\<lambda>w. w \<le> 65535) rs" "2 * length us + 2 * length rs + 2 * l = 16" "0 < 2 * l" using ws by auto
  have all: "bytes us @ replicate (2 * l) 0 @ bytes rs = bytes ws" unfolding ws(3) by (simp add: bytes_zeros)
  note t = pton6_tail [OF rs, unfolded all]
  show ?thesis
  proof (cases us)
    case Nil
    have "?X \<noteq> []" "hd ?X = COLON" by (cases rs; simp)+
    then show ?thesis using Nil t [of ?X] by (simp add: inet_pton6_def)
  next
    case (Cons u vs)
    obtain x xs where h: "hex u = x # xs" by (cases "hex u") auto
    have "list_all (\<lambda>w. w \<le> 65535) (u # vs)" "2 * length (u # vs) \<le> 16" using ws Cons by auto
    from pton6_front [OF this, of _ ?X] t have "pton6_last (pton6_loop cur False 0 [] None (hex u @ suf vs @ COLON # ?X)) = Some (bytes ws)" for cur
      unfolding Cons by metis
    with Cons h hex_head [OF h] show ?thesis by (simp add: inet_pton6_def)
  qed
qed

lemma inet_pton6_encapsulated:
  assumes "length q = 4" "list_all (\<lambda>b. b \<le> 255) q"
  shows "inet_pton6 (COLON # COLON # octets_text q) = Some (replicate 12 0 @ q)"
    "inet_pton6 (COLON # COLON # hex 65535 @ COLON # octets_text q) = Some (replicate 10 0 @ [255, 255] @ q)"
proof -
  obtain v where "pton6_loop (octets_text q) False 0 [] (Some 0) (octets_text q) = Some (False, v, [] @ q, Some 0)"
    using pton6_quad [OF assms, of "[]" "Some 0"] by auto
  with pton6_finish_shift [of "[]" q 12] assms(1)
  show "inet_pton6 (COLON # COLON # octets_text q) = Some (replicate 12 0 @ q)" by (simp add: inet_pton6_def pton6_last_def)
  obtain v' where "pton6_loop (octets_text q) False 0 [255, 255] (Some 0) (octets_text q) = Some (False, v', [255, 255] @ q, Some 0)"
    using pton6_quad [OF assms, of "[255, 255]" "Some 0"] by auto
  with pton6_finish_shift [of "[]" "[255, 255] @ q" 10] assms(1)
  show "inet_pton6 (COLON # COLON # hex 65535 @ COLON # octets_text q) = Some (replicate 10 0 @ [255, 255] @ q)"
    by (simp add: inet_pton6_def pton6_last_def pton6_hex)
qed

lemma ntop6_plain:
  assumes "length ws = 8"
  shows "ntop6_loop None src ws 0 = hex (ws ! 0) @ suf (drop 1 ws)"
  using ntop6_after [of 1 ws None src] assms by (subst ntop6_loop.simps) (simp add: in_run_def encapsulated_def)

lemma ntop6_start:
  assumes "length ws = 8" "best = Some (b, l)" "2 \<le> l" "b + l \<le> 8"
  shows "ntop6_loop best src ws 0 =
    (if take b ws = [] then [] else hex (take b ws ! 0) @ suf (drop 1 (take b ws))) @ [COLON] @ ntop6_loop best src ws (b + l)"
proof (cases "b = 0")
  case True
  then show ?thesis using ntop6_run [OF assms(2-4), of src ws] by simp
next
  case False
  have "ntop6_loop best src ws 1 = suf (take (b - 1) (drop 1 ws)) @ ntop6_loop best src ws b"
    by (rule ntop6_before) (use assms False in auto)
  moreover have "ntop6_loop best src ws 0 = hex (ws ! 0) @ ntop6_loop best src ws 1"
    using False assms by (subst ntop6_loop.simps) (simp add: in_run_def)
  moreover have "drop 1 (take b ws) = take (b - 1) (drop 1 ws)" by (simp add: drop_take)
  moreover have "take b ws \<noteq> []" using False assms(1) by (cases ws) auto
  ultimately show ?thesis using ntop6_run [OF assms(2-4), of src ws] False by simp
qed

lemma ntop6_encapsulated:
  assumes "length ws = 8" "best = Some (0, l)" "encapsulated best ws"
  shows "ntop6_loop best src ws l = (if l = 6 then [] else COLON # hex 65535) @ COLON # octets_text (drop 12 src)"
proof -
  have six: "ntop6_loop best src ws 6 = COLON # octets_text (drop 12 src)"
    using assms(2,3) by (subst ntop6_loop.simps) (auto simp: in_run_def encapsulated_def)
  show ?thesis
  proof (cases "l = 6")
    case False
    then have "l = 5" "ws ! 5 = 65535" using assms(2,3) by (auto simp: encapsulated_def)
    then show ?thesis using six assms(2) by (subst ntop6_loop.simps) (simp add: in_run_def)
  qed (use six in simp)
qed

lemma inet_pton6_ntop6:
  assumes "length src = 16" "list_all (\<lambda>b. b \<le> 255) src"
  shows "inet_pton6 (ntop6_text src) = Some src"
proof (cases "best_of (words_of src)")
  case None
  with ntop6_plain [OF bytes_words(2) [OF assms], of src] inet_pton6_simple [OF bytes_words(2,3) [OF assms]] bytes_words(1) [OF assms]
  show ?thesis by (simp add: ntop6_text_def Let_def)
next
  case (Some r)
  obtain b l where r: "r = (b, l)" by (cases r)
  let ?ws = "words_of src" and ?best = "Some (b, l)"
  note ws = bytes_words [OF assms]
  have best: "best_of ?ws = ?best" using Some r by simp
  note run = best_of_run [OF best, unfolded ws(2)] and zeros = run_zeros [OF best]
  have shape: "ntop6_text src = (if take b ?ws = [] then [] else hex (take b ?ws ! 0) @ suf (drop 1 (take b ?ws))) @ [COLON] @
      ntop6_loop ?best src ?ws (b + l) @ (if drop (b + l) ?ws = [] then [COLON] else [])"
    using ntop6_start [OF ws(2) refl run(1,2), of src] run(2) ws(2) by (simp add: ntop6_text_def Let_def best)
  show ?thesis
  proof (cases "encapsulated ?best ?ws")
    case False
    have "ntop6_loop ?best src ?ws (b + l) = suf (drop (b + l) ?ws)"
      by (rule ntop6_after) (use run(1,2) ws(2) False in \<open>auto simp: in_run_def\<close>)
    with inet_pton6_run [OF ws(2,3) zeros run(1)] shape ws(1) show ?thesis by simp
  next
    case True
    then have b: "b = 0" and l: "l = 6 \<or> l = 5 \<and> ?ws ! 5 = 65535" by (auto simp: encapsulated_def)
    let ?q = "drop 12 src"
    have q: "length ?q = 4" "list_all (\<lambda>b. b \<le> 255) ?q" using assms by (auto simp: list_all_iff dest: in_set_dropD)
    have t: "ntop6_text src = COLON # (if l = 6 then [] else COLON # hex 65535) @ COLON # octets_text ?q"
      using shape ntop6_encapsulated [OF ws(2), of ?best l src] True b l ws(2) by (auto simp: b)
    have "?ws = replicate l 0 @ drop l ?ws" using zeros by (simp add: b)
    then have "bytes ?ws = replicate (2 * l) 0 @ bytes (drop l ?ws)" by (metis bytes_simps(3) bytes_zeros)
    then have src: "src = replicate (2 * l) 0 @ bytes (drop l ?ws)" using ws(1) by simp
    show ?thesis
    proof (cases "l = 6")
      case True
      have "xs = replicate 12 0 @ drop 12 xs" if "xs = replicate (2 * l) 0 @ ys" for xs ys :: "nat list" using that True by simp
      from this [OF src] have "src = replicate 12 0 @ ?q" .
      with inet_pton6_encapsulated(1) [OF q] t True show ?thesis by simp
    next
      case False
      with l have five: "l = 5" "?ws ! 5 = 65535" by auto
      then have "drop l ?ws = 65535 # drop 6 ?ws" using ws(2) Cons_nth_drop_Suc [of 5 ?ws] by simp
      then have "bytes (drop l ?ws) = [255, 255] @ bytes (drop 6 ?ws)" by simp
      moreover have "xs = replicate 10 0 @ [255, 255] @ drop 12 xs" if "xs = replicate (2 * l) 0 @ ys" "ys = [255, 255] @ zs" for xs ys zs :: "nat list"
        using that five(1) by simp
      ultimately have "src = replicate 10 0 @ [255, 255] @ ?q" using src by blast
      with inet_pton6_encapsulated(2) [OF q] t False show ?thesis by simp
    qed
  qed
qed

section \<open>Properties\<close>

text \<open>
  C6. Round trip of IPv6 addresses: for all 16 bytes, whatever form \<open>inet_ntop6\<close> chooses (a run of zeros as two
  colons at the front, in the middle or at the end, an embedded IPv4 address, or all eight groups), \<open>inet_pton6\<close>
  reads the same bytes from it, and the text with its null byte fits the buffer.
\<close>

theorem inet_ntop6_roundtrip:
  assumes "length src = 16" "list_all (\<lambda>b. b \<le> 255) src"
  shows "\<forall>sz t. inet_ntop6 src sz = Text t \<longrightarrow> inet_pton6 t = Some src \<and> length (t @ [NUL]) \<le> sz"
  using inet_pton6_ntop6 [OF assms] by (auto simp: inet_ntop6_def Let_def split: if_splits)

theorem inet_ntop6_roundtrip_witness:
  "inet_pton6 ''2001:db8::1'' = Some [32, 1, 13, 184, 0, 0, 0, 0, 0, 0, 0, 0, 0, 0, 0, 1]"
proof -
  have "inet_ntop6 [32, 1, 13, 184, 0, 0, 0, 0, 0, 0, 0, 0, 0, 0, 0, 1] 46 = Text ''2001:db8::1''"
    by (simp add: inet_ntop6_def ntop6_text_def words_of_def upt_rec best_of_def better_def ntop6_loop.simps in_run_def
        encapsulated_def hex_small hex_big xdigits_l_def)
  moreover have "length [32, 1, 13, 184, 0, 0, 0, 0, 0, 0, 0, 0, 0, 0, 0, 1 :: nat] = 16"
    "list_all (\<lambda>b. b \<le> 255) [32, 1, 13, 184, 0, 0, 0, 0, 0, 0, 0, 0, 0, 0, 0, 1 :: nat]" by simp_all
  ultimately show ?thesis using inet_ntop6_roundtrip by blast
qed

text \<open>
  Two colons in a full address are not ignored: \<open>inet_pton6\<close> reports success and zeroes every group behind
  them, because the shift copies each byte onto itself and then clears it.
\<close>

theorem inet_pton6_full_address_zeroed:
  assumes "length us + length rs = 8" "us \<noteq> []" "rs \<noteq> []" "list_all (\<lambda>w. w \<le> 65535) (us @ rs)"
  shows "inet_pton6 (hex (us ! 0) @ suf (drop 1 us) @ [COLON] @ suf rs) = Some (bytes us @ replicate (2 * length rs) 0)"
proof -
  obtain u vs where us: "us = u # vs" using assms(2) by (cases us) auto
  obtain x xs where h: "hex u = x # xs" by (cases "hex u") auto
  have b: "list_all (\<lambda>w. w \<le> 65535) (u # vs)" "2 * length (u # vs) \<le> 16" using assms us by auto
  have r: "list_all (\<lambda>w. w \<le> 65535) rs" "2 * length us + 2 * length rs = 16" using assms by auto
  have t: "pton6_last (pton6_loop cur False 0 (bytes us) None (suf rs)) = Some (bytes us @ replicate (2 * length rs) 0)" for cur
    by (rule pton6_tail_full [OF r assms(3)])
  from pton6_front [OF b, of _ "suf rs"] t
  have "pton6_last (pton6_loop cur False 0 [] None (hex u @ suf vs @ COLON # suf rs)) = Some (bytes us @ replicate (2 * length rs) 0)" for cur
    unfolding us by metis
  with us h hex_head [OF h] show ?thesis by (simp add: inet_pton6_def)
qed

theorem inet_pton6_full_address_zeroed_witness:
  "inet_pton6 ''1:2:3:4::5:6:7:8'' = Some [0, 1, 0, 2, 0, 3, 0, 4, 0, 0, 0, 0, 0, 0, 0, 0]"
proof -
  have "length [1, 2, 3, 4 :: nat] + length [5, 6, 7, 8 :: nat] = 8" "[1, 2, 3, 4 :: nat] \<noteq> []" "[5, 6, 7, 8 :: nat] \<noteq> []"
    "list_all (\<lambda>w. w \<le> 65535) ([1, 2, 3, 4] @ [5, 6, 7, 8 :: nat])" by simp_all
  note full = inet_pton6_full_address_zeroed [OF this]
  have zeros: "replicate 8 (0::nat) = [0, 0, 0, 0, 0, 0, 0, 0]" by code_simp
  have "hex ([1, 2, 3, 4] ! 0) @ suf (drop 1 [1, 2, 3, 4]) @ [COLON] @ suf [5, 6, 7, 8] = ''1:2:3:4::5:6:7:8''"
    "bytes [1, 2, 3, 4] @ replicate (2 * length [5, 6, 7, 8 :: nat]) 0 = [0, 1, 0, 2, 0, 3, 0, 4, 0, 0, 0, 0, 0, 0, 0, 0]"
    by (simp_all add: hex_small xdigits_l_def zeros)
  then show ?thesis using full by (simp only:)
qed

text \<open>
  \<open>inet_pton6\<close> accepts a colon behind the eighth group.
\<close>

lemma inet_pton6_trailing_colon:
  "inet_pton6 ''1:2:3:4:5:6:7:8:'' = Some [0, 1, 0, 2, 0, 3, 0, 4, 0, 5, 0, 6, 0, 7, 0, 8]"
  by (simp add: inet_pton6_def pton6_last_def pton6_finish_def xdigit_def strchr_pos_def xdigits_l_def xdigits_u_def)

end
