(* ===== verification/Traceroute.thy ===== *)
theory Traceroute
  imports Checksum Inet6
begin

text \<open>
  The traceroute program of \<open>person/traceroute\<close>: building a probe (\<open>send_v4\<close>), waiting for the answer (\<open>recv_v4\<close>) and
  the loop over hops and probes (\<open>traceloop\<close>). The network is a list of what the calls of
  \<open>recvfrom\<close> give: a datagram, an interruption by the alarm that \<open>recv_v4\<close> sets, or an error. A receive that
  waits for more than the list has is \<open>None\<close>. Structures are copied to and from buffers byte by byte,
  16 bit fields low byte first.
\<close>

section \<open>Headers and buffers\<close>

record ip_hdr =
  ip_v :: nat
  ip_hl :: nat
  ip_tos :: nat
  ip_len :: nat
  ip_id :: nat
  ip_off :: nat
  ip_ttl :: nat
  ip_p :: nat
  ip_sum :: nat
  ip_src :: "nat list"
  ip_dst :: "nat list"

text \<open>The last 20 bytes of \<open>struct icmp\<close> hold what the program never sets.\<close>

record icmp_hdr =
  icmp_type :: nat
  icmp_code :: nat
  icmp_cksum :: nat
  icmp_id :: nat
  icmp_seq :: nat
  icmp_rest :: "nat list"

definition u16 :: "nat \<Rightarrow> nat list" where
  "u16 n = [n mod 256, n div 256 mod 256]"

definition ip_bytes :: "ip_hdr \<Rightarrow> nat list" where
  "ip_bytes h = [ip_hl h + 16 * ip_v h, ip_tos h] @ u16 (ip_len h) @ u16 (ip_id h) @ u16 (ip_off h) @
     [ip_ttl h, ip_p h] @ u16 (ip_sum h) @ ip_src h @ ip_dst h"

definition icmp_bytes :: "icmp_hdr \<Rightarrow> nat list" where
  "icmp_bytes h = [icmp_type h, icmp_code h] @ u16 (icmp_cksum h) @ u16 (icmp_id h) @ u16 (icmp_seq h) @ icmp_rest h"

definition get16 :: "nat list \<Rightarrow> nat \<Rightarrow> nat" where
  "get16 bs i = le16 (bs ! i) (bs ! (i + 1))"

definition ip_of :: "nat list \<Rightarrow> ip_hdr" where
  "ip_of bs = \<lparr>ip_v = bs ! 0 div 16, ip_hl = bs ! 0 mod 16, ip_tos = bs ! 1, ip_len = get16 bs 2, ip_id = get16 bs 4,
     ip_off = get16 bs 6, ip_ttl = bs ! 8, ip_p = bs ! 9, ip_sum = get16 bs 10, ip_src = take 4 (drop 12 bs),
     ip_dst = take 4 (drop 16 bs)\<rparr>"

definition icmp_of :: "nat list \<Rightarrow> icmp_hdr" where
  "icmp_of bs = \<lparr>icmp_type = bs ! 0, icmp_code = bs ! 1, icmp_cksum = get16 bs 2, icmp_id = get16 bs 4,
     icmp_seq = get16 bs 6, icmp_rest = take 20 (drop 8 bs)\<rparr>"

text \<open>\<open>memcpy\<close> into a buffer at an offset.\<close>

definition blit :: "nat list \<Rightarrow> nat \<Rightarrow> nat list \<Rightarrow> nat list" where
  "blit buf off bs = take off buf @ bs @ drop (off + length bs) buf"

definition SIZE_IP :: nat where "SIZE_IP = 20"
definition SIZE_ICMP :: nat where "SIZE_ICMP = 28"
definition BUFSIZE :: nat where "BUFSIZE = 1500"
definition IPPROTO_ICMP :: nat where "IPPROTO_ICMP = 1"
definition ICMP_ECHOREPLY :: nat where "ICMP_ECHOREPLY = 0"
definition ICMP_ECHO :: nat where "ICMP_ECHO = 8"
definition ICMP_TIME_EXCEEDED :: nat where "ICMP_TIME_EXCEEDED = 11"

section \<open>State\<close>

datatype recv_event = Received "nat list" | Interrupted | Failed

datatype trace_out = OutHop nat | OutAddr string | OutStar | OutRtt "int \<times> int" | OutArrived | OutNewline

record trace_status =
  pid :: nat
  hops_time :: nat
  gotalarm :: bool
  sendtv :: "int \<times> int"
  recvtv :: "int \<times> int"
  sendbuf :: "nat list"
  sendpkt_len :: nat
  recvbuf :: "nat list"
  buflen :: nat
  flags_echo :: bool

text \<open>
  The program's state with the structure \<open>proto_v4\<close> and the packet, and the world: what \<open>recvfrom\<close> will give, the
  readings of the clock, the datagrams sent and the output.
\<close>

record trace =
  status :: trace_status
  send_ip :: ip_hdr
  send_icmp :: icmp_hdr
  recv_ip :: ip_hdr
  recv_icmp :: icmp_hdr
  icmpproto :: nat
  sasend :: "nat list"
  sabind :: "nat list"
  sarecv :: "nat list"
  net :: "recv_event list"
  clock :: "(int \<times> int) list"
  sent :: "nat list list"
  printed :: "trace_out list"

definition upd_status :: "(trace_status \<Rightarrow> trace_status) \<Rightarrow> trace \<Rightarrow> trace" where
  "upd_status f t = t\<lparr>status := f (status t)\<rparr>"

definition put :: "trace_out list \<Rightarrow> trace \<Rightarrow> trace" where
  "put os t = t\<lparr>printed := printed t @ os\<rparr>"

section \<open>Sending a probe\<close>

definition send_v4 :: "trace \<Rightarrow> trace" where
  "send_v4 t =
     (let st = status t;
          ip = \<lparr>ip_v = 4, ip_hl = 5, ip_tos = 0, ip_len = sendpkt_len st mod 2 ^ 16, ip_id = pid st mod 2 ^ 16,
                ip_off = 0, ip_ttl = hops_time st mod 2 ^ 8, ip_p = icmpproto t mod 2 ^ 8, ip_sum = 0,
                ip_src = sabind t, ip_dst = sasend t\<rparr>;
          icmp = \<lparr>icmp_type = ICMP_ECHO, icmp_code = 0, icmp_cksum = 0, icmp_id = pid st mod 2 ^ 16,
                  icmp_seq = hops_time st mod 2 ^ 16, icmp_rest = icmp_rest (send_icmp t)\<rparr>;
          hdrlen = SIZE_IP + SIZE_ICMP;
          buf1 = blit (sendbuf st) 0 (replicate 4 0);
          buf2 = blit buf1 0 (ip_bytes ip);
          buf3 = blit buf2 SIZE_IP (icmp_bytes icmp);
          buf4 = blit buf3 hdrlen (replicate (sendpkt_len st - hdrlen) 0);
          icmp1 = icmp\<lparr>icmp_cksum := in_cksum (take (SIZE_ICMP + sendpkt_len st - hdrlen) (drop SIZE_IP buf4))\<rparr>;
          buf5 = blit buf4 SIZE_IP (icmp_bytes icmp1) in
      t\<lparr>status := st\<lparr>sendbuf := buf5\<rparr>, send_ip := ip, send_icmp := icmp1,
        sent := sent t @ [take (sendpkt_len st) buf5]\<rparr>)"

section \<open>Receiving the answer\<close>

text \<open>The handling of a datagram: \<open>None\<close> goes on waiting.\<close>

definition recv_packet :: "nat list \<Rightarrow> trace \<Rightarrow> trace \<times> int option" where
  "recv_packet bs t =
     (let st = status t; buf = blit (recvbuf st) 0 bs; t1 = t\<lparr>status := st\<lparr>recvbuf := buf\<rparr>\<rparr> in
      if length bs < SIZE_IP then (t1, None)
      else
        let t2 = t1\<lparr>recv_ip := ip_of (take SIZE_IP buf)\<rparr> in
        if icmpproto t \<noteq> ip_p (recv_ip t2) then (t2, None)
        else if ip_len (recv_ip t2) < SIZE_IP + SIZE_ICMP then (t2, None)
        else
          let t3 = t2\<lparr>recv_icmp := icmp_of (take SIZE_ICMP (drop SIZE_IP buf))\<rparr>;
              addr = ip_src (recv_ip t3);
              seen = upd_status (\<lambda>s. s\<lparr>flags_echo := True\<rparr>) (put [OutAddr (octets_text addr)] (t3\<lparr>sarecv := addr\<rparr>)) in
          if icmp_type (recv_icmp t3) = ICMP_TIME_EXCEEDED
          then (if flags_echo (status t3) then t3 else seen, Some (- 1))
          else if icmp_type (recv_icmp t3) = ICMP_ECHOREPLY then (seen, Some (- 2))
          else (t3, Some (- 3)))"

text \<open>The loop over what \<open>recvfrom\<close> gives. The list is what is left of \<open>net\<close>.\<close>

fun recv_loop :: "recv_event list \<Rightarrow> trace \<Rightarrow> (int \<times> trace) outcome option" where
  "recv_loop [] t = (if gotalarm (status t) then Some (Returns (- 3, t)) else None)"
| "recv_loop (e # es) t =
     (if gotalarm (status t) then Some (Returns (- 3, t))
      else let t1 = t\<lparr>net := es\<rparr> in
           case e of
             Interrupted \<Rightarrow> recv_loop es (upd_status (\<lambda>s. s\<lparr>gotalarm := True\<rparr>) t1)
           | Failed \<Rightarrow> Some (Dies ''recvfrom error'')
           | Received bs \<Rightarrow>
               (case recv_packet (take (buflen (status t)) bs) t1 of
                  (t2, Some r) \<Rightarrow> Some (Returns (r, t2))
                | (t2, None) \<Rightarrow> recv_loop es t2))"

definition recv_v4 :: "trace \<Rightarrow> (int \<times> trace) outcome option" where
  "recv_v4 t =
     (let t1 = upd_status (\<lambda>s. s\<lparr>recvbuf := blit (recvbuf s) 0 (replicate 4 0), gotalarm := False\<rparr>) t in
      recv_loop (net t1) t1)"

section \<open>The loop over the hops\<close>

definition tv_sub :: "int \<times> int \<Rightarrow> int \<times> int \<Rightarrow> int \<times> int" where
  "tv_sub out inn =
     (let usec = snd out - snd inn in
      if usec < 0 then (fst out - 1 - fst inn, usec + 1000000) else (fst out - fst inn, usec))"

text \<open>\<open>Gettimeofday\<close>: the next reading of the clock.\<close>

definition gettimeofday :: "trace \<Rightarrow> (int \<times> int) \<times> trace" where
  "gettimeofday t = (case clock t of [] \<Rightarrow> ((0, 0), t) | c # cs \<Rightarrow> (c, t\<lparr>clock := cs\<rparr>))"

text \<open>One probe; the result says whether the destination has answered.\<close>

definition probe :: "trace \<Rightarrow> (bool \<times> trace) outcome option" where
  "probe t =
     (let (now, t1) = gettimeofday t;
          t2 = send_v4 (upd_status (\<lambda>s. s\<lparr>sendtv := now\<rparr>) t1);
          t3 = upd_status (\<lambda>s. s\<lparr>gotalarm := False\<rparr>) t2 in
      case recv_v4 t3 of
        None \<Rightarrow> None
      | Some (Dies m) \<Rightarrow> Some (Dies m)
      | Some (Returns (ret, t4)) \<Rightarrow>
          if ret = - 3 then Some (Returns (False, put [OutStar] t4))
          else if ret = - 1
          then (let (now2, t5) = gettimeofday t4; d = tv_sub now2 (sendtv (status t5)) in
                Some (Returns (False, put [OutRtt d] (upd_status (\<lambda>s. s\<lparr>recvtv := d\<rparr>) t5))))
          else if ret = - 2 then Some (Returns (True, put [OutArrived] t4))
          else Some (Returns (False, t4)))"

text \<open>The probes of a hop that are left, at most three, until the destination has answered.\<close>

fun hop_loop :: "nat \<Rightarrow> trace \<Rightarrow> (bool \<times> trace) outcome option" where
  "hop_loop 0 t = Some (Returns (False, t))"
| "hop_loop (Suc n) t =
     (case probe t of
        None \<Rightarrow> None
      | Some (Dies m) \<Rightarrow> Some (Dies m)
      | Some (Returns (True, t1)) \<Rightarrow> Some (Returns (True, t1))
      | Some (Returns (False, t1)) \<Rightarrow> hop_loop n t1)"

text \<open>
  The loop of \<open>traceloop\<close>; \<open>n\<close> is \<open>hops_max + 1 - hops_time\<close>, the hops that are left.
\<close>

fun trace_hops :: "nat \<Rightarrow> trace \<Rightarrow> trace outcome option" where
  "trace_hops 0 t = Some (Returns t)"
| "trace_hops (Suc n) t =
     (let t1 = put [OutHop (hops_time (status t))] (upd_status (\<lambda>s. s\<lparr>flags_echo := False\<rparr>) t) in
      case hop_loop 3 t1 of
        None \<Rightarrow> None
      | Some (Dies m) \<Rightarrow> Some (Dies m)
      | Some (Returns (arrived, t2)) \<Rightarrow>
          let t3 = put [OutNewline] (upd_status (\<lambda>s. s\<lparr>hops_time := hops_time s + 1\<rparr>) t2) in
          if arrived then Some (Returns t3) else trace_hops n t3)"

text \<open>
  \<open>traceloop\<close> with the outcomes of \<open>socket\<close>, \<open>setsockopt\<close> and the address \<open>Getsockname\<close> gives.
\<close>

definition traceloop :: "bool \<Rightarrow> bool \<Rightarrow> nat list \<Rightarrow> nat \<Rightarrow> trace \<Rightarrow> trace outcome option" where
  "traceloop sock opt sa hops_max t =
     (if \<not> sock then Some (Dies ''socket err'')
      else if \<not> opt then Some (Dies ''setsockopt err'')
      else trace_hops (hops_max + 1 - hops_time (status t)) (t\<lparr>sabind := sa\<rparr>))"

section \<open>Messages and the difference of two times\<close>

definition icmpcode_v4 :: "int \<Rightarrow> string" where
  "icmpcode_v4 code =
     (if code = 0 then ''network unreachable''
      else if code = 1 then ''host unreachable''
      else if code = 2 then ''protocol unreachable''
      else if code = 3 then ''port unreachable''
      else if code = 4 then ''fragmentation required but DF bit set''
      else if code = 5 then ''source route failed''
      else if code = 6 then ''destination network unknown''
      else if code = 7 then ''destination host unknown''
      else if code = 8 then ''source host isolated (obsolete)''
      else if code = 9 then ''destination network administratively prohibited''
      else if code = 10 then ''destination host administratively prohibited''
      else if code = 11 then ''network unreachable for TOS''
      else if code = 12 then ''host unreachable for TOS''
      else if code = 13 then ''communication administratively prohibited by filtering''
      else if code = 14 then ''host recedence violation''
      else if code = 15 then ''precedence cutoff in effect''
      else ''[unknown code '' @ (if code < 0 then ''-'' else []) @ dec (nat \<bar>code\<bar>) @ '']'')"

text \<open>\<open>mytv_sub\<close> returns the seconds only.\<close>

definition mytv_sub :: "int \<times> int \<Rightarrow> int \<times> int \<Rightarrow> int" where
  "mytv_sub out inn = fst (tv_sub out inn)"

lemma tv_sub_exact:
  assumes "0 \<le> snd out" "snd out < 1000000" "0 \<le> snd inn" "snd inn < 1000000"
  shows "fst (tv_sub out inn) * 1000000 + snd (tv_sub out inn) =
      (fst out * 1000000 + snd out) - (fst inn * 1000000 + snd inn)"
    "0 \<le> snd (tv_sub out inn)" "snd (tv_sub out inn) < 1000000"
  using assms by (auto simp: tv_sub_def Let_def)

section \<open>A probe is well formed\<close>

text \<open>The sizes of the program's buffers and the bytes in them.\<close>

definition trace_ok :: "trace \<Rightarrow> bool" where
  "trace_ok t \<longleftrightarrow> length (sendbuf (status t)) = BUFSIZE \<and> 48 \<le> sendpkt_len (status t) \<and> sendpkt_len (status t) \<le> BUFSIZE \<and>
     length (icmp_rest (send_icmp t)) = 20 \<and> list_all (\<lambda>b. b \<le> 255) (icmp_rest (send_icmp t)) \<and>
     length (sabind t) = 4 \<and> length (sasend t) = 4"

lemma length_blit: "off + length bs \<le> length buf \<Longrightarrow> length (blit buf off bs) = length buf"
  by (simp add: blit_def)

lemma blit_region: "off + length bs \<le> length buf \<Longrightarrow> take (length bs) (drop off (blit buf off bs)) = bs"
  by (simp add: blit_def)

lemma blit_blit_front:
  assumes "off + length bs \<le> length buf" "off' = off + length bs" "off' + length cs \<le> length buf"
  shows "take (length bs + length cs) (drop off (blit (blit buf off bs) off' cs)) = bs @ cs"
  using assms by (simp add: blit_def)

lemma word_sum_append: "even (length us) \<Longrightarrow> word_sum (us @ vs) = word_sum us + word_sum vs"
  by (induction us rule: word_sum.induct) auto

lemma word_sum_u16: "n < 65536 \<Longrightarrow> word_sum (u16 n) = n"
  by (simp add: u16_def le16_def)

lemma length_hdrs [simp]:
  "length (u16 n) = 2"
  "length (ip_src h) = 4 \<Longrightarrow> length (ip_dst h) = 4 \<Longrightarrow> length (ip_bytes h) = 20"
  "length (icmp_rest k) = 20 \<Longrightarrow> length (icmp_bytes k) = 28"
  by (simp_all add: u16_def ip_bytes_def icmp_bytes_def)

text \<open>A message with its checksum in the third and fourth byte has checksum 0.\<close>

lemma icmp_verifies:
  assumes rest: "list_all (\<lambda>b. b \<le> 255) (icmp_rest h)" and h: "icmp_type h \<le> 255" "icmp_code h \<le> 255" "icmp_cksum h = 0"
    and data: "list_all (\<lambda>b. b \<le> 255) data" "length (icmp_bytes h @ data) \<le> 131072"
  shows "in_cksum (icmp_bytes (h\<lparr>icmp_cksum := in_cksum (icmp_bytes h @ data)\<rparr>) @ data) = 0"
proof -
  let ?c = "in_cksum (icmp_bytes h @ data)" and ?tail = "u16 (icmp_id h) @ u16 (icmp_seq h) @ icmp_rest h @ data"
  have u: "list_all (\<lambda>b. b \<le> 255) (u16 n)" for n using mod_less_divisor [of 256 n] mod_less_divisor [of 256 "n div 256"]
    by (simp add: u16_def less_Suc_eq_le [symmetric])
  have shape: "icmp_bytes (h\<lparr>icmp_cksum := c\<rparr>) @ data = [icmp_type h, icmp_code h] @ u16 c @ ?tail" for c
    by (simp add: icmp_bytes_def)
  have shape0: "icmp_bytes h @ data = [icmp_type h, icmp_code h] @ u16 0 @ ?tail" using h(3) by (simp add: icmp_bytes_def)
  have bytes: "list_all (\<lambda>b. b \<le> 255) ([icmp_type h, icmp_code h] @ u16 c @ ?tail)" for c using rest h data(1) u by simp
  have len: "length ([icmp_type h, icmp_code h] @ u16 c @ ?tail) \<le> 131072" for c using data(2) unfolding shape0 by simp
  let ?n = "word_sum ([icmp_type h, icmp_code h] @ u16 0 @ ?tail)"
  have c: "?c = 65535 - ones_sum ?n" unfolding shape0 by (rule in_cksum_ones [OF bytes len])
  have "?c < 65536" unfolding c by simp
  then have w: "word_sum ([icmp_type h, icmp_code h] @ u16 ?c @ ?tail) = ?n + ?c"
    using word_sum_append [of "u16 ?c" ?tail] word_sum_append [of "u16 0" ?tail] word_sum_u16 [of ?c] word_sum_u16 [of 0] by simp
  have "ones_sum (?n + ?c) = 65535" unfolding c by (rule ones_sum_complement)
  then show ?thesis unfolding shape in_cksum_ones [OF bytes len] w by simp
qed

definition datagram_ok :: "nat \<Rightarrow> nat \<Rightarrow> nat list \<Rightarrow> bool" where
  "datagram_ok len ttl d \<longleftrightarrow> length d = len \<and> d ! 8 = ttl mod 256 \<and> in_cksum (drop 20 d) = 0"

lemma send_v4_ok:
  assumes ok: "trace_ok t"
  shows "\<exists>d. sent (send_v4 t) = sent t @ [d] \<and> datagram_ok (sendpkt_len (status t)) (hops_time (status t)) d"
    "trace_ok (send_v4 t)" "net (send_v4 t) = net t" "status (send_v4 t) = (status t)\<lparr>sendbuf := sendbuf (status (send_v4 t))\<rparr>"
proof -
  let ?st = "status t" and ?n = "sendpkt_len (status t) - 48"
  define ip where "ip = \<lparr>ip_v = 4, ip_hl = 5, ip_tos = 0, ip_len = sendpkt_len ?st mod 2 ^ 16, ip_id = pid ?st mod 2 ^ 16,
      ip_off = 0, ip_ttl = hops_time ?st mod 2 ^ 8, ip_p = icmpproto t mod 2 ^ 8, ip_sum = 0, ip_src = sabind t, ip_dst = sasend t\<rparr>"
  define icmp where "icmp = \<lparr>icmp_type = ICMP_ECHO, icmp_code = 0, icmp_cksum = 0, icmp_id = pid ?st mod 2 ^ 16,
      icmp_seq = hops_time ?st mod 2 ^ 16, icmp_rest = icmp_rest (send_icmp t)\<rparr>"
  define icmp1 where "icmp1 = icmp\<lparr>icmp_cksum := in_cksum (icmp_bytes icmp @ replicate ?n 0)\<rparr>"
  define buf where "buf = ip_bytes ip @ icmp_bytes icmp1 @ replicate ?n 0 @ drop (sendpkt_len ?st) (sendbuf ?st)"
  have sizes: "length (sendbuf ?st) = 1500" "48 \<le> sendpkt_len ?st" "sendpkt_len ?st \<le> 1500"
    using ok by (auto simp: trace_ok_def BUFSIZE_def)
  have l: "length (ip_bytes ip) = 20" "length (icmp_bytes icmp) = 28" "length (icmp_bytes icmp1) = 28"
    using ok by (simp_all add: ip_def icmp_def icmp1_def trace_ok_def)
  have run: "send_v4 t = t\<lparr>status := ?st\<lparr>sendbuf := buf\<rparr>, send_ip := ip, send_icmp := icmp1, sent := sent t @ [take (sendpkt_len ?st) buf]\<rparr>"
  proof -
    let ?b2 = "blit (blit (sendbuf ?st) 0 (replicate 4 0)) 0 (ip_bytes ip)"
    have b2: "?b2 = ip_bytes ip @ drop 20 (sendbuf ?st)" using sizes l by (simp add: blit_def)
    let ?b4 = "blit (blit ?b2 20 (icmp_bytes icmp)) 48 (replicate ?n 0)"
    have b4: "?b4 = ip_bytes ip @ icmp_bytes icmp @ replicate ?n 0 @ drop (sendpkt_len ?st) (sendbuf ?st)"
      unfolding b2 using sizes l by (simp add: blit_def)
    have b5: "blit ?b4 20 (icmp_bytes icmp1) = buf" unfolding b4 buf_def using l by (simp add: blit_def)
    have "take (28 + sendpkt_len ?st - 48) (drop 20 ?b4) = icmp_bytes icmp @ replicate ?n 0" unfolding b4 using sizes l by simp
    then show ?thesis
      using b5 unfolding send_v4_def Let_def SIZE_IP_def SIZE_ICMP_def ip_def [symmetric] icmp_def [symmetric]
      by (simp add: icmp1_def)
  qed
  have d: "take (sendpkt_len ?st) buf = ip_bytes ip @ icmp_bytes icmp1 @ replicate ?n 0" using sizes l by (simp add: buf_def)
  have "in_cksum (icmp_bytes icmp1 @ replicate ?n 0) = 0"
    unfolding icmp1_def by (rule icmp_verifies) (use ok sizes l in \<open>auto simp: icmp_def trace_ok_def ICMP_ECHO_def list_all_iff\<close>)
  then have "datagram_ok (sendpkt_len ?st) (hops_time ?st) (take (sendpkt_len ?st) buf)"
    unfolding datagram_ok_def d using sizes l by (simp add: ip_bytes_def ip_def u16_def nth_append)
  then show "\<exists>d. sent (send_v4 t) = sent t @ [d] \<and> datagram_ok (sendpkt_len ?st) (hops_time ?st) d" by (simp add: run)
  show "trace_ok (send_v4 t)" using ok l sizes by (simp add: run trace_ok_def buf_def BUFSIZE_def icmp1_def icmp_def)
  show "net (send_v4 t) = net t" "status (send_v4 t) = ?st\<lparr>sendbuf := sendbuf (status (send_v4 t))\<rparr>" by (simp_all add: run)
qed

section \<open>A receive ends with the alarm\<close>

text \<open>What receiving leaves alone.\<close>

definition sends_same :: "trace \<Rightarrow> trace \<Rightarrow> bool" where
  "sends_same t t' \<longleftrightarrow> sent t' = sent t \<and> send_icmp t' = send_icmp t \<and> sabind t' = sabind t \<and> sasend t' = sasend t \<and>
     sendbuf (status t') = sendbuf (status t) \<and> sendpkt_len (status t') = sendpkt_len (status t) \<and>
     hops_time (status t') = hops_time (status t)"

lemma sends_same_trans: "sends_same a b \<Longrightarrow> sends_same b c \<Longrightarrow> sends_same a c"
  by (simp add: sends_same_def)

lemma sends_same_ok: "sends_same t t' \<Longrightarrow> trace_ok t \<Longrightarrow> trace_ok t'"
  by (simp add: sends_same_def trace_ok_def)

lemma recv_packet_frame:
  "sends_same t (fst (recv_packet bs t))" "net (fst (recv_packet bs t)) = net t"
  "gotalarm (status (fst (recv_packet bs t))) = gotalarm (status t)"
  by (simp_all add: recv_packet_def Let_def upd_status_def put_def sends_same_def)

abbreviation alarms :: "recv_event list \<Rightarrow> nat" where
  "alarms es \<equiv> length (filter (\<lambda>e. e = Interrupted) es)"

lemma recv_loop_run:
  assumes "net t = es" "Failed \<notin> set es" "gotalarm (status t) \<or> 0 < alarms es"
  shows "\<exists>r t'. recv_loop es t = Some (Returns (r, t')) \<and> sends_same t t' \<and> Failed \<notin> set (net t') \<and>
    alarms es \<le> alarms (net t') + of_bool (\<not> gotalarm (status t))"
  using assms
proof (induction es arbitrary: t)
  case Nil
  then show ?case by (simp add: sends_same_def)
next
  case (Cons e es)
  show ?case
  proof (cases "gotalarm (status t)")
    case True
    with Cons.prems show ?thesis by (simp add: sends_same_def)
  next
    case False
    let ?t1 = "t\<lparr>net := es\<rparr>"
    show ?thesis
    proof (cases e)
      case Interrupted
      let ?t2 = "upd_status (\<lambda>s. s\<lparr>gotalarm := True\<rparr>) ?t1"
      have same: "sends_same t ?t2" by (simp add: sends_same_def upd_status_def)
      obtain r t' where "recv_loop es ?t2 = Some (Returns (r, t'))" "sends_same ?t2 t'" "Failed \<notin> set (net t')"
        "alarms es \<le> alarms (net t')"
        using Cons.IH [of ?t2] Cons.prems by (auto simp: upd_status_def)
      with False Interrupted sends_same_trans [OF same] show ?thesis by auto
    next
      case Failed
      with Cons.prems show ?thesis by simp
    next
      case (Received bs)
      let ?p = "recv_packet (take (buflen (status t)) bs) ?t1"
      have fr: "sends_same t (fst ?p)" "net (fst ?p) = es" "gotalarm (status (fst ?p)) = gotalarm (status t)"
        using recv_packet_frame [where t = ?t1 and bs = "take (buflen (status t)) bs"] by (auto simp: sends_same_def)
      show ?thesis
      proof (cases "snd ?p")
        case (Some r)
        then have "recv_loop (e # es) t = Some (Returns (r, fst ?p))" using False Received by (cases ?p) (simp add: Let_def)
        with fr Cons.prems Received show ?thesis by auto
      next
        case None
        then have "recv_loop (e # es) t = recv_loop es (fst ?p)" using False Received by (cases ?p) (simp add: Let_def)
        with Cons.IH [OF fr(2)] fr Cons.prems Received False sends_same_trans [OF fr(1)] show ?thesis by auto
      qed
    qed
  qed
qed

text \<open>A probe sends one datagram and waits until an answer or the alarm comes.\<close>

lemma probe_run:
  assumes ok: "trace_ok t" and f: "Failed \<notin> set (net t)" and a: "0 < alarms (net t)"
  shows "\<exists>b t' d. probe t = Some (Returns (b, t')) \<and> sent t' = sent t @ [d] \<and>
    datagram_ok (sendpkt_len (status t)) (hops_time (status t)) d \<and> trace_ok t' \<and>
    hops_time (status t') = hops_time (status t) \<and> sendpkt_len (status t') = sendpkt_len (status t) \<and>
    Failed \<notin> set (net t') \<and> alarms (net t) \<le> alarms (net t') + 1 \<and> (b \<longrightarrow> (\<exists>out. printed t' = out @ [OutArrived]))"
proof -
  obtain now t1 where g: "gettimeofday t = (now, t1)" by (cases "gettimeofday t")
  let ?t1 = "upd_status (\<lambda>s. s\<lparr>sendtv := now\<rparr>) t1"
  have g1: "sends_same t ?t1" "net ?t1 = net t" "gotalarm (status ?t1) = gotalarm (status t)"
    using g by (auto simp: gettimeofday_def upd_status_def sends_same_def split: list.splits)
  have ok1: "trace_ok ?t1" by (rule sends_same_ok [OF g1(1) ok])
  note s = send_v4_ok [OF ok1]
  from s(1) obtain d where d: "sent (send_v4 ?t1) = sent t @ [d]" "datagram_ok (sendpkt_len (status t)) (hops_time (status t)) d"
    using g1(1) by (auto simp: sends_same_def)
  have keep: "sendpkt_len (status (send_v4 ?t1)) = sendpkt_len (status t)" "hops_time (status (send_v4 ?t1)) = hops_time (status t)"
    using s(4) g1(1) by (metis (no_types, lifting) sends_same_def trace_status.select_convs(2,7) trace_status.surjective trace_status.update_convs(6))+
  let ?t3 = "upd_status (\<lambda>s. s\<lparr>recvbuf := blit (recvbuf s) 0 (replicate 4 0), gotalarm := False\<rparr>)
    (upd_status (\<lambda>s. s\<lparr>gotalarm := False\<rparr>) (send_v4 ?t1))"
  have t3: "sends_same (send_v4 ?t1) ?t3" "net ?t3 = net t" "\<not> gotalarm (status ?t3)"
    using s(3) g1(2) by (simp_all add: sends_same_def upd_status_def)
  obtain r t4 where r: "recv_loop (net ?t3) ?t3 = Some (Returns (r, t4))" "sends_same ?t3 t4" "Failed \<notin> set (net t4)"
    "alarms (net t) \<le> alarms (net t4) + 1"
    using recv_loop_run [of ?t3 "net t"] t3(2,3) f a by auto
  have same: "sends_same (send_v4 ?t1) t4" by (rule sends_same_trans [OF t3(1) r(2)])
  have ok4: "trace_ok t4" by (rule sends_same_ok [OF same s(2)])
  have after: "\<exists>t'. probe t = Some (Returns (r = - 2, t')) \<and> sends_same t4 t' \<and> net t' = net t4 \<and>
      (r = - 2 \<longrightarrow> (\<exists>out. printed t' = out @ [OutArrived]))"
    using r(1) unfolding probe_def g recv_v4_def
    by (auto simp: Let_def put_def upd_status_def sends_same_def gettimeofday_def split: list.splits)
  then obtain t' where p: "probe t = Some (Returns (r = - 2, t'))" "sends_same t4 t'" "net t' = net t4"
    "r = - 2 \<longrightarrow> (\<exists>out. printed t' = out @ [OutArrived])" by blast
  have "sends_same (send_v4 ?t1) t'" by (rule sends_same_trans [OF same p(2)])
  with p d keep r(3,4) sends_same_ok [OF p(2) ok4] show ?thesis by (auto simp: sends_same_def)
qed

section \<open>The loops\<close>

lemma hop_run:
  assumes "trace_ok t" "Failed \<notin> set (net t)" "k \<le> alarms (net t)"
  shows "\<exists>b t' ds. hop_loop k t = Some (Returns (b, t')) \<and> sent t' = sent t @ ds \<and> length ds \<le> k \<and> (\<not> b \<longrightarrow> length ds = k) \<and>
    list_all (datagram_ok (sendpkt_len (status t)) (hops_time (status t))) ds \<and> trace_ok t' \<and>
    hops_time (status t') = hops_time (status t) \<and> sendpkt_len (status t') = sendpkt_len (status t) \<and>
    Failed \<notin> set (net t') \<and> alarms (net t) \<le> alarms (net t') + k \<and> (b \<longrightarrow> (\<exists>out. printed t' = out @ [OutArrived]))"
  using assms
proof (induction k arbitrary: t)
  case 0
  then show ?case by (intro exI [of _ False] exI [of _ t] exI [of _ "[]"]) simp
next
  case (Suc k)
  have "0 < alarms (net t)" using Suc.prems(3) by linarith
  from probe_run [OF Suc.prems(1,2) this] obtain b t1 d where
    p: "probe t = Some (Returns (b, t1))" "sent t1 = sent t @ [d]" "datagram_ok (sendpkt_len (status t)) (hops_time (status t)) d"
    "trace_ok t1" "hops_time (status t1) = hops_time (status t)" "sendpkt_len (status t1) = sendpkt_len (status t)"
    "Failed \<notin> set (net t1)" "alarms (net t) \<le> alarms (net t1) + 1" "b \<longrightarrow> (\<exists>out. printed t1 = out @ [OutArrived])" by blast
  show ?case
  proof (cases b)
    case True
    with p have "hop_loop (Suc k) t = Some (Returns (True, t1))" "length [d] \<le> Suc k" by simp_all
    with True p show ?thesis by (intro exI [of _ True] exI [of _ t1] exI [of _ "[d]"]) auto
  next
    case False
    have "k \<le> alarms (net t1)" using Suc.prems(3) p(8) by linarith
    from Suc.IH [OF p(4,7) this] obtain b' t' ds where
      q: "hop_loop k t1 = Some (Returns (b', t'))" "sent t' = sent t1 @ ds" "length ds \<le> k" "\<not> b' \<longrightarrow> length ds = k"
      "list_all (datagram_ok (sendpkt_len (status t1)) (hops_time (status t1))) ds" "trace_ok t'"
      "hops_time (status t') = hops_time (status t1)" "sendpkt_len (status t') = sendpkt_len (status t1)"
      "Failed \<notin> set (net t')" "alarms (net t1) \<le> alarms (net t') + k" "b' \<longrightarrow> (\<exists>out. printed t' = out @ [OutArrived])" by blast
    have "alarms (net t) \<le> alarms (net t') + Suc k" using p(8) q(10) by linarith
    with False p q show ?thesis by (intro exI [of _ b'] exI [of _ t'] exI [of _ "d # ds"]) auto
  qed
qed

definition probes_ok :: "nat \<Rightarrow> nat \<Rightarrow> nat list list \<Rightarrow> bool" where
  "probes_ok len h ds \<longleftrightarrow> (\<forall>i < length ds. datagram_ok len (h + i div 3) (ds ! i))"

lemma probes_ok_append:
  assumes "list_all (datagram_ok len h) us" "length us = 3" "probes_ok len (h + 1) vs"
  shows "probes_ok len h (us @ vs)"
  unfolding probes_ok_def
proof (intro allI impI)
  fix i
  assume i: "i < length (us @ vs)"
  show "datagram_ok len (h + i div 3) ((us @ vs) ! i)"
  proof (cases "i < 3")
    case True
    with assms(1,2) show ?thesis by (simp add: nth_append list_all_length)
  next
    case False
    then obtain j where "i = j + 3" by (metis add.commute le_Suc_ex not_less)
    moreover have "h + (j + 3) div 3 = h + 1 + j div 3" by simp
    ultimately show ?thesis using assms(2,3) i by (simp only: probes_ok_def) (simp add: nth_append)
  qed
qed

lemma trace_hops_run:
  assumes "trace_ok t" "Failed \<notin> set (net t)" "3 * n \<le> alarms (net t)"
  shows "\<exists>t' ds. trace_hops n t = Some (Returns t') \<and> sent t' = sent t @ ds \<and> length ds \<le> 3 * n \<and>
    probes_ok (sendpkt_len (status t)) (hops_time (status t)) ds \<and>
    (length ds = 3 * n \<or> (\<exists>out. printed t' = out @ [OutArrived, OutNewline]))"
  using assms
proof (induction n arbitrary: t)
  case 0
  then show ?case by (simp add: probes_ok_def)
next
  case (Suc n)
  let ?t1 = "put [OutHop (hops_time (status t))] (upd_status (\<lambda>s. s\<lparr>flags_echo := False\<rparr>) t)"
  have t1: "trace_ok ?t1" "Failed \<notin> set (net ?t1)" "3 \<le> alarms (net ?t1)"
    using Suc.prems by (simp_all add: put_def upd_status_def trace_ok_def)
  from hop_run [OF t1] obtain b t2 us where
    p: "hop_loop 3 ?t1 = Some (Returns (b, t2))" "sent t2 = sent t @ us" "length us \<le> 3" "\<not> b \<longrightarrow> length us = 3"
    "list_all (datagram_ok (sendpkt_len (status t)) (hops_time (status t))) us" "trace_ok t2"
    "hops_time (status t2) = hops_time (status t)" "sendpkt_len (status t2) = sendpkt_len (status t)"
    "Failed \<notin> set (net t2)" "alarms (net t) \<le> alarms (net t2) + 3" "b \<longrightarrow> (\<exists>out. printed t2 = out @ [OutArrived])"
    by (auto simp: put_def upd_status_def)
  let ?t3 = "put [OutNewline] (upd_status (\<lambda>s. s\<lparr>hops_time := hops_time s + 1\<rparr>) t2)"
  show ?case
  proof (cases b)
    case True
    have "probes_ok (sendpkt_len (status t)) (hops_time (status t)) us"
      using p(3,5) by (auto simp: probes_ok_def list_all_length)
    moreover have "trace_hops (Suc n) t = Some (Returns ?t3)" "sent ?t3 = sent t @ us" "length us \<le> 3 * Suc n"
      using True p(1-3) by (simp_all add: Let_def put_def upd_status_def)
    moreover have "\<exists>out. printed ?t3 = out @ [OutArrived, OutNewline]" using True p(11) by (auto simp: put_def upd_status_def)
    ultimately show ?thesis by blast
  next
    case False
    have "trace_ok ?t3" "Failed \<notin> set (net ?t3)" "3 * n \<le> alarms (net ?t3)"
      using p Suc.prems(3) by (simp_all add: put_def upd_status_def trace_ok_def)
    from Suc.IH [OF this] obtain t' vs where
      q: "trace_hops n ?t3 = Some (Returns t')" "sent t' = sent t @ us @ vs" "length vs \<le> 3 * n"
      "probes_ok (sendpkt_len (status t)) (hops_time (status t) + 1) vs"
      "length vs = 3 * n \<or> (\<exists>out. printed t' = out @ [OutArrived, OutNewline])"
      using p(2,7,8) by (auto simp: put_def upd_status_def)
    have "trace_hops (Suc n) t = Some (Returns t')" using False p(1) q(1) by (simp add: Let_def)
    moreover have "length (us @ vs) \<le> 3 * Suc n" "length (us @ vs) = 3 * Suc n \<or> (\<exists>out. printed t' = out @ [OutArrived, OutNewline])"
      using p(4) q(3,5) False by auto
    ultimately show ?thesis
      using probes_ok_append [OF p(5) _ q(4)] p(4) False q(2) by blast
  qed
qed

section \<open>Properties\<close>

text \<open>
  \<open>traceloop\<close> ends as long as the alarm of each wait is delivered and \<open>recvfrom\<close> does not fail: it sends three
  probes per hop in order of the hops, each with its hop as time to live and with a checksum that
  verifies at the receiver, at most three times the hop limit in all, and stops early only when the
  destination has answered.
\<close>

theorem traceloop_terminates:
  assumes "trace_ok (t\<lparr>sabind := sa\<rparr>)" "hops_time (status t) = 1" "sent t = []"
    "Failed \<notin> set (net t)" "3 * hops_max \<le> alarms (net t)"
  shows "\<exists>t'. traceloop True True sa hops_max t = Some (Returns t') \<and> length (sent t') \<le> 3 * hops_max \<and>
    probes_ok (sendpkt_len (status t)) 1 (sent t') \<and>
    (length (sent t') = 3 * hops_max \<or> (\<exists>out. printed t' = out @ [OutArrived, OutNewline]))"
  using trace_hops_run [of "t\<lparr>sabind := sa\<rparr>" hops_max] assms by (auto simp: traceloop_def)

definition trace_start :: "recv_event list \<Rightarrow> trace" where
  "trace_start es =
     \<lparr>status = \<lparr>pid = 77, hops_time = 1, gotalarm = False, sendtv = (0, 0), recvtv = (0, 0), sendbuf = replicate 1500 0,
                sendpkt_len = 78, recvbuf = replicate 1500 0, buflen = 1500, flags_echo = False\<rparr>,
      send_ip = ip_of (replicate 20 0), send_icmp = icmp_of (replicate 28 0),
      recv_ip = ip_of (replicate 20 0), recv_icmp = icmp_of (replicate 28 0), icmpproto = IPPROTO_ICMP,
      sasend = [10, 0, 0, 9], sabind = [0, 0, 0, 0], sarecv = [0, 0, 0, 0], net = es, clock = [], sent = [], printed = []\<rparr>"

theorem traceloop_terminates_witness:
  "\<exists>t'. traceloop True True [10, 0, 0, 1] 2 (trace_start (replicate 6 Interrupted)) = Some (Returns t') \<and>
    length (sent t') \<le> 6 \<and> probes_ok 78 1 (sent t')"
proof -
  let ?t = "trace_start (replicate 6 Interrupted)"
  have "trace_ok (?t\<lparr>sabind := [10, 0, 0, 1]\<rparr>)"
    by (simp add: trace_ok_def trace_start_def BUFSIZE_def icmp_of_def list_all_iff)
  moreover have "Failed \<notin> set (net ?t)" "3 * 2 \<le> alarms (net ?t)" "hops_time (status ?t) = 1" "sent ?t = []"
    "sendpkt_len (status ?t) = 78"
    by (simp_all add: trace_start_def)
  ultimately show ?thesis using traceloop_terminates [where t = ?t and sa = "[10, 0, 0, 1]" and hops_max = 2] by auto
qed

end
