(* ===== verification/Netio.thy ===== *)
theory Netio
  imports Cstring
begin

text \<open>
  Byte stream input and output: \<open>readn\<close>, \<open>writen\<close> and the buffered \<open>readline\<close> of \<open>extra_lib/unpv13e/lib\<close>, and the
  two line readers of \<open>person/client_server\<close> (\<open>readline.c\<close>, one \<open>read\<close> per byte, and the reentrant \<open>readline_r.c\<close>)
  with the server's request loop \<open>web_child\<close>. A descriptor is the list of what its calls of \<open>read\<close> will find: bytes
  that have arrived, an interruption or an error; the end of the list is the end of the stream.
\<close>

section \<open>Reading\<close>

datatype rd_event = Chunk string | RdErr int

type_synonym rdfd = "rd_event list"

datatype rd_result = Bytes string | ReadErr int

text \<open>\<open>read\<close> of at most \<open>n\<close> bytes.\<close>

fun sys_read :: "nat \<Rightarrow> rdfd \<Rightarrow> rd_result \<times> rdfd" where
  "sys_read n [] = (Bytes [], [])"
| "sys_read n (Chunk bs # es) = (Bytes (take n bs), if length bs \<le> n then es else Chunk (drop n bs) # es)"
| "sys_read n (RdErr e # es) = (ReadErr e, es)"

fun ev_size :: "rd_event \<Rightarrow> nat" where
  "ev_size (Chunk bs) = length bs + 1"
| "ev_size (RdErr e) = 1"

definition fd_size :: "rdfd \<Rightarrow> nat" where
  "fd_size fd = sum_list (map ev_size fd)"

lemma sys_read_size:
  "sys_read n fd = (r, fd') \<Longrightarrow> fd_size fd' \<le> fd_size fd"
  "sys_read n fd = (ReadErr e, fd') \<Longrightarrow> fd_size fd' < fd_size fd"
  "sys_read n fd = (Bytes bs, fd') \<Longrightarrow> bs \<noteq> [] \<Longrightarrow> fd_size fd' < fd_size fd"
  by (cases "(n, fd)" rule: sys_read.cases; auto simp: fd_size_def)+

function readn :: "rdfd \<Rightarrow> nat \<Rightarrow> string \<Rightarrow> (int \<times> string) \<times> rdfd" where
  "readn fd nleft got =
     (if nleft = 0 then ((int (length got), got), fd)
      else case sys_read nleft fd of
             (ReadErr e, fd1) \<Rightarrow> if e = EINTR then readn fd1 nleft got else ((- 1, got), fd1)
           | (Bytes bs, fd1) \<Rightarrow>
               if bs = [] then ((int (length got), got), fd1)
               else readn fd1 (nleft - length bs) (got @ bs))"
  by pat_completeness auto
termination
  by (relation "measure (\<lambda>(fd, nleft, got). fd_size fd)") (auto dest: sys_read_size(2,3) [OF sym])

declare readn.simps [simp del]

text \<open>The bytes of a descriptor, and descriptors whose reads do not fail.\<close>

fun stream :: "rdfd \<Rightarrow> string" where
  "stream [] = []"
| "stream (Chunk bs # es) = bs @ stream es"
| "stream (RdErr e # es) = stream es"

definition quiet :: "rdfd \<Rightarrow> bool" where
  "quiet fd \<longleftrightarrow> (\<forall>e\<in>set fd. case e of Chunk bs \<Rightarrow> bs \<noteq> [] | RdErr _ \<Rightarrow> False)"

definition retry :: "rdfd \<Rightarrow> bool" where
  "retry fd \<longleftrightarrow> (\<forall>e\<in>set fd. case e of Chunk bs \<Rightarrow> bs \<noteq> [] | RdErr n \<Rightarrow> n = EINTR)"

lemma retry_simps [simp]: "retry []" "retry (Chunk bs # es) \<longleftrightarrow> bs \<noteq> [] \<and> retry es" "retry (RdErr n # es) \<longleftrightarrow> n = EINTR \<and> retry es"
  by (auto simp: retry_def)

lemma quiet_simps [simp]: "quiet []" "quiet (Chunk bs # es) \<longleftrightarrow> bs \<noteq> [] \<and> quiet es" "\<not> quiet (RdErr n # es)"
  by (auto simp: quiet_def)

lemma readn_stream:
  assumes "retry fd"
  shows "fst (readn fd n got) = (int (length got + length (take n (stream fd))), got @ take n (stream fd)) \<and>
    stream (snd (readn fd n got)) = drop n (stream fd) \<and> retry (snd (readn fd n got))"
  using assms
proof (induction fd n got rule: readn.induct)
  case (1 fd n got)
  show ?case
  proof (cases "n = 0")
    case True
    then have "readn fd n got = ((int (length got), got), fd)" by (subst readn.simps) simp
    with True 1(3) show ?thesis by simp
  next
    case False
    show ?thesis
    proof (cases fd)
      case Nil
      then have "readn fd n got = ((int (length got), got), [])" using False by (subst readn.simps) simp
      with Nil show ?thesis by simp
    next
      case (Cons e es)
      show ?thesis
      proof (cases e)
        case (RdErr m)
        have "readn fd n got = readn es n got" using Cons RdErr False 1(3) by (subst readn.simps) simp
        with 1(2) [OF False, of "ReadErr m" es m] Cons RdErr 1(3) show ?thesis by simp
      next
        case (Chunk bs)
        let ?fd1 = "if length bs \<le> n then es else Chunk (drop n bs) # es"
        have ne: "take n bs \<noteq> []" "bs \<noteq> []" using Chunk Cons 1(3) False by auto
        have eq: "readn fd n got = readn ?fd1 (n - length (take n bs)) (got @ take n bs)"
          using Cons Chunk False ne by (subst readn.simps) simp
        have "retry ?fd1" using Cons Chunk 1(3) by auto
        with 1(1) [OF False, of "Bytes (take n bs)" ?fd1 "take n bs"] Cons Chunk ne
        have "fst (readn fd n got) = (int (length (got @ take n bs) + length (take (n - length (take n bs)) (stream ?fd1))),
            (got @ take n bs) @ take (n - length (take n bs)) (stream ?fd1)) \<and>
          stream (snd (readn fd n got)) = drop (n - length (take n bs)) (stream ?fd1) \<and> retry (snd (readn fd n got))"
          unfolding eq by simp
        moreover have "take n (stream fd) = take n bs @ take (n - length (take n bs)) (stream ?fd1)"
          "drop n (stream fd) = drop (n - length (take n bs)) (stream ?fd1)"
          using Cons Chunk by (auto simp: min_def)
        ultimately show ?thesis by simp
      qed
    qed
  qed
qed

section \<open>Writing\<close>

text \<open>What the calls of \<open>write\<close> do: accept up to \<open>k\<close> bytes, or fail. A list that ends is a call that blocks.\<close>

datatype wr_event = Accept nat | WrErr int

fun writen :: "wr_event list \<Rightarrow> nat \<Rightarrow> string \<Rightarrow> string \<Rightarrow> (int \<times> string \<times> wr_event list) option" where
  "writen es n [] out = Some (int n, out, es)"
| "writen [] n (c # cs) out = None"
| "writen (Accept k # es) n (c # cs) out =
     (if k = 0 then Some (- 1, out, es) else writen es n (drop k (c # cs)) (out @ take k (c # cs)))"
| "writen (WrErr e # es) n (c # cs) out = (if e = EINTR then writen es n (c # cs) out else Some (- 1, out, es))"

text \<open>
  Every byte is written once and in order: success means the whole buffer went out, and a failure leaves a prefix.
\<close>

lemma writen_result:
  "writen es n ptr out = Some (r, out', es') \<Longrightarrow> (\<exists>k. out' = out @ take k ptr) \<and> (r = int n \<and> out' = out @ ptr \<or> r = - 1)"
proof (induction es n ptr out rule: writen.induct)
  case (3 k es n c cs out)
  show ?case
  proof (cases "k = 0")
    case True
    with 3 show ?thesis by (auto intro: exI [of _ 0])
  next
    case False
    with 3 obtain j where j: "out' = (out @ take k (c # cs)) @ take j (drop k (c # cs))"
      "r = int n \<and> out' = (out @ take k (c # cs)) @ drop k (c # cs) \<or> r = - 1" by auto
    have "out' = out @ take (k + j) (c # cs)" using j(1) by (simp add: take_add)
    moreover have "(out @ take k (c # cs)) @ drop k (c # cs) = out @ c # cs" by (simp only: append_assoc append_take_drop_id)
    ultimately show ?thesis using j(2) by metis
  qed
qed (auto split: if_splits intro: exI [of _ 0])

text \<open>Enough calls that accept at least one byte end the loop.\<close>

definition accepts :: "nat \<Rightarrow> wr_event list \<Rightarrow> bool" where
  "accepts m es \<longleftrightarrow> m \<le> length (filter (\<lambda>e. e \<noteq> WrErr EINTR) es) \<and> (\<forall>e\<in>set es. e = WrErr EINTR \<or> (\<exists>k>0. e = Accept k))"

lemma writen_returns:
  "accepts (length ptr + m) es \<Longrightarrow> \<exists>es'. writen es n ptr out = Some (int n, out @ ptr, es') \<and> accepts m es'"
proof (induction es n ptr out rule: writen.induct)
  case (3 k es n c cs out)
  then have k: "0 < k" by (auto simp: accepts_def)
  have "accepts (length (drop k (c # cs)) + m) es" using 3(2) k by (auto simp: accepts_def)
  then obtain es' where "writen es n (drop k (c # cs)) (out @ take k (c # cs)) = Some (int n, (out @ take k (c # cs)) @ drop k (c # cs), es')"
    "accepts m es'" using 3(1) k by auto
  then show ?case using k by (simp only: writen.simps if_False append_assoc append_take_drop_id) simp
qed (auto simp: accepts_def)

section \<open>Lines\<close>

definition MAXLINE :: nat where "MAXLINE = 4096"

text \<open>
  The loop all three readers share: \<open>get\<close> is the call that delivers one byte, and \<open>eof\<close> the value returned at the
  end of the stream, as a function of the counter \<open>n\<close>. The result is the value returned and the
  bytes stored, which \<open>*ptr = 0\<close> ends unless the value is -1.
\<close>

datatype get_result = GotByte char | GotEof | GotErr

fun readline_loop :: "('s \<Rightarrow> get_result \<times> 's) \<Rightarrow> (nat \<Rightarrow> int) \<Rightarrow> nat \<Rightarrow> nat \<Rightarrow> string \<Rightarrow> 's \<Rightarrow> (int \<times> string) \<times> 's" where
  "readline_loop get eof 0 n got s = ((int n, got), s)"
| "readline_loop get eof (Suc m) n got s =
     (case get s of
        (GotByte c, s1) \<Rightarrow>
          if c = NEWLINE then ((int n, got @ [c]), s1) else readline_loop get eof m (n + 1) (got @ [c]) s1
      | (GotEof, s1) \<Rightarrow> ((eof n, got), s1)
      | (GotErr, s1) \<Rightarrow> ((- 1, got), s1))"

text \<open>\<open>readline.c\<close> of the server: a \<open>read\<close> of one byte, no retry after a signal.\<close>

definition get_byte :: "rdfd \<Rightarrow> get_result \<times> rdfd" where
  "get_byte fd =
     (case sys_read 1 fd of
        (Bytes bs, fd1) \<Rightarrow> (if bs = [] then GotEof else GotByte (hd bs), fd1)
      | (ReadErr e, fd1) \<Rightarrow> (GotErr, fd1))"

definition readline :: "rdfd \<Rightarrow> nat \<Rightarrow> (int \<times> string) \<times> rdfd" where
  "readline fd maxlen = readline_loop get_byte (\<lambda>n. if n = 1 then 0 else int n) (maxlen - 1) 1 [] fd"

text \<open>\<open>readline_r.c\<close>: the descriptor and the bytes of \<open>rl_buf\<close> that are left.\<close>

record rline =
  read_fd :: rdfd
  read_maxlen :: nat
  rl_rest :: string

definition readline_rinit :: "rdfd \<Rightarrow> nat \<Rightarrow> rline" where
  "readline_rinit fd maxlen = \<lparr>read_fd = fd, read_maxlen = maxlen, rl_rest = []\<rparr>"

text \<open>The refill, which calls \<open>read\<close> again after an interruption.\<close>

fun refill :: "rdfd \<Rightarrow> rd_result \<times> rdfd" where
  "refill (RdErr e # es) = (if e = EINTR then refill es else (ReadErr e, es))"
| "refill fd = sys_read MAXLINE fd"

definition my_read_r :: "rline \<Rightarrow> get_result \<times> rline" where
  "my_read_r rptr =
     (case rl_rest rptr of
        c # cs \<Rightarrow> (GotByte c, rptr\<lparr>rl_rest := cs\<rparr>)
      | [] \<Rightarrow>
          (case refill (read_fd rptr) of
             (ReadErr e, fd1) \<Rightarrow> (GotErr, rptr\<lparr>read_fd := fd1\<rparr>)
           | (Bytes bs, fd1) \<Rightarrow>
               (case bs of
                  [] \<Rightarrow> (GotEof, rptr\<lparr>read_fd := fd1\<rparr>)
                | c # cs \<Rightarrow> (GotByte c, rptr\<lparr>read_fd := fd1, rl_rest := cs\<rparr>))))"

definition readline_r :: "rline \<Rightarrow> (int \<times> string) \<times> rline" where
  "readline_r rptr = readline_loop my_read_r (\<lambda>n. if n = 1 then 0 else int n) (read_maxlen rptr - 1) 1 [] rptr"

text \<open>
  \<open>readline\<close> of the library: the same buffering with static variables, but at the end of the stream it returns the number
  of bytes read.
\<close>

definition lib_readline :: "rline \<Rightarrow> (int \<times> string) \<times> rline" where
  "lib_readline rptr = readline_loop my_read_r (\<lambda>n. int n - 1) (read_maxlen rptr - 1) 1 [] rptr"

definition readlinebuf :: "rline \<Rightarrow> nat \<times> string" where
  "readlinebuf rptr = (length (rl_rest rptr), rl_rest rptr)"

section \<open>A source of bytes\<close>

text \<open>The bytes of a line, at most \<open>m\<close>, up to and with the newline.\<close>

fun upto_nl :: "nat \<Rightarrow> string \<Rightarrow> string" where
  "upto_nl 0 s = []"
| "upto_nl (Suc m) [] = []"
| "upto_nl (Suc m) (c # cs) = (if c = NEWLINE then [c] else c # upto_nl m cs)"

definition line_result :: "(nat \<Rightarrow> int) \<Rightarrow> nat \<Rightarrow> nat \<Rightarrow> string \<Rightarrow> int" where
  "line_result eof m n s =
     (let l = upto_nl m s in
      if l \<noteq> [] \<and> last l = NEWLINE then int (n + length l - 1)
      else if length l = m then int (n + m) else eof (n + length l))"

text \<open>
  The contract of the call that delivers one byte: it hands out the content of its state in order, and then the end.
\<close>

locale byte_source =
  fixes get :: "'s \<Rightarrow> get_result \<times> 's" and content :: "'s \<Rightarrow> string" and good :: "'s \<Rightarrow> bool"
  assumes get_byte: "good s \<Longrightarrow> content s = c # cs \<Longrightarrow> \<exists>s1. get s = (GotByte c, s1) \<and> content s1 = cs \<and> good s1"
    and get_eof: "good s \<Longrightarrow> content s = [] \<Longrightarrow> \<exists>s1. get s = (GotEof, s1) \<and> content s1 = [] \<and> good s1"
begin

lemma loop_line:
  "good s \<Longrightarrow> \<exists>s1. readline_loop get eof m n got s = ((line_result eof m n (content s), got @ upto_nl m (content s)), s1) \<and>
    content s1 = drop (length (upto_nl m (content s))) (content s) \<and> good s1"
proof (induction m arbitrary: n got s)
  case 0
  then show ?case by (simp add: line_result_def)
next
  case (Suc m)
  show ?case
  proof (cases "content s")
    case Nil
    with get_eof [OF Suc.prems] show ?thesis by (auto simp: line_result_def)
  next
    case (Cons c cs)
    with get_byte [OF Suc.prems] obtain s1 where s1: "get s = (GotByte c, s1)" "content s1 = cs" "good s1" by blast
    show ?thesis
    proof (cases "c = NEWLINE")
      case True
      with s1 Cons show ?thesis by (simp add: line_result_def)
    next
      case False
      have "line_result eof m (n + 1) cs = line_result eof (Suc m) n (c # cs)"
        using False by (cases "upto_nl m cs") (auto simp: line_result_def Let_def)
      with Suc.IH [OF s1(3), of "n + 1" "got @ [c]"] s1 Cons False show ?thesis by auto
    qed
  qed
qed

end

lemma sys_read_one:
  assumes "quiet fd"
  shows "stream fd = c # cs \<Longrightarrow> \<exists>fd1. sys_read 1 fd = (Bytes [c], fd1) \<and> stream fd1 = cs \<and> quiet fd1"
    "stream fd = [] \<Longrightarrow> fd = []"
proof -
  assume c: "stream fd = c # cs"
  then obtain bs es where fd: "fd = Chunk bs # es" "bs \<noteq> []" "quiet es" using assms by (cases fd rule: stream.cases) auto
  then obtain bs' where "bs = c # bs'" "cs = bs' @ stream es" using c by (cases bs) auto
  with fd show "\<exists>fd1. sys_read 1 fd = (Bytes [c], fd1) \<and> stream fd1 = cs \<and> quiet fd1" by (cases bs') auto
next
  show "stream fd = [] \<Longrightarrow> fd = []" using assms by (cases fd rule: stream.cases) auto
qed

interpretation plain: byte_source get_byte stream quiet
proof
  fix s :: rdfd and c cs
  assume "quiet s"
  show "stream s = c # cs \<Longrightarrow> \<exists>s1. get_byte s = (GotByte c, s1) \<and> stream s1 = cs \<and> quiet s1"
    using sys_read_one(1) [OF \<open>quiet s\<close>] by (auto simp: get_byte_def)
  show "stream s = [] \<Longrightarrow> \<exists>s1. get_byte s = (GotEof, s1) \<and> stream s1 = [] \<and> quiet s1"
    using sys_read_one(2) [OF \<open>quiet s\<close>] by (auto simp: get_byte_def)
qed

definition rline_content :: "rline \<Rightarrow> string" where
  "rline_content r = rl_rest r @ stream (read_fd r)"

definition rline_good :: "rline \<Rightarrow> bool" where
  "rline_good r \<longleftrightarrow> retry (read_fd r)"

lemma refill_stream:
  "retry fd \<Longrightarrow> \<exists>bs fd1. refill fd = (Bytes bs, fd1) \<and> bs @ stream fd1 = stream fd \<and> retry fd1 \<and> (bs = [] \<longrightarrow> stream fd = [])"
  by (induction fd rule: refill.induct) (auto simp: MAXLINE_def)

interpretation buffered: byte_source my_read_r rline_content rline_good
proof
  fix r :: rline and c cs
  assume g: "rline_good r"
  show "rline_content r = c # cs \<Longrightarrow> \<exists>s1. my_read_r r = (GotByte c, s1) \<and> rline_content s1 = cs \<and> rline_good s1"
    using g refill_stream [of "read_fd r"]
    by (cases "rl_rest r") (auto simp: my_read_r_def rline_content_def rline_good_def split: list.splits)
  show "rline_content r = [] \<Longrightarrow> \<exists>s1. my_read_r r = (GotEof, s1) \<and> rline_content s1 = [] \<and> rline_good s1"
    using g refill_stream [of "read_fd r"]
    by (cases "rl_rest r") (auto simp: my_read_r_def rline_content_def rline_good_def)
qed

lemma my_read_r_maxlen: "read_maxlen (snd (my_read_r r)) = read_maxlen r"
  by (auto simp: my_read_r_def split: list.splits prod.splits rd_result.splits)

lemma readline_loop_r_maxlen: "read_maxlen (snd (readline_loop my_read_r eof m n got r)) = read_maxlen r"
proof (induction m arbitrary: n got r)
  case (Suc m)
  show ?case using Suc [where r = "snd (my_read_r r)"] my_read_r_maxlen [of r]
    by (cases "my_read_r r"; cases "fst (my_read_r r)") auto
qed simp

lemma readline_r_maxlen: "read_maxlen (snd (readline_r r)) = read_maxlen r"
  by (simp add: readline_r_def readline_loop_r_maxlen)

section \<open>The request loop of the server\<close>

definition MAXN :: nat where "MAXN = 16384"

text \<open>The conversion of a \<open>long\<close> to an \<open>int\<close>.\<close>

definition to_int32 :: "int \<Rightarrow> int" where
  "to_int32 v = (v + 2 ^ 31) mod 2 ^ 32 - 2 ^ 31"

definition atoi :: "string \<Rightarrow> int" where
  "atoi s = to_int32 (atol s)"

text \<open>
  The loop of both versions of \<open>web_child\<close>, with the line reader they call; \<open>result\<close> is the buffer they send, \<open>out\<close>
  what has been sent.
\<close>

partial_function (option) web_loop ::
  "('s \<Rightarrow> (int \<times> string) \<times> 's) \<Rightarrow> string \<Rightarrow> 's \<Rightarrow> wr_event list \<Rightarrow> string \<Rightarrow> string outcome option" where
  "web_loop rl result s es out =
     (case rl s of
        ((nread, line), s1) \<Rightarrow>
          if nread = - 1 then Some (Dies ''readline error'')
          else if nread = 0 then Some (Returns out)
          else
            let ntowrite = to_int32 (atol (cstr line)) in
            if ntowrite \<le> 0 \<or> ntowrite > int MAXN then Some (Dies ''client request'')
            else case writen es (nat ntowrite) (take (nat ntowrite) result) out of
                   None \<Rightarrow> None
                 | Some (r, out1, es1) \<Rightarrow>
                     if r \<noteq> ntowrite then Some (Dies ''writen error'') else web_loop rl result s1 es1 out1)"

definition web_child :: "string \<Rightarrow> rdfd \<Rightarrow> wr_event list \<Rightarrow> string outcome option" where
  "web_child result sockfd es = web_loop (\<lambda>fd. readline fd MAXLINE) result sockfd es []"

definition web_child_r :: "string \<Rightarrow> rdfd \<Rightarrow> wr_event list \<Rightarrow> string outcome option" where
  "web_child_r result sockfd es = web_loop readline_r result (readline_rinit sockfd MAXLINE) es []"

definition request :: "nat \<Rightarrow> string" where
  "request k = dec k @ [NEWLINE]"

lemma upto_nl_line: "NEWLINE \<notin> set u \<Longrightarrow> length u < m \<Longrightarrow> upto_nl m (u @ NEWLINE # r) = u @ [NEWLINE]"
proof (induction u arbitrary: m)
  case Nil
  then show ?case by (cases m) auto
next
  case (Cons c u)
  then show ?case by (cases m) auto
qed

text \<open>What both readers do on a request, and at the end of the stream.\<close>

abbreviation serv_eof :: "nat \<Rightarrow> int" where
  "serv_eof \<equiv> \<lambda>n. if n = 1 then 0 else int n"

lemma request_line:
  assumes "k \<le> MAXN"
  shows "upto_nl (MAXLINE - 1) (request k @ r) = request k"
    "line_result serv_eof (MAXLINE - 1) 1 (request k @ r) = int (length (request k))"
    "to_int32 (atol (cstr (request k))) = int k" "request k \<noteq> []"
proof -
  have "length (dec k) \<le> 5" using length_dec [of 5 k] assms by (simp add: MAXN_def)
  then show u: "upto_nl (MAXLINE - 1) (request k @ r) = request k"
    using upto_nl_line [of "dec k" "MAXLINE - 1" r] by (simp add: request_def MAXLINE_def)
  then show "line_result serv_eof (MAXLINE - 1) 1 (request k @ r) = int (length (request k))"
    by (simp add: line_result_def Let_def) (simp add: request_def)
  have "cstr (request k) = request k" by (rule cstr_id) (simp add: request_def)
  moreover have "atol (request k) = int k" unfolding request_def by (rule atol_dec_append) (simp add: isdigit_def)
  ultimately show "to_int32 (atol (cstr (request k))) = int k" using assms by (simp add: to_int32_def MAXN_def)
  show "request k \<noteq> []" by (simp add: request_def)
qed

lemma end_line: "line_result serv_eof (MAXLINE - 1) 1 [] = 0"
  by (simp add: line_result_def MAXLINE_def eval_nat_numeral)

lemma web_loop_serves:
  assumes rl: "\<And>s. good s \<Longrightarrow> \<exists>s1. rl s = ((line_result serv_eof (MAXLINE - 1) 1 (content s), upto_nl (MAXLINE - 1) (content s)), s1) \<and>
      content s1 = drop (length (upto_nl (MAXLINE - 1) (content s))) (content s) \<and> good s1"
    and "good s" "content s = concat (map request ks)" "list_all (\<lambda>k. 1 \<le> k \<and> k \<le> MAXN) ks"
    "length result = MAXN" "accepts (sum_list ks) es"
  shows "web_loop rl result s es out = Some (Returns (out @ concat (map (\<lambda>k. take k result) ks)))"
  using assms(2-)
proof (induction ks arbitrary: s es out)
  case Nil
  with rl [of s] end_line show ?case by (subst web_loop.simps) auto
next
  case (Cons k ks)
  have k: "1 \<le> k" "k \<le> MAXN" using Cons.prems by auto
  have s: "content s = request k @ concat (map request ks)" using Cons.prems by simp
  from rl [OF Cons.prems(1)] request_line(1,2) [OF k(2)] obtain s1 where
    s1: "rl s = ((int (length (request k)), request k), s1)" "content s1 = concat (map request ks)" "good s1"
    unfolding s by auto
  have "length (take k result) = k" using Cons.prems(4) k by simp
  then obtain es' where w: "writen es k (take k result) out = Some (int k, out @ take k result, es')" "accepts (sum_list ks) es'"
    using writen_returns [of "take k result" "sum_list ks" es k out] Cons.prems(5) by auto
  have "web_loop rl result s es out = web_loop rl result s1 es' (out @ take k result)"
    using s1(1) w(1) k request_line(3,4) [OF k(2)] by (subst web_loop.simps) (auto simp: Let_def)
  with Cons.IH [OF s1(3,2) _ Cons.prems(4) w(2)] Cons.prems(3) show ?case by simp
qed

lemma web_child_returns:
  assumes "quiet fd" "stream fd = concat (map request ks)" "list_all (\<lambda>k. 1 \<le> k \<and> k \<le> MAXN) ks"
    "length result = MAXN" "accepts (sum_list ks) es"
  shows "web_child result fd es = Some (Returns (concat (map (\<lambda>k. take k result) ks)))"
  unfolding web_child_def
proof (rule web_loop_serves [where good = quiet and content = stream and out = "[]", simplified append_Nil])
  show "\<exists>s1. readline s MAXLINE = ((line_result serv_eof (MAXLINE - 1) 1 (stream s), upto_nl (MAXLINE - 1) (stream s)), s1) \<and>
      stream s1 = drop (length (upto_nl (MAXLINE - 1) (stream s))) (stream s) \<and> quiet s1" if "quiet s" for s
    using plain.loop_line [OF that, of serv_eof "MAXLINE - 1" 1 "[]"] by (simp add: readline_def)
qed (use assms in auto)

lemma web_child_r_returns:
  assumes "quiet fd" "stream fd = concat (map request ks)" "list_all (\<lambda>k. 1 \<le> k \<and> k \<le> MAXN) ks"
    "length result = MAXN" "accepts (sum_list ks) es"
  shows "web_child_r result fd es = Some (Returns (concat (map (\<lambda>k. take k result) ks)))"
  unfolding web_child_r_def
proof (rule web_loop_serves [where good = "\<lambda>s. rline_good s \<and> read_maxlen s = MAXLINE" and content = rline_content and out = "[]", simplified append_Nil])
  show "\<exists>s1. readline_r s = ((line_result serv_eof (MAXLINE - 1) 1 (rline_content s), upto_nl (MAXLINE - 1) (rline_content s)), s1) \<and>
      rline_content s1 = drop (length (upto_nl (MAXLINE - 1) (rline_content s))) (rline_content s) \<and> rline_good s1 \<and> read_maxlen s1 = MAXLINE"
    if "rline_good s \<and> read_maxlen s = MAXLINE" for s
    using buffered.loop_line [of s serv_eof "MAXLINE - 1" 1 "[]"] that readline_r_maxlen [of s] by (auto simp: readline_r_def)
qed (use assms in \<open>auto simp: rline_good_def rline_content_def readline_rinit_def retry_def quiet_def split: rd_event.splits\<close>)

section \<open>Properties\<close>

text \<open>
  \<open>readn\<close> ends and returns exactly the bytes asked for, or all there are before the end of the stream,
  however they are split over calls of \<open>read\<close> and whatever calls are interrupted; the rest stays in the
  stream.
\<close>

theorem readn_correct:
  assumes "retry fd"
  shows "fst (readn fd n []) = (int (min n (length (stream fd))), take n (stream fd)) \<and> stream (snd (readn fd n [])) = drop n (stream fd)"
  using readn_stream [OF assms, of n "[]"] by (simp add: min.commute)

theorem readn_correct_witness:
  "fst (readn [Chunk ''ab'', RdErr EINTR, Chunk ''cde''] 4 []) = (4, ''abcd'')"
  using readn_correct [of "[Chunk ''ab'', RdErr EINTR, Chunk ''cde'']" 4] by simp

text \<open>
  C27. The reentrant, buffered line reader returns the same value and the same line as the reader with one \<open>read\<close> per
  byte, whatever is left in its buffer and however the bytes arrive; it also survives interruptions.
\<close>

theorem readline_r_equals_readline:
  assumes "quiet fd" "rline_good r" "rline_content r = stream fd" "read_maxlen r = maxlen"
  shows "fst (readline_r r) = fst (readline fd maxlen) \<and> rline_content (snd (readline_r r)) = stream (snd (readline fd maxlen))"
proof -
  obtain s1 s2 where
    "readline fd maxlen = ((line_result serv_eof (maxlen - 1) 1 (stream fd), upto_nl (maxlen - 1) (stream fd)), s1)"
    "stream s1 = drop (length (upto_nl (maxlen - 1) (stream fd))) (stream fd)"
    "readline_r r = ((line_result serv_eof (maxlen - 1) 1 (stream fd), upto_nl (maxlen - 1) (stream fd)), s2)"
    "rline_content s2 = drop (length (upto_nl (maxlen - 1) (stream fd))) (stream fd)"
    using plain.loop_line [OF assms(1), of serv_eof "maxlen - 1" 1 "[]"] buffered.loop_line [OF assms(2), of serv_eof "maxlen - 1" 1 "[]"] assms(3,4)
    by (auto simp: readline_def readline_r_def)
  then show ?thesis by simp
qed

theorem readline_r_equals_readline_witness:
  "fst (readline_r (readline_rinit [RdErr EINTR, Chunk [CHR ''a'', NEWLINE]] 10)) = fst (readline [Chunk [CHR ''a''], Chunk [NEWLINE]] 10)"
  using readline_r_equals_readline [of "[Chunk [CHR ''a''], Chunk [NEWLINE]]" "readline_rinit [RdErr EINTR, Chunk [CHR ''a'', NEWLINE]] 10" 10]
  by (simp add: rline_good_def rline_content_def readline_rinit_def)

text \<open>
  At the end of a stream without a final newline the server's line reader returns one more than the number of
  bytes it stored, where the library's returns that number.
\<close>

theorem readline_eof_count:
  assumes "quiet fd" "stream fd \<noteq> []" "NEWLINE \<notin> set (stream fd)" "length (stream fd) + 1 < maxlen"
  shows "fst (readline fd maxlen) = (int (length (stream fd)) + 1, stream fd) \<and>
    fst (lib_readline (readline_rinit fd maxlen)) = (int (length (stream fd)), stream fd)"
proof -
  have u: "upto_nl m s = s" if "NEWLINE \<notin> set s" "length s \<le> m" for m s
    using that by (induction m s rule: upto_nl.induct) auto
  have l: "last (stream fd) \<noteq> NEWLINE" using assms(2,3) last_in_set by metis
  have r: "rline_good (readline_rinit fd maxlen)" "rline_content (readline_rinit fd maxlen) = stream fd"
    using assms(1) by (auto simp: rline_good_def rline_content_def readline_rinit_def retry_def quiet_def split: rd_event.splits)
  have n: "length (stream fd) \<noteq> maxlen - 1" "1 + length (stream fd) \<noteq> 1" using assms(2,4) by auto
  have res: "line_result eof (maxlen - 1) 1 (stream fd) = eof (1 + length (stream fd))" for eof
    using u [OF assms(3), of "maxlen - 1"] assms(4) l n by (simp add: line_result_def Let_def)
  show ?thesis
    using plain.loop_line [OF assms(1), of serv_eof "maxlen - 1" 1 "[]"] buffered.loop_line [OF r(1), of "\<lambda>n. int n - 1" "maxlen - 1" 1 "[]"]
      u [OF assms(3), of "maxlen - 1"] assms(4) n(2) r(2)
    by (auto simp: readline_def lib_readline_def res [unfolded One_nat_def] readline_rinit_def)
qed

theorem readline_eof_count_witness:
  "fst (readline [Chunk ''ab''] 10) = (3, ''ab'') \<and> fst (lib_readline (readline_rinit [Chunk ''ab''] 10)) = (2, ''ab'')"
  using readline_eof_count [of "[Chunk ''ab'']" 10] by simp

text \<open>
  C7. The server answers a connection: for every sequence of well-formed requests, however the bytes arrive and however the
  socket takes the replies, both versions of \<open>web_child\<close> send for each request the number of bytes it asks for, in
  order, and return at the end of the stream.
\<close>

theorem web_child_serves:
  assumes "quiet fd" "stream fd = concat (map request ks)" "list_all (\<lambda>k. 1 \<le> k \<and> k \<le> MAXN) ks"
    "length result = MAXN" "accepts (sum_list ks) es"
  shows "web_child result fd es = Some (Returns (concat (map (\<lambda>k. take k result) ks))) \<and>
    web_child_r result fd es = Some (Returns (concat (map (\<lambda>k. take k result) ks)))"
  using web_child_returns [OF assms] web_child_r_returns [OF assms] by simp

theorem web_child_serves_witness:
  "\<exists>out. web_child (replicate MAXN CHR ''x'') [Chunk (request 1), Chunk (request 2)] [Accept 1, WrErr EINTR, Accept 5, Accept 9] = Some (Returns out) \<and>
    length out = 3"
proof -
  have "web_child (replicate MAXN CHR ''x'') [Chunk (request 1), Chunk (request 2)] [Accept 1, WrErr EINTR, Accept 5, Accept 9] =
      Some (Returns (concat (map (\<lambda>k. take k (replicate MAXN CHR ''x'')) [1, 2])))"
    by (rule web_child_serves [THEN conjunct1]) (simp_all add: request_def MAXN_def accepts_def)
  then show ?thesis by (simp add: MAXN_def)
qed

end
