(* ===== verification/Trace_Main.thy ===== *)
theory Trace_Main
  imports Traceroute Netio
begin

text \<open>
  The main function of the traceroute (\<open>person/traceroute/main.c\<close>): its options, the address of the host, and the call
  of \<open>traceloop\<close>. \<open>getopt\<close> is that of the C library, which moves the arguments that are no options to the end;
  \<open>getaddrinfo\<close> is a parameter.
\<close>

section \<open>Options\<close>

datatype trace_opt = OptV | OptM string | OptUnknown

text \<open>
  All that \<open>getopt\<close> returns for the option string \<open>m:v\<close>, and the arguments that are left. The first list is the rest of a
  group of options that has been begun.
\<close>

function getopt :: "string \<Rightarrow> string list \<Rightarrow> trace_opt list \<times> string list" where
  "getopt (c # cs) as =
     (if c = CHR ''v'' then apfst ((#) OptV) (getopt cs as)
      else if c = CHR ''m''
      then (if cs \<noteq> [] then apfst ((#) (OptM cs)) (getopt [] as)
            else case as of [] \<Rightarrow> ([OptUnknown], []) | a # as1 \<Rightarrow> apfst ((#) (OptM a)) (getopt [] as1))
      else apfst ((#) OptUnknown) (getopt cs as))"
| "getopt [] [] = ([], [])"
| "getopt [] (a # as) =
     (if a = ''--'' then ([], as)
      else if 2 \<le> length a \<and> hd a = CHR ''-'' then getopt (tl a) as
      else apsnd ((#) a) (getopt [] as))"
  by pat_completeness auto
termination
  by (relation "measure (\<lambda>(cs, as). length cs + sum_list (map (\<lambda>a. length a + 1) as))") auto

text \<open>The loop over the options, with \<open>hops_max\<close> and \<open>verbose\<close>.\<close>

fun trace_options :: "trace_opt list \<Rightarrow> int \<Rightarrow> nat \<Rightarrow> (int \<times> nat) outcome" where
  "trace_options [] hops_max verbose = Returns (hops_max, verbose)"
| "trace_options (OptV # os) hops_max verbose = trace_options os hops_max (verbose + 1)"
| "trace_options (OptM s # os) hops_max verbose = trace_options os (atoi s) verbose"
| "trace_options (OptUnknown # os) hops_max verbose = Dies ''unrecognized option''"

section \<open>The main function\<close>

datatype address = AF_INET "nat list" | AF_INET6 "nat list" | AF_OTHER int

text \<open>
  The global variables at the start. \<open>pkt\<close> is a local variable of \<open>traceloop\<close> that is not initialised: \<open>stack\<close> is
  what is found in it.
\<close>

definition status_init :: "nat \<Rightarrow> trace_status" where
  "status_init p =
     \<lparr>pid = p mod 2 ^ 16, hops_time = 1, gotalarm = False, sendtv = (0, 0), recvtv = (0, 0), sendbuf = replicate BUFSIZE 0,
      sendpkt_len = 78, recvbuf = replicate BUFSIZE 0, buflen = BUFSIZE, flags_echo = False\<rparr>"

definition trace_init :: "nat \<Rightarrow> nat list \<Rightarrow> trace \<Rightarrow> trace" where
  "trace_init p addr stack =
     stack\<lparr>status := status_init p, icmpproto := IPPROTO_ICMP, sasend := addr, sent := [], printed := []\<rparr>"

text \<open>
  The line that announces the trace: the canonical name or the one given, the address, the hops and the length of a probe.
  \<open>hops_max\<close> is printed as it is, a negative number included.
\<close>

record trace_head =
  head_name :: string
  head_addr :: string
  head_hops :: int
  head_len :: nat

text \<open>
  \<open>lookup\<close> is the first result of \<open>getaddrinfo\<close> with the canonical name, \<open>p\<close> the process number, \<open>sock\<close> and \<open>opt\<close> the
  results of the calls in \<open>traceloop\<close>, and \<open>sa\<close> the local address. A negative number of hops makes no round of the loop.
\<close>

definition trace_main ::
  "(string \<Rightarrow> (string option \<times> address) option) \<Rightarrow> nat \<Rightarrow> bool \<Rightarrow> bool \<Rightarrow> nat list \<Rightarrow> trace \<Rightarrow> string list \<Rightarrow>
   (trace_head \<times> trace) outcome option" where
  "trace_main lookup p sock opt sa stack argv =
     (case getopt [] (tl argv) of
        (os, rest) \<Rightarrow>
          (case trace_options os 15 0 of
             Dies m \<Rightarrow> Some (Dies m)
           | Returns (hops_max, verbose) \<Rightarrow>
               if length rest \<noteq> 1 then Some (Dies ''usage'')
               else case lookup (hd rest) of
                      None \<Rightarrow> Some (Dies ''getaddrinfo error'')
                    | Some (canon, AF_INET6 a) \<Rightarrow> Some (Dies ''dont accept AF_INET6'')
                    | Some (canon, AF_OTHER f) \<Rightarrow> Some (Dies ''inet_ntop: unknown AF_xxx'')
                    | Some (canon, AF_INET a) \<Rightarrow>
                        (case inet_ntop4 a 128 of
                           Errno e \<Rightarrow> Some (Dies ''inet_ntop error'')
                         | Text str \<Rightarrow>
                             map_option (\<lambda>r. bind_outcome r (\<lambda>t.
                               Returns (\<lparr>head_name = (case canon of Some c \<Rightarrow> c | None \<Rightarrow> hd rest), head_addr = str,
                                         head_hops = hops_max, head_len = 78\<rparr>, t)))
                               (traceloop sock opt sa (nat hops_max) (trace_init p a stack)))))"

section \<open>Properties\<close>

text \<open>Arguments that are no options are left as they are.\<close>

lemma getopt_plain:
  "list_all (\<lambda>a. length a < 2 \<or> hd a \<noteq> CHR ''-'') as \<Longrightarrow> getopt [] as = ([], as)"
  by (induction as) auto

lemma inet_ntop4_128: "length a = 4 \<Longrightarrow> list_all (\<lambda>b. b \<le> 255) a \<Longrightarrow> inet_ntop4 a 128 = Text (octets_text a)"
proof -
  assume a: "length a = 4" "list_all (\<lambda>b. b \<le> 255) a"
  have d: "length (dec b) \<le> 3" if "b \<le> 255" for b using length_dec [of 3 b] that by simp
  obtain w x y z where e: "a = [w, x, y, z]" using a(1) by (auto simp: numeral_eq_Suc length_Suc_conv)
  then show ?thesis using a(2) d [of w] d [of x] d [of y] d [of z] by (simp add: inet_ntop4_def Let_def)
qed

lemma trace_init_ok:
  assumes "length a = 4" "length sa = 4" "length (icmp_rest (send_icmp stack)) = 20" "list_all (\<lambda>b. b \<le> 255) (icmp_rest (send_icmp stack))"
  shows "trace_ok ((trace_init p a stack)\<lparr>sabind := sa\<rparr>)"
  using assms by (simp add: trace_ok_def trace_init_def status_init_def BUFSIZE_def)



end
