(* ===== verification/Clifd_Ring.thy ===== *)
theory Clifd_Ring
  imports Fifo
begin

text \<open>
  The prethreaded server of \<open>person/client_server\<close> in which the main thread accepts connections and hands them to a
  pool of threads through the ring \<open>clifd\<close> (\<open>serv08.c\<close>, \<open>pthread08.c\<close>, \<open>pthread08.h\<close>). The ring is shown to be a first-in
  first-out queue of 31 descriptors. The server is a system of threads in which each section under the mutex is
  one step; \<open>Pthread_cond_signal\<close> wakes one waiting thread, if there is one.
\<close>

section \<open>The ring\<close>

definition MAXNCLI :: nat where "MAXNCLI = 32"

record ring =
  clifd :: "nat list"
  iget :: nat
  iput :: nat

definition ring_next :: "nat \<Rightarrow> nat" where
  "ring_next i = (if i + 1 = MAXNCLI then 0 else i + 1)"

text \<open>The main thread's section: the descriptor is stored before the ring is found to be full.\<close>

definition clifd_put :: "nat \<Rightarrow> ring \<Rightarrow> ring" where
  "clifd_put connfd r = r\<lparr>clifd := (clifd r)[iput r := connfd], iput := ring_next (iput r)\<rparr>"

definition serv08_accept :: "nat \<Rightarrow> ring \<Rightarrow> ring outcome" where
  "serv08_accept connfd r =
     (let r1 = clifd_put connfd r in if iput r1 = iget r1 then Dies ''iput = iget'' else Returns r1)"

text \<open>The section of \<open>thread_main\<close>; \<open>None\<close> waits on the condition variable.\<close>

definition thread_get :: "ring \<Rightarrow> (nat \<times> ring) option" where
  "thread_get r = (if iget r = iput r then None else Some (clifd r ! iget r, r\<lparr>iget := ring_next (iget r)\<rparr>))"

definition ring_inv :: "ring \<Rightarrow> bool" where
  "ring_inv r \<longleftrightarrow> length (clifd r) = 32 \<and> iget r < 32 \<and> iput r < 32"

text \<open>The number of queued descriptors and the descriptors, the oldest first.\<close>

definition ring_count :: "ring \<Rightarrow> nat" where
  "ring_count r = (if iget r \<le> iput r then iput r - iget r else iput r + 32 - iget r)"

definition slot :: "nat \<Rightarrow> nat \<Rightarrow> nat" where
  "slot i k = (if i + k < 32 then i + k else i + k - 32)"

definition ring_elems :: "ring \<Rightarrow> nat list" where
  "ring_elems r = map (\<lambda>k. clifd r ! slot (iget r) k) [0..<ring_count r]"

definition ring_room :: "nat \<Rightarrow> ring \<Rightarrow> bool" where
  "ring_room _ r \<longleftrightarrow> ring_count r < 31"

lemmas ring_defs = ring_inv_def ring_count_def slot_def ring_next_def MAXNCLI_def

lemma ring_count_less: "ring_inv r \<Longrightarrow> ring_count r < 32"
  by (auto simp: ring_defs)

lemma ring_index: "ring_inv r \<Longrightarrow> slot (iget r) (ring_count r) = iput r"
  by (auto simp: ring_defs)

lemma ring_slot_old: "ring_inv r \<Longrightarrow> k < ring_count r \<Longrightarrow> slot (iget r) k \<noteq> iput r"
  by (auto simp: ring_defs split: if_splits)

lemma ring_put_count: "ring_inv r \<Longrightarrow> ring_count (clifd_put x r) = (if ring_count r = 31 then 0 else ring_count r + 1)"
  by (auto simp: ring_defs clifd_put_def split: if_splits)

lemma ring_get_count:
  "ring_inv r \<Longrightarrow> iget r \<noteq> iput r \<Longrightarrow> ring_count r = Suc (ring_count (r\<lparr>iget := ring_next (iget r)\<rparr>))"
  by (auto simp: ring_defs split: if_splits)

lemma ring_slot_next: "ring_inv r \<Longrightarrow> k < 31 \<Longrightarrow> slot (iget r) (Suc k) = slot (ring_next (iget r)) k"
  by (auto simp: ring_defs split: if_splits)

lemma ring_empty: "ring_inv r \<Longrightarrow> iget r = iput r \<longleftrightarrow> ring_count r = 0"
  by (auto simp: ring_defs split: if_splits)

lemma ring_inv_put: "ring_inv r \<Longrightarrow> ring_inv (clifd_put x r)"
  by (auto simp: ring_defs clifd_put_def)

lemma ring_inv_get: "ring_inv r \<Longrightarrow> ring_inv (r\<lparr>iget := ring_next (iget r)\<rparr>)"
  by (auto simp: ring_defs)

interpretation ring: fifo ring_inv ring_elems ring_room clifd_put thread_get
proof unfold_locales
  fix r :: ring and x
  assume inv: "ring_inv r" and room: "ring_room x r"
  show "ring_inv (clifd_put x r)" by (rule ring_inv_put [OF inv])
  have c: "ring_count (clifd_put x r) = ring_count r + 1" using ring_put_count [OF inv, of x] room by (simp add: ring_room_def)
  have "(clifd r)[iput r := x] ! slot (iget r) k = clifd r ! slot (iget r) k" if "k < ring_count r" for k
    using ring_slot_old [OF inv that] by simp
  moreover have "(clifd r)[iput r := x] ! slot (iget r) (ring_count r) = x" using ring_index [OF inv] inv by (simp add: ring_inv_def)
  ultimately show "ring_elems (clifd_put x r) = ring_elems r @ [x]"
    unfolding ring_elems_def c by (simp add: clifd_put_def)
next
  fix r :: ring
  assume inv: "ring_inv r" and "ring_elems r = []"
  then have "ring_count r = 0" by (simp add: ring_elems_def)
  with ring_empty [OF inv] show "thread_get r = None" by (simp add: thread_get_def)
next
  fix r :: ring and x xs
  assume inv: "ring_inv r" and e: "ring_elems r = x # xs"
  then have ne: "iget r \<noteq> iput r" using ring_empty [OF inv] by (auto simp: ring_elems_def)
  let ?r = "r\<lparr>iget := ring_next (iget r)\<rparr>"
  have cnt: "ring_count r = Suc (ring_count ?r)" by (rule ring_get_count [OF inv ne])
  then have "[0..<ring_count r] = 0 # map Suc [0..<ring_count ?r]" by (simp add: map_Suc_upt upt_conv_Cons)
  moreover have "slot (iget r) (Suc k) = slot (ring_next (iget r)) k" if "k < ring_count ?r" for k
    using ring_slot_next [OF inv, of k] that cnt ring_count_less [OF inv] by simp
  moreover have "slot (iget r) 0 = iget r" using inv by (simp add: ring_defs)
  ultimately have "ring_elems r = clifd r ! iget r # ring_elems ?r" by (simp add: ring_elems_def)
  then show "\<exists>q'. thread_get r = Some (x, q') \<and> ring_inv q' \<and> ring_elems q' = xs"
    using e ne ring_inv_get [OF inv] by (auto simp: thread_get_def)
qed

section \<open>The server\<close>

datatype tpc = Ready | Waiting | Woken | Serving nat

record server =
  ring :: ring
  threads :: "tpc list"
  accepted :: "nat list"
  taken :: "nat list"

text \<open>
  \<open>Accept fd w\<close>: the main thread accepts a connection and the signal wakes thread \<open>w\<close>. \<open>Run i\<close>: thread \<open>i\<close> enters the section
  under the mutex, at the start of its loop or after a wake-up. \<open>Done i\<close>: \<open>web_child\<close> has returned.
\<close>

datatype serv_event = Accept nat "nat option" | Run nat | Done nat

definition signal :: "nat option \<Rightarrow> tpc list \<Rightarrow> tpc list option" where
  "signal w ts =
     (case w of
        None \<Rightarrow> if Waiting \<in> set ts then None else Some ts
      | Some j \<Rightarrow> if j < length ts \<and> ts ! j = Waiting then Some (ts[j := Woken]) else None)"

fun serv_exec :: "server \<Rightarrow> serv_event \<Rightarrow> server option" where
  "serv_exec s (Accept fd w) =
     (case serv08_accept fd (ring s) of
        Dies _ \<Rightarrow> None
      | Returns r \<Rightarrow>
          (case signal w (threads s) of
             None \<Rightarrow> None
           | Some ts \<Rightarrow> Some (s\<lparr>ring := r, threads := ts, accepted := accepted s @ [fd]\<rparr>)))"
| "serv_exec s (Run i) =
     (if i < length (threads s) \<and> (threads s ! i = Ready \<or> threads s ! i = Woken)
      then (case thread_get (ring s) of
              None \<Rightarrow> Some (s\<lparr>threads := (threads s)[i := Waiting]\<rparr>)
            | Some (fd, r) \<Rightarrow> Some (s\<lparr>ring := r, threads := (threads s)[i := Serving fd], taken := taken s @ [fd]\<rparr>))
      else None)"
| "serv_exec s (Done i) =
     (if i < length (threads s) \<and> (\<exists>fd \<in> set (taken s). threads s ! i = Serving fd)
      then Some (s\<lparr>threads := (threads s)[i := Ready]\<rparr>) else None)"

definition serv_start :: "nat \<Rightarrow> server" where
  "serv_start n = \<lparr>ring = \<lparr>clifd = replicate 32 0, iget = 0, iput = 0\<rparr>, threads = replicate n Ready, accepted = [], taken = []\<rparr>"

definition serv_inv :: "server \<Rightarrow> bool" where
  "serv_inv s \<longleftrightarrow> ring_inv (ring s) \<and> accepted s = taken s @ ring_elems (ring s) \<and> threads s \<noteq> [] \<and>
     (ring_elems (ring s) \<noteq> [] \<longrightarrow> (\<exists>i < length (threads s). threads s ! i \<noteq> Waiting)) \<and>
     (\<forall>i < length (threads s). \<forall>fd. threads s ! i = Serving fd \<longrightarrow> fd \<in> set (taken s))"

lemma accept_room:
  assumes "ring_inv r"
  shows "serv08_accept fd r = (if ring_count r = 31 then Dies ''iput = iget'' else Returns (clifd_put fd r))"
  using ring_empty [OF ring_inv_put [OF assms, of fd]] ring_put_count [OF assms, of fd]
  by (auto simp: serv08_accept_def Let_def split: if_splits)

lemma serv_inv_exec:
  assumes inv: "serv_inv s" and ex: "serv_exec s e = Some t"
  shows "serv_inv t"
proof (cases e)
  case (Accept fd w)
  have r: "ring_inv (ring s)" using inv by (simp add: serv_inv_def)
  have room: "ring_room fd (ring s)" and t: "\<exists>ts. signal w (threads s) = Some ts \<and> t = s\<lparr>ring := clifd_put fd (ring s), threads := ts, accepted := accepted s @ [fd]\<rparr>"
    using ex Accept accept_room [OF r, of fd] ring_count_less [OF r] by (auto simp: ring_room_def split: option.splits if_splits)
  then obtain ts where ts: "signal w (threads s) = Some ts" "t = s\<lparr>ring := clifd_put fd (ring s), threads := ts, accepted := accepted s @ [fd]\<rparr>" by blast
  have e: "ring_elems (clifd_put fd (ring s)) = ring_elems (ring s) @ [fd]" by (rule ring.put_elems [OF r room])
  have awake: "\<exists>i < length ts. ts ! i \<noteq> Waiting" and same: "length ts = length (threads s)"
    "\<And>i fd'. i < length ts \<Longrightarrow> ts ! i = Serving fd' \<Longrightarrow> threads s ! i = Serving fd'"
    using ts(1) inv by (auto simp: signal_def serv_inv_def in_set_conv_nth nth_list_update split: option.splits if_splits)
  show ?thesis using inv e awake same ring.put_inv [OF r room] ts(2) by (auto simp: serv_inv_def)
next
  case (Run i)
  have r: "ring_inv (ring s)" using inv by (simp add: serv_inv_def)
  have i: "i < length (threads s)" using ex Run by (auto split: if_splits)
  show ?thesis
  proof (cases "thread_get (ring s)")
    case None
    then have "ring_elems (ring s) = []" using ring.take_elems [OF r] by (cases "ring_elems (ring s)") auto
    with None inv ex Run show ?thesis by (auto simp: serv_inv_def nth_list_update split: if_splits)
  next
    case (Some p)
    then obtain fd q where p: "thread_get (ring s) = Some (fd, q)" by (cases p) auto
    from ring.take_first_Some [OF r p] have "ring_inv q" "ring_elems (ring s) = fd # ring_elems q" by auto
    with p inv ex Run i show ?thesis by (auto simp: serv_inv_def nth_list_update split: if_splits intro!: exI [of _ i])
  qed
next
  case (Done i)
  with inv ex show ?thesis by (auto simp: serv_inv_def nth_list_update split: if_splits)
qed

interpretation serv: event_invariant serv_exec serv_inv
  by unfold_locales (rule serv_inv_exec)

lemma serv_inv_start: "0 < n \<Longrightarrow> serv_inv (serv_start n)"
  by (simp add: serv_inv_def serv_start_def ring_inv_def ring_elems_def ring_count_def)

section \<open>Properties\<close>

text \<open>
  C25. In every run of the server with at least one thread, the descriptors taken by the threads are the accepted ones in the order of
  their acceptance, followed by those still in the ring, so each is served once; and while a descriptor is in the
  ring some thread is awake to take it.
\<close>

theorem clifd_served_in_order:
  assumes "0 < n" "run_events serv_exec (serv_start n) es = Some s"
  shows "accepted s = taken s @ ring_elems (ring s) \<and>
    (ring_elems (ring s) \<noteq> [] \<longrightarrow> (\<exists>i < length (threads s). threads s ! i \<noteq> Waiting))"
  using serv.run_Inv [OF serv_inv_start [OF assms(1)] assms(2)] by (simp add: serv_inv_def)

theorem clifd_served_in_order_witness:
  "\<exists>s. run_events serv_exec (serv_start 1) [Run 0, Accept 7 (Some 0), Accept 8 None, Run 0] = Some s \<and>
    accepted s = taken s @ ring_elems (ring s) \<and> taken s = [7]"
proof -
  have "run_ends serv_exec (serv_start 1) [Run 0, Accept 7 (Some 0), Accept 8 None, Run 0] (\<lambda>s. taken s = [7])" by code_simp
  from run_events_ex [OF this] obtain s where
    s: "run_events serv_exec (serv_start 1) [Run 0, Accept 7 (Some 0), Accept 8 None, Run 0] = Some s" "taken s = [7]" by blast
  with clifd_served_in_order [OF _ s(1)] show ?thesis by simp
qed

text \<open>
  The ring holds 31 descriptors: the next connection ends the server, although one slot of the array is still free.
\<close>

lemma clifd_full: "ring_inv r \<Longrightarrow> serv08_accept fd r = Dies ''iput = iget'' \<longleftrightarrow> length (ring_elems r) = 31"
  by (simp add: accept_room ring_elems_def)

end
