(* ===== verification/Prefork.thy ===== *)
theory Prefork
  imports Prelude
begin

text \<open>
  The preforked server of \<open>person/client_server\<close> in which the parent passes descriptors to its children
  (\<open>serv05.c\<close>, \<open>child05.c\<close>, \<open>child.h\<close>). A round of the parent's loop is one step from the descriptors that \<open>select\<close> reports;
  a child is idle, busy with a connection, or has written its byte to the stream pipe.
\<close>

section \<open>The parent\<close>

record child =
  child_status :: nat
  child_count :: nat

record parent =
  cptr :: "child list"
  navail :: int

text \<open>The first child with status 0; the length of the list if there is none.\<close>

fun find_child :: "child list \<Rightarrow> nat" where
  "find_child [] = 0"
| "find_child (c # cs) = (if child_status c = 0 then 0 else Suc (find_child cs))"

text \<open>A new connection: the child it is passed to.\<close>

definition pass_connection :: "parent \<Rightarrow> (nat \<times> parent) outcome" where
  "pass_connection p =
     (let i = find_child (cptr p) in
      if i = length (cptr p) then Dies ''no available children''
      else Returns (i, p\<lparr>cptr := (cptr p)[i := (cptr p ! i)\<lparr>child_status := 1, child_count := child_count (cptr p ! i) + 1\<rparr>],
                         navail := navail p - 1\<rparr>))"

text \<open>
  The loop over the children from \<open>i\<close> on; \<open>rset\<close> are the pipes \<open>select\<close> reported, \<open>dead\<close> those whose \<open>Read\<close> finds the end
  of the stream, and \<open>nsel\<close> the number of reports left.
\<close>

function reap :: "nat set \<Rightarrow> nat set \<Rightarrow> nat \<Rightarrow> nat \<Rightarrow> parent \<Rightarrow> parent outcome" where
  "reap dead rset nsel i p =
     (if i < length (cptr p)
      then (if i \<in> rset
            then (if i \<in> dead then Dies ''child terminated unexpectedly''
                  else let p1 = p\<lparr>cptr := (cptr p)[i := (cptr p ! i)\<lparr>child_status := 0\<rparr>], navail := navail p + 1\<rparr> in
                       if nsel - 1 = 0 then Returns p1 else reap dead rset (nsel - 1) (i + 1) p1)
            else reap dead rset nsel (i + 1) p)
      else Returns p)"
  by pat_completeness auto
termination by (relation "measure (\<lambda>(_, _, _, i, p). length (cptr p) - i)") auto

declare reap.simps [simp del]

text \<open>
  One round: \<open>listening\<close> and \<open>pipes\<close> are what \<open>select\<close> would report; the listening socket is not in its set while no child
  is available. The result has the child that got a connection.
\<close>

definition serv05_round :: "nat set \<Rightarrow> bool \<Rightarrow> nat set \<Rightarrow> parent \<Rightarrow> (nat option \<times> parent) outcome" where
  "serv05_round dead listening pipes p =
     (let conn = (listening \<and> navail p > 0); nsel = card pipes + (if conn then 1 else 0) in
      if conn
      then bind_outcome (pass_connection p) (\<lambda>(i, p1).
             if nsel - 1 = 0 then Returns (Some i, p1)
             else bind_outcome (reap dead pipes (nsel - 1) 0 p1) (\<lambda>p2. Returns (Some i, p2)))
      else bind_outcome (reap dead pipes nsel 0 p) (\<lambda>p2. Returns (None, p2)))"

section \<open>Parent and children\<close>

datatype cpc = Idle | Busy | Written

record prefork =
  parent :: parent
  kids :: "cpc list"

datatype pf_event = Round bool "nat list" | Finish nat

text \<open>
  \<open>select\<close> reports pipes of children that have written. A child that gets a connection is blocked in \<open>read_fd\<close>; giving one to a
  child that is not would be lost, which is the outcome \<open>None\<close> of the event.
\<close>

fun pf_exec :: "prefork \<Rightarrow> pf_event \<Rightarrow> prefork option" where
  "pf_exec s (Round listening pipes) =
     (if \<forall>i\<in>set pipes. i < length (kids s) \<and> kids s ! i = Written
      then (case serv05_round {} listening (set pipes) (parent s) of
              Dies _ \<Rightarrow> None
            | Returns (conn, p) \<Rightarrow>
                let served = map (\<lambda>i. if i \<in> set pipes then Idle else kids s ! i) [0..<length (kids s)] in
                Some (s\<lparr>parent := p, kids := (case conn of None \<Rightarrow> served | Some i \<Rightarrow> served[i := Busy])\<rparr>))
      else None)"
| "pf_exec s (Finish i) =
     (if i < length (kids s) \<and> kids s ! i = Busy then Some (s\<lparr>kids := (kids s)[i := Written]\<rparr>) else None)"

definition pf_start :: "nat \<Rightarrow> prefork" where
  "pf_start n = \<lparr>parent = \<lparr>cptr = replicate n \<lparr>child_status = 0, child_count = 0\<rparr>, navail = int n\<rparr>, kids = replicate n Idle\<rparr>"

definition pf_inv :: "prefork \<Rightarrow> bool" where
  "pf_inv s \<longleftrightarrow> length (cptr (parent s)) = length (kids s) \<and>
     (\<forall>i < length (kids s). child_status (cptr (parent s) ! i) = 0 \<longleftrightarrow> kids s ! i = Idle) \<and>
     navail (parent s) = icount (\<lambda>c. child_status c = 0) (cptr (parent s))"

section \<open>The rounds\<close>

lemma find_child_first:
  "find_child cs \<le> length cs"
  "find_child cs < length cs \<Longrightarrow> child_status (cs ! find_child cs) = 0"
  "\<exists>c\<in>set cs. child_status c = 0 \<Longrightarrow> find_child cs < length cs"
  by (induction cs) auto

text \<open>What \<open>reap\<close> does when \<open>select\<close> reported pipes of busy children: all of them become available.\<close>

definition counted :: "parent \<Rightarrow> bool" where
  "counted p \<longleftrightarrow> navail p = icount (\<lambda>c. child_status c = 0) (cptr p)"

lemma reap_step:
  assumes "counted p" "i < length (cptr p)" "child_status (cptr p ! i) \<noteq> 0"
  shows "counted (p\<lparr>cptr := (cptr p)[i := (cptr p ! i)\<lparr>child_status := 0\<rparr>], navail := navail p + 1\<rparr>)"
  using assms by (simp add: counted_def)

lemma reap_all:
  assumes "counted p" "rset \<subseteq> {..<length (cptr p)}" "card (rset \<inter> {i..}) = nsel"
    "\<And>j. j \<in> rset \<Longrightarrow> i \<le> j \<Longrightarrow> child_status (cptr p ! j) \<noteq> 0"
  shows "\<exists>q. reap {} rset nsel i p = Returns q \<and> counted q \<and> length (cptr q) = length (cptr p) \<and>
    (\<forall>j < length (cptr p). child_status (cptr q ! j) = (if j \<in> rset \<and> i \<le> j then 0 else child_status (cptr p ! j)))"
  using assms
proof (induction "length (cptr p) - i" arbitrary: nsel i p)
  case 0
  then have "reap {} rset nsel i p = Returns p" by (subst reap.simps) simp
  with 0 show ?case by auto
next
  case (Suc k)
  have fin: "finite rset" using Suc.prems(2) finite_subset by blast
  have i: "i < length (cptr p)" using Suc.hyps(2) by simp
  have next_le: "i + 1 \<le> j \<longleftrightarrow> i \<le> j \<and> j \<noteq> i" for j by auto
  show ?case
  proof (cases "i \<in> rset")
    case False
    have eq: "reap {} rset nsel i p = reap {} rset nsel (i + 1) p" using i False by (subst reap.simps) simp
    have "rset \<inter> {i..} = rset \<inter> {i + 1..}" using False by (auto simp: Suc_le_eq order_le_less)
    then have "\<exists>q. reap {} rset nsel (i + 1) p = Returns q \<and> counted q \<and> length (cptr q) = length (cptr p) \<and>
        (\<forall>j < length (cptr p). child_status (cptr q ! j) = (if j \<in> rset \<and> i + 1 \<le> j then 0 else child_status (cptr p ! j)))"
      by (intro Suc.hyps(1)) (use Suc.hyps(2) Suc.prems in auto)
    then show ?thesis unfolding eq next_le using False by auto
  next
    case True
    let ?p1 = "p\<lparr>cptr := (cptr p)[i := (cptr p ! i)\<lparr>child_status := 0\<rparr>], navail := navail p + 1\<rparr>"
    have c1: "counted ?p1" by (rule reap_step [OF Suc.prems(1) i]) (use Suc.prems(4) True in auto)
    have split: "rset \<inter> {i..} = insert i (rset \<inter> {i + 1..})" using True by (auto simp: Suc_le_eq order_le_less)
    then have n: "nsel = Suc (card (rset \<inter> {i + 1..}))" using Suc.prems(3) fin by simp
    have st: "child_status (cptr ?p1 ! j) = (if j = i then 0 else child_status (cptr p ! j))" if "j < length (cptr p)" for j
      using that by (simp add: nth_list_update)
    show ?thesis
    proof (cases "nsel - 1 = 0")
      case no_more: True
      then have "rset \<inter> {i + 1..} = {}" using n fin by simp
      then have "j \<in> rset \<and> i \<le> j \<longleftrightarrow> j = i" for j using True split by auto
      moreover have "reap {} rset nsel i p = Returns ?p1" using i True no_more by (subst reap.simps) (simp add: Let_def)
      ultimately show ?thesis using c1 st by simp
    next
      case False
      have eq: "reap {} rset nsel i p = reap {} rset (nsel - 1) (i + 1) ?p1" using i True False by (subst reap.simps) (simp add: Let_def)
      have "\<exists>q. reap {} rset (nsel - 1) (i + 1) ?p1 = Returns q \<and> counted q \<and> length (cptr q) = length (cptr ?p1) \<and>
        (\<forall>j < length (cptr ?p1). child_status (cptr q ! j) = (if j \<in> rset \<and> i + 1 \<le> j then 0 else child_status (cptr ?p1 ! j)))"
        by (rule Suc.hyps(1)) (use Suc.hyps(2) Suc.prems(2,4) n c1 in \<open>auto simp: nth_list_update\<close>)
      then obtain q where q: "reap {} rset (nsel - 1) (i + 1) ?p1 = Returns q" "counted q" "length (cptr q) = length (cptr p)"
        "\<And>j. j < length (cptr p) \<Longrightarrow> child_status (cptr q ! j) = (if j \<in> rset \<and> i + 1 \<le> j then 0 else child_status (cptr ?p1 ! j))"
        by auto
      have "child_status (cptr q ! j) = (if j \<in> rset \<and> i \<le> j then 0 else child_status (cptr p ! j))" if "j < length (cptr p)" for j
        unfolding q(4) [OF that] st [OF that] next_le using True by auto
      with q eq show ?thesis by auto
    qed
  qed
qed

lemma pass_connection_run:
  assumes "counted p" "0 < navail p"
  obtains i p1 where "pass_connection p = Returns (i, p1)" "i < length (cptr p)" "child_status (cptr p ! i) = 0" "counted p1"
    "length (cptr p1) = length (cptr p)"
    "\<And>j. j < length (cptr p) \<Longrightarrow> child_status (cptr p1 ! j) = (if j = i then 1 else child_status (cptr p ! j))"
proof -
  let ?i = "find_child (cptr p)"
  have "\<exists>c\<in>set (cptr p). child_status c = 0" using assms icount_pos_iff [of "\<lambda>c. child_status c = 0" "cptr p"] by (simp add: counted_def)
  note i = find_child_first(3) [OF this] find_child_first(2) [OF find_child_first(3) [OF this]]
  let ?p1 = "p\<lparr>cptr := (cptr p)[?i := (cptr p ! ?i)\<lparr>child_status := 1, child_count := child_count (cptr p ! ?i) + 1\<rparr>], navail := navail p - 1\<rparr>"
  have "pass_connection p = Returns (?i, ?p1)" using i(1) by (simp add: pass_connection_def Let_def)
  moreover have "counted ?p1" using assms(1) i by (simp add: counted_def)
  ultimately show thesis using i by (intro that [of ?i ?p1]) (auto simp: nth_list_update)
qed

text \<open>A round never ends the server, and leaves every reported child and no other available.\<close>

lemma round_run:
  assumes c: "counted p" and pipes: "\<And>j. j \<in> pipes \<Longrightarrow> j < length (cptr p) \<and> child_status (cptr p ! j) \<noteq> 0"
  shows "\<exists>conn p'. serv05_round {} listening pipes p = Returns (conn, p') \<and> counted p' \<and> length (cptr p') = length (cptr p) \<and>
    (\<forall>i. conn = Some i \<longrightarrow> i < length (cptr p) \<and> child_status (cptr p ! i) = 0) \<and>
    (\<forall>j < length (cptr p). child_status (cptr p' ! j) =
       (if conn = Some j then 1 else if j \<in> pipes then 0 else child_status (cptr p ! j)))"
proof -
  have sub: "pipes \<subseteq> {..<length (cptr p)}" using pipes by auto
  then have fin: "finite pipes" using finite_subset by blast
  show ?thesis
  proof (cases "listening \<and> navail p > 0")
    case False
    have "\<exists>q. reap {} pipes (card pipes) 0 p = Returns q \<and> counted q \<and> length (cptr q) = length (cptr p) \<and>
      (\<forall>j < length (cptr p). child_status (cptr q ! j) = (if j \<in> pipes \<and> 0 \<le> j then 0 else child_status (cptr p ! j)))"
      by (rule reap_all [OF c sub]) (use pipes in auto)
    with False show ?thesis by (auto simp: serv05_round_def Let_def)
  next
    case True
    from pass_connection_run [OF c] True obtain i p1 where
      i: "pass_connection p = Returns (i, p1)" "i < length (cptr p)" "child_status (cptr p ! i) = 0" "counted p1"
      "length (cptr p1) = length (cptr p)"
      "\<And>j. j < length (cptr p) \<Longrightarrow> child_status (cptr p1 ! j) = (if j = i then 1 else child_status (cptr p ! j))" by blast
    have ni: "i \<notin> pipes" using pipes [of i] i(3) by auto
    show ?thesis
    proof (cases "pipes = {}")
      case True
      with i ni \<open>listening \<and> navail p > 0\<close> show ?thesis by (auto simp: serv05_round_def Let_def)
    next
      case False
      have "\<exists>q. reap {} pipes (card pipes) 0 p1 = Returns q \<and> counted q \<and> length (cptr q) = length (cptr p1) \<and>
        (\<forall>j < length (cptr p1). child_status (cptr q ! j) = (if j \<in> pipes \<and> 0 \<le> j then 0 else child_status (cptr p1 ! j)))"
        by (rule reap_all [OF i(4)]) (use pipes sub i ni in auto)
      then obtain q where q: "reap {} pipes (card pipes) 0 p1 = Returns q" "counted q" "length (cptr q) = length (cptr p1)"
        "\<forall>j < length (cptr p1). child_status (cptr q ! j) = (if j \<in> pipes \<and> 0 \<le> j then 0 else child_status (cptr p1 ! j))" by blast
      have "serv05_round {} listening pipes p = Returns (Some i, q)"
        using True i(1) q(1) False fin by (simp add: serv05_round_def Let_def)
      with q i ni show ?thesis by auto
    qed
  qed
qed

lemma pf_inv_exec:
  assumes inv: "pf_inv s" and ex: "pf_exec s e = Some t"
  shows "pf_inv t"
proof (cases e)
  case (Finish i)
  with inv ex show ?thesis by (auto simp: pf_inv_def nth_list_update split: if_splits)
next
  case (Round listening pipes)
  have ok: "\<forall>i\<in>set pipes. i < length (kids s) \<and> kids s ! i = Written" using ex Round by (auto split: if_splits)
  have c: "counted (parent s)" using inv by (simp add: pf_inv_def counted_def)
  have st: "\<And>j. j \<in> set pipes \<Longrightarrow> j < length (cptr (parent s)) \<and> child_status (cptr (parent s) ! j) \<noteq> 0"
    using ok inv by (auto simp: pf_inv_def)
  from round_run [OF c st, of "set pipes" listening] obtain conn p' where
    r: "serv05_round {} listening (set pipes) (parent s) = Returns (conn, p')" "counted p'" "length (cptr p') = length (kids s)"
    "\<forall>i. conn = Some i \<longrightarrow> i < length (kids s) \<and> child_status (cptr (parent s) ! i) = 0"
    "\<forall>j < length (kids s). child_status (cptr p' ! j) = (if conn = Some j then 1 else if j \<in> set pipes then 0 else child_status (cptr (parent s) ! j))"
    using inv by (auto simp: pf_inv_def)
  show ?thesis using ex Round ok r inv
    by (cases conn) (auto simp: pf_inv_def counted_def Let_def nth_list_update)
qed

interpretation pf: event_invariant pf_exec pf_inv
  by unfold_locales (rule pf_inv_exec)

lemma pf_inv_start: "pf_inv (pf_start n)"
  by (simp add: pf_inv_def pf_start_def)

lemma pf_length_exec: "pf_exec s e = Some t \<Longrightarrow> length (kids t) = length (kids s)"
  by (cases e) (auto simp: Let_def split: if_splits outcome.splits option.splits)

lemma pf_length: "run_events pf_exec (pf_start n) es = Some s \<Longrightarrow> length (kids s) = n"
proof -
  have "run_events pf_exec r es = Some s \<Longrightarrow> length (kids s) = length (kids r)" for r
    by (induction es arbitrary: r) (auto split: option.splits dest: pf_length_exec)
  from this [of "pf_start n"] show "run_events pf_exec (pf_start n) es = Some s \<Longrightarrow> length (kids s) = n" by (simp add: pf_start_def)
qed

section \<open>Properties\<close>

text \<open>
  In every run of the server \<open>navail\<close> is the number of idle children, no round ends with the message that no
  child is available, and a new connection goes to a child that is idle.
\<close>

theorem serv05_passes_to_idle:
  assumes "run_events pf_exec (pf_start n) es = Some s" "list_all (\<lambda>i. i < n \<and> kids s ! i = Written) pipes"
  shows "navail (parent s) = icount (\<lambda>k. k = Idle) (kids s) \<and>
    (\<exists>conn p. serv05_round {} listening (set pipes) (parent s) = Returns (conn, p) \<and>
       (\<forall>i. conn = Some i \<longrightarrow> i < n \<and> kids s ! i = Idle) \<and> (listening \<and> Idle \<in> set (kids s) \<longrightarrow> conn \<noteq> None))"
proof -
  have inv: "pf_inv s" by (rule pf.run_Inv [OF pf_inv_start assms(1)])
  have len: "length (kids s) = n" by (rule pf_length [OF assms(1)])
  have c: "counted (parent s)" using inv by (simp add: pf_inv_def counted_def)
  have st: "\<And>j. j \<in> set pipes \<Longrightarrow> j < length (cptr (parent s)) \<and> child_status (cptr (parent s) ! j) \<noteq> 0"
    using assms(2) len inv by (auto simp: pf_inv_def list_all_iff)
  have nav: "navail (parent s) = icount (\<lambda>k. k = Idle) (kids s)"
  proof -
    have "map (\<lambda>c. child_status c = 0) (cptr (parent s)) = map (\<lambda>k. k = Idle) (kids s)"
      using inv by (intro nth_equalityI) (auto simp: pf_inv_def)
    then have "icount id (map (\<lambda>c. child_status c = 0) (cptr (parent s))) = icount id (map (\<lambda>k. k = Idle) (kids s))" by simp
    then show ?thesis using inv by (simp add: icount_map pf_inv_def)
  qed
  from round_run [OF c st, of "set pipes" listening] obtain conn p where
    r: "serv05_round {} listening (set pipes) (parent s) = Returns (conn, p)"
    "\<forall>i. conn = Some i \<longrightarrow> i < length (cptr (parent s)) \<and> child_status (cptr (parent s) ! i) = 0" by blast
  have "conn \<noteq> None" if "listening" "Idle \<in> set (kids s)"
  proof -
    have "0 < navail (parent s)" using nav icount_pos_iff [of "\<lambda>k. k = Idle" "kids s"] that(2) by auto
    then show ?thesis using r(1) that(1) by (auto simp: serv05_round_def Let_def split: if_splits)
  qed
  with r nav inv len show ?thesis by (auto simp: pf_inv_def)
qed

theorem serv05_passes_to_idle_witness:
  "\<exists>s. run_events pf_exec (pf_start 2) [Round True [], Round True [], Finish 0] = Some s \<and> navail (parent s) = 0 \<and>
    (\<exists>conn p. serv05_round {} True (set [0]) (parent s) = Returns (conn, p))"
proof -
  have "run_ends pf_exec (pf_start 2) [Round True [], Round True [], Finish 0] (\<lambda>s. kids s = [Written, Busy])"
    by (simp add: run_ends_def pf_start_def serv05_round_def pass_connection_def Let_def reap.simps numeral_2_eq_2)
  from run_events_ex [OF this] obtain s where
    s: "run_events pf_exec (pf_start 2) [Round True [], Round True [], Finish 0] = Some s" "kids s = [Written, Busy]" by blast
  with serv05_passes_to_idle [OF s(1), of "[0]" True] show ?thesis by (auto simp: s(2))
qed

end
