(* ===== verification/Accept_Lock.thy ===== *)
theory Accept_Lock
  imports Prelude
begin

text \<open>
  The lock around \<open>accept\<close> of the preforked servers of \<open>person/client_server\<close>: \<open>my_lock_init\<close>, \<open>my_lock_wait\<close> and
  \<open>my_lock_release\<close> over a record lock on a file (\<open>lock_fcntl.c\<close>) and over a mutex in shared memory
  (\<open>lock_pthread.c\<close>), with the contract that the servers rely on. A call that blocks is \<open>None\<close>.
\<close>

section \<open>The contract\<close>

locale accept_lock =
  fixes wait :: "nat \<Rightarrow> 'l \<Rightarrow> 'l outcome option" and release :: "nat \<Rightarrow> 'l \<Rightarrow> 'l outcome option"
    and ok :: "'l \<Rightarrow> bool" and holder :: "'l \<Rightarrow> nat option"
  assumes wait_free: "ok l \<Longrightarrow> holder l = None \<Longrightarrow> \<exists>l'. wait p l = Some (Returns l') \<and> ok l' \<and> holder l' = Some p"
    and wait_held: "ok l \<Longrightarrow> holder l = Some q \<Longrightarrow> q \<noteq> p \<Longrightarrow> wait p l = None"
    and release_held: "ok l \<Longrightarrow> holder l = Some p \<Longrightarrow> \<exists>l'. release p l = Some (Returns l') \<and> ok l' \<and> holder l' = None"
begin

lemma wait_cases:
  assumes "ok l" "holder l \<noteq> Some p"
  shows "(holder l \<noteq> None \<and> wait p l = None) \<or> (holder l = None \<and> (\<exists>l'. wait p l = Some (Returns l') \<and> ok l' \<and> holder l' = Some p))"
  using assms wait_free [of l p] wait_held [of l _ p] by (cases "holder l") auto

end

section \<open>A record lock on a file\<close>

datatype flock_type = F_RDLCK | F_WRLCK | F_UNLCK

record flock =
  l_type :: flock_type
  l_whence :: nat
  l_start :: int
  l_len :: int

text \<open>
  The static variables of \<open>lock_fcntl.c\<close>, which the children inherit, and the process that owns the write lock on the file.
\<close>

record file_lock =
  lock_it :: flock
  unlock_it :: flock
  lock_fd :: int
  wr_owner :: "nat option"

definition file_lock_static :: file_lock where
  "file_lock_static =
     (let zero = \<lparr>l_type = F_RDLCK, l_whence = 0, l_start = 0, l_len = 0\<rparr> in
      \<lparr>lock_it = zero, unlock_it = zero, lock_fd = - 1, wr_owner = None\<rparr>)"

text \<open>\<open>fd\<close> is what \<open>mkstemp\<close> returns and \<open>unlinked\<close> whether \<open>unlink\<close> succeeds; \<open>SEEK_SET\<close> is 0.\<close>

definition my_lock_init :: "int \<Rightarrow> bool \<Rightarrow> file_lock \<Rightarrow> file_lock outcome" where
  "my_lock_init fd unlinked l =
     (if fd < 0 then Dies ''mkstemp error''
      else if \<not> unlinked then Dies ''unlink error''
      else Returns (l\<lparr>lock_fd := fd,
             lock_it := \<lparr>l_type = F_WRLCK, l_whence = 0, l_start = 0, l_len = 0\<rparr>,
             unlock_it := \<lparr>l_type = F_UNLCK, l_whence = 0, l_start = 0, l_len = 0\<rparr>\<rparr>))"

text \<open>
  \<open>fcntl\<close> with \<open>F_SETLKW\<close>, called by process \<open>p\<close> on the whole file: a lock waits until no other process owns the write
  lock. Read locks are not taken by the program, so their owners are not part of the state.
\<close>

definition fcntl_setlkw :: "nat \<Rightarrow> flock \<Rightarrow> file_lock \<Rightarrow> (int + file_lock) option" where
  "fcntl_setlkw p fl l =
     (if lock_fd l < 0 then Some (Inl EBADF)
      else case l_type fl of
             F_WRLCK \<Rightarrow> if wr_owner l = None \<or> wr_owner l = Some p then Some (Inr (l\<lparr>wr_owner := Some p\<rparr>)) else None
           | F_RDLCK \<Rightarrow> if wr_owner l = None \<or> wr_owner l = Some p then Some (Inr (l\<lparr>wr_owner := None\<rparr>)) else None
           | F_UNLCK \<Rightarrow> Some (Inr (if wr_owner l = Some p then l\<lparr>wr_owner := None\<rparr> else l)))"

text \<open>The list has the errors with which earlier calls of \<open>fcntl\<close> failed while they waited.\<close>

fun my_lock_wait :: "int list \<Rightarrow> nat \<Rightarrow> file_lock \<Rightarrow> file_lock outcome option" where
  "my_lock_wait (e # es) p l =
     (if e = EINTR then my_lock_wait es p l else Some (Dies ''fcntl error for my_lock_wait''))"
| "my_lock_wait [] p l =
     (case fcntl_setlkw p (lock_it l) l of
        None \<Rightarrow> None
      | Some (Inl e) \<Rightarrow> Some (Dies ''fcntl error for my_lock_wait'')
      | Some (Inr l1) \<Rightarrow> Some (Returns l1))"

definition my_lock_release :: "nat \<Rightarrow> file_lock \<Rightarrow> file_lock outcome option" where
  "my_lock_release p l =
     (case fcntl_setlkw p (unlock_it l) l of
        None \<Rightarrow> None
      | Some (Inl e) \<Rightarrow> Some (Dies ''fcntl error for my_lock_release'')
      | Some (Inr l1) \<Rightarrow> Some (Returns l1))"

definition file_lock_ok :: "file_lock \<Rightarrow> bool" where
  "file_lock_ok l \<longleftrightarrow> 0 \<le> lock_fd l \<and> l_type (lock_it l) = F_WRLCK \<and> l_type (unlock_it l) = F_UNLCK"

interpretation flk: accept_lock "my_lock_wait []" my_lock_release file_lock_ok wr_owner
  by unfold_locales (auto simp: file_lock_ok_def fcntl_setlkw_def my_lock_release_def)

lemma my_lock_init_ok: "my_lock_init fd True l = Returns l' \<Longrightarrow> wr_owner l = None \<Longrightarrow> file_lock_ok l' \<and> wr_owner l' = None"
  by (auto simp: my_lock_init_def file_lock_ok_def split: if_splits)

text \<open>Signals do not end the wait, and a wait without \<open>my_lock_init\<close> ends the process.\<close>

lemma my_lock_wait_interrupted: "set es \<subseteq> {EINTR} \<Longrightarrow> my_lock_wait es p l = my_lock_wait [] p l"
  by (induction es) auto

lemma my_lock_wait_uninitialised: "my_lock_wait [] p file_lock_static = Some (Dies ''fcntl error for my_lock_wait'')"
  by (simp add: file_lock_static_def Let_def fcntl_setlkw_def)

section \<open>A mutex\<close>

text \<open>The mutex of \<open>lock_pthread.c\<close>, in a shared mapping, and that of \<open>serv07.c\<close>.\<close>

record mutex =
  m_pshared :: bool
  m_owner :: "nat option"

text \<open>\<open>opened\<close> and \<open>mapped\<close> say whether \<open>/dev/zero\<close> could be opened and mapped.\<close>

definition mutex_lock_init :: "bool \<Rightarrow> bool \<Rightarrow> mutex outcome" where
  "mutex_lock_init opened mapped =
     (if \<not> opened then Dies ''open error for /dev/zero''
      else if \<not> mapped then Dies ''mmap error''
      else Returns \<lparr>m_pshared = True, m_owner = None\<rparr>)"

definition mutex_lock_wait :: "nat \<Rightarrow> mutex \<Rightarrow> mutex outcome option" where
  "mutex_lock_wait p m = (if m_owner m = None then Some (Returns (m\<lparr>m_owner := Some p\<rparr>)) else None)"

definition mutex_lock_release :: "nat \<Rightarrow> mutex \<Rightarrow> mutex outcome option" where
  "mutex_lock_release p m = Some (Returns (m\<lparr>m_owner := None\<rparr>))"

interpretation mtx: accept_lock mutex_lock_wait mutex_lock_release "\<lambda>_. True" m_owner
  by unfold_locales (auto simp: mutex_lock_wait_def mutex_lock_release_def)

section \<open>The lock a server is linked with\<close>

text \<open>
  The three functions have the same names in both files; the link step chooses one implementation.
\<close>

datatype my_lock = Fcntl file_lock | Pthread mutex

fun linked_wait :: "nat \<Rightarrow> my_lock \<Rightarrow> my_lock outcome option" where
  "linked_wait p (Fcntl l) = map_option (\<lambda>r. bind_outcome r (\<lambda>l1. Returns (Fcntl l1))) (my_lock_wait [] p l)"
| "linked_wait p (Pthread m) = map_option (\<lambda>r. bind_outcome r (\<lambda>m1. Returns (Pthread m1))) (mutex_lock_wait p m)"

fun linked_release :: "nat \<Rightarrow> my_lock \<Rightarrow> my_lock outcome option" where
  "linked_release p (Fcntl l) = map_option (\<lambda>r. bind_outcome r (\<lambda>l1. Returns (Fcntl l1))) (my_lock_release p l)"
| "linked_release p (Pthread m) = map_option (\<lambda>r. bind_outcome r (\<lambda>m1. Returns (Pthread m1))) (mutex_lock_release p m)"

fun linked_ok :: "my_lock \<Rightarrow> bool" where
  "linked_ok (Fcntl l) = file_lock_ok l"
| "linked_ok (Pthread m) = True"

fun linked_holder :: "my_lock \<Rightarrow> nat option" where
  "linked_holder (Fcntl l) = wr_owner l"
| "linked_holder (Pthread m) = m_owner m"

interpretation lk: accept_lock linked_wait linked_release linked_ok linked_holder
proof
  fix l :: my_lock and p q
  assume ok: "linked_ok l"
  show "\<exists>l'. linked_wait p l = Some (Returns l') \<and> linked_ok l' \<and> linked_holder l' = Some p" if "linked_holder l = None"
  proof (cases l)
    case (Fcntl x)
    with ok that flk.wait_free [of x p] show ?thesis by auto
  next
    case (Pthread x)
    with that mtx.wait_free [of x p] show ?thesis by auto
  qed
  show "linked_wait p l = None" if "linked_holder l = Some q" "q \<noteq> p"
  proof (cases l)
    case (Fcntl x)
    with ok that flk.wait_held [of x q p] show ?thesis by simp
  next
    case (Pthread x)
    with that mtx.wait_held [of x q p] show ?thesis by simp
  qed
  show "\<exists>l'. linked_release p l = Some (Returns l') \<and> linked_ok l' \<and> linked_holder l' = None" if "linked_holder l = Some p"
  proof (cases l)
    case (Fcntl x)
    with ok that flk.release_held [of x p] show ?thesis by auto
  next
    case (Pthread x)
    with that mtx.release_held [of x p] show ?thesis by auto
  qed
qed

end
