(* ===== verification/Accept_Servers.thy ===== *)
theory Accept_Servers
  imports Accept_Lock Netio
begin

text \<open>
  The servers of \<open>person/client_server\<close> whose children or threads all call \<open>accept\<close> on one listening socket: \<open>serv00\<close>
  (one process), \<open>serv02\<close>, \<open>serv03\<close> and \<open>serv04\<close> with their variants (preforked) and \<open>serv07\<close> and \<open>serv09\<close> (prethreaded). A worker's loop is the
  list of its calls in the order of the source; a step of the system is one call of one worker, so that every
  interleaving is a run. A connection is the stream of its requests with the behaviour of its socket, and \<open>web_child\<close>
  is that of \<open>Netio\<close>.
\<close>

section \<open>The loops of the workers\<close>

datatype call = CallLockWait | CallSelect | CallAccept | CallLockRelease | CountClient | CallWebChild | CallClose

definition serv00_loop :: "call list" where
  "serv00_loop = [CallAccept, CallWebChild, CallClose]"

definition child02_main :: "call list" where
  "child02_main = [CallAccept, CallWebChild, CallClose]"

definition child02l_main :: "call list" where
  "child02l_main = [CallSelect, CallAccept, CallWebChild, CallClose]"

definition child02m_main :: "call list" where
  "child02m_main = [CallAccept, CountClient, CallWebChild, CallClose]"

definition child03_main :: "call list" where
  "child03_main = [CallLockWait, CallAccept, CallLockRelease, CallWebChild, CallClose]"

definition child03m_main :: "call list" where
  "child03m_main = [CallLockWait, CallAccept, CallLockRelease, CountClient, CallWebChild, CallClose]"

definition child04_main :: "call list" where
  "child04_main = [CallLockWait, CallAccept, CallLockRelease, CallWebChild, CallClose]"

definition thread07_main :: "call list" where
  "thread07_main = [CallLockWait, CallAccept, CallLockRelease, CountClient, CallWebChild, CallClose]"

definition thread09_main :: "call list" where
  "thread09_main = [CallAccept, CountClient, CallWebChild, CallClose]"

section \<open>The system\<close>

text \<open>
  A worker is what it still has to call in this round of its loop, nothing if it has exited, and the connection in its
  \<open>connfd\<close>. The server has the lock, the queue of the listening socket, the counters \<open>cptr\<close> or \<open>thread_count\<close>, and the
  history: the connections in the order they came, those accepted with the worker that did, those answered with what
  was sent, and those closed without an answer because their process ended.
\<close>

record 'c worker =
  todo :: "call list"
  connfd :: "'c option"

record ('l, 'c) accept_server =
  alock :: 'l
  backlog :: "'c list"
  workers :: "'c worker list"
  cptr :: "nat list"
  arrived :: "'c list"
  accepted :: "(nat \<times> 'c) list"
  answered :: "('c \<times> string) list"
  lost :: "'c list"

definition exited :: "'c worker" where
  "exited = \<lparr>todo = [], connfd = None\<rparr>"

text \<open>The connection a worker has accepted and not yet answered.\<close>

definition unanswered :: "'c worker \<Rightarrow> 'c list" where
  "unanswered w = (if CallWebChild \<in> set (todo w) then (case connfd w of None \<Rightarrow> [] | Some c \<Rightarrow> [c]) else [])"

text \<open>
  \<open>err_quit\<close> or \<open>err_sys\<close> in worker \<open>i\<close>: a child process ends alone, a thread takes all the threads with it.
\<close>

definition exit_worker :: "bool \<Rightarrow> nat \<Rightarrow> ('l, 'c) accept_server \<Rightarrow> ('l, 'c) accept_server" where
  "exit_worker threads i s =
     (if threads
      then s\<lparr>workers := map (\<lambda>_. exited) (workers s), lost := lost s @ concat (map unanswered (workers s))\<rparr>
      else s\<lparr>workers := (workers s)[i := exited], lost := lost s @ unanswered (workers s ! i)\<rparr>)"

text \<open>After a call the worker goes on with the next one, and after the last with the first of its loop.\<close>

definition advance :: "call list \<Rightarrow> nat \<Rightarrow> 'c option \<Rightarrow> ('l, 'c) accept_server \<Rightarrow> ('l, 'c) accept_server" where
  "advance loop i c s =
     s\<lparr>workers := (workers s)[i := \<lparr>todo = (case tl (todo (workers s ! i)) of [] \<Rightarrow> loop | r \<Rightarrow> r), connfd = c\<rparr>]\<rparr>"

text \<open>
  One call of worker \<open>i\<close>; \<open>None\<close> is a call that blocks. \<open>select\<close> without a time limit returns when the listening
  socket is readable, so that its bit is set.
\<close>

definition worker_call ::
  "(nat \<Rightarrow> 'l \<Rightarrow> 'l outcome option) \<Rightarrow> (nat \<Rightarrow> 'l \<Rightarrow> 'l outcome option) \<Rightarrow> ('c \<Rightarrow> string outcome option) \<Rightarrow>
   bool \<Rightarrow> call list \<Rightarrow> nat \<Rightarrow> call \<Rightarrow> ('l, 'c) accept_server \<Rightarrow> ('l, 'c) accept_server option" where
  "worker_call wait release web threads loop i k s =
     (let c = connfd (workers s ! i) in
      case k of
        CallLockWait \<Rightarrow>
          (case wait i (alock s) of
             None \<Rightarrow> None
           | Some (Dies m) \<Rightarrow> Some (exit_worker threads i s)
           | Some (Returns l) \<Rightarrow> Some (advance loop i c (s\<lparr>alock := l\<rparr>)))
      | CallSelect \<Rightarrow> if backlog s = [] then None else Some (advance loop i c s)
      | CallAccept \<Rightarrow>
          (case backlog s of
             [] \<Rightarrow> None
           | x # xs \<Rightarrow> Some (advance loop i (Some x) (s\<lparr>backlog := xs, accepted := accepted s @ [(i, x)]\<rparr>)))
      | CallLockRelease \<Rightarrow>
          (case release i (alock s) of
             None \<Rightarrow> None
           | Some (Dies m) \<Rightarrow> Some (exit_worker threads i s)
           | Some (Returns l) \<Rightarrow> Some (advance loop i c (s\<lparr>alock := l\<rparr>)))
      | CountClient \<Rightarrow> Some (advance loop i c (s\<lparr>cptr := (cptr s)[i := cptr s ! i + 1]\<rparr>))
      | CallWebChild \<Rightarrow>
          (case c of
             None \<Rightarrow> None
           | Some x \<Rightarrow>
               (case web x of
                  None \<Rightarrow> None
                | Some (Dies m) \<Rightarrow> Some (exit_worker threads i s)
                | Some (Returns out) \<Rightarrow> Some (advance loop i c (s\<lparr>answered := answered s @ [(x, out)]\<rparr>))))
      | CallClose \<Rightarrow> Some (advance loop i None s))"

datatype 'c acc_event = Connect 'c | is_Worker: Worker nat

fun acc_exec ::
  "(nat \<Rightarrow> 'l \<Rightarrow> 'l outcome option) \<Rightarrow> (nat \<Rightarrow> 'l \<Rightarrow> 'l outcome option) \<Rightarrow> ('c \<Rightarrow> string outcome option) \<Rightarrow>
   bool \<Rightarrow> call list \<Rightarrow> ('l, 'c) accept_server \<Rightarrow> 'c acc_event \<Rightarrow> ('l, 'c) accept_server option" where
  "acc_exec wait release web threads loop s (Connect c) = Some (s\<lparr>backlog := backlog s @ [c], arrived := arrived s @ [c]\<rparr>)"
| "acc_exec wait release web threads loop s (Worker i) =
     (if i < length (workers s) \<and> todo (workers s ! i) \<noteq> []
      then worker_call wait release web threads loop i (hd (todo (workers s ! i))) s
      else None)"

definition acc_start :: "'l \<Rightarrow> call list \<Rightarrow> nat \<Rightarrow> ('l, 'c) accept_server" where
  "acc_start l loop n =
     \<lparr>alock = l, backlog = [], workers = replicate n \<lparr>todo = loop, connfd = None\<rparr>, cptr = replicate n 0, arrived = [],
      accepted = [], answered = [], lost = []\<rparr>"

section \<open>The main functions\<close>

text \<open>
  The arguments of the preforked and prethreaded servers: an optional host, the port and the number of workers.
  \<open>tcp_listen\<close> says whether the listening socket can be opened.
\<close>

definition serv_args :: "(string option \<Rightarrow> string \<Rightarrow> bool) \<Rightarrow> string \<Rightarrow> string list \<Rightarrow> int outcome" where
  "serv_args tcp_listen usage argv =
     bind_outcome
       (if length argv = 3 then Returns (tcp_listen None (argv ! 1))
        else if length argv = 4 then Returns (tcp_listen (Some (argv ! 1)) (argv ! 2))
        else Dies usage)
       (\<lambda>listening. if listening then Returns (atoi (last argv)) else Dies ''tcp_listen error'')"

text \<open>
  \<open>Calloc\<close> of a negative number of entries fails, as the product is no size of memory. \<open>fork\<close> and \<open>pthread_create\<close> are taken
  to succeed.
\<close>

definition make_workers :: "my_lock \<Rightarrow> call list \<Rightarrow> int \<Rightarrow> (my_lock, 'c) accept_server outcome" where
  "make_workers l loop n = (if n < 0 then Dies ''calloc error'' else Returns (acc_start l loop (nat n)))"

text \<open>\<open>serv02.c\<close> is linked with \<open>child02.c\<close> or with \<open>child02l.c\<close>; its children use no lock.\<close>

abbreviation unused_lock :: my_lock where "unused_lock \<equiv> Pthread \<lparr>m_pshared = False, m_owner = None\<rparr>"

definition serv02_main :: "(string option \<Rightarrow> string \<Rightarrow> bool) \<Rightarrow> call list \<Rightarrow> string list \<Rightarrow> (my_lock, 'c) accept_server outcome" where
  "serv02_main tcp_listen child_main argv =
     bind_outcome (serv_args tcp_listen ''usage: serv02 [ <host> ] <port#> <#children>'' argv)
       (make_workers unused_lock child_main)"

definition serv02m_main :: "(string option \<Rightarrow> string \<Rightarrow> bool) \<Rightarrow> string list \<Rightarrow> (my_lock, 'c) accept_server outcome" where
  "serv02m_main tcp_listen argv =
     bind_outcome (serv_args tcp_listen ''usage: serv02 [ <host> ] <port#> <#children>'' argv)
       (make_workers unused_lock child02m_main)"

text \<open>
  \<open>serv03\<close> makes its lock file after the array of process numbers; \<open>fd\<close> and \<open>unlinked\<close> are the results of \<open>mkstemp\<close> and \<open>unlink\<close>.
\<close>

definition serv03_main ::
  "(string option \<Rightarrow> string \<Rightarrow> bool) \<Rightarrow> int \<Rightarrow> bool \<Rightarrow> string list \<Rightarrow> (my_lock, 'c) accept_server outcome" where
  "serv03_main tcp_listen fd unlinked argv =
     bind_outcome (serv_args tcp_listen ''usage: serv03 [ <host> ] <port#> <#children>'' argv) (\<lambda>nchildren.
       if nchildren < 0 then Dies ''calloc error''
       else bind_outcome (my_lock_init fd unlinked file_lock_static) (\<lambda>l.
              Returns (acc_start (Fcntl l) child03_main (nat nchildren))))"

definition serv03m_main ::
  "(string option \<Rightarrow> string \<Rightarrow> bool) \<Rightarrow> int \<Rightarrow> bool \<Rightarrow> string list \<Rightarrow> (my_lock, 'c) accept_server outcome" where
  "serv03m_main tcp_listen fd unlinked argv =
     bind_outcome (serv_args tcp_listen ''usage: serv03 [ <host> ] <port#> <#children>'' argv) (\<lambda>nchildren.
       if nchildren < 0 then Dies ''calloc error''
       else bind_outcome (my_lock_init fd unlinked file_lock_static) (\<lambda>l.
              Returns (acc_start (Fcntl l) child03m_main (nat nchildren))))"

definition serv04_main ::
  "(string option \<Rightarrow> string \<Rightarrow> bool) \<Rightarrow> bool \<Rightarrow> bool \<Rightarrow> string list \<Rightarrow> (my_lock, 'c) accept_server outcome" where
  "serv04_main tcp_listen opened mapped argv =
     bind_outcome (serv_args tcp_listen ''usage: serv04 [ <host> ] <port#> <#children>'' argv) (\<lambda>nchildren.
       if nchildren < 0 then Dies ''calloc error''
       else bind_outcome (mutex_lock_init opened mapped) (\<lambda>l.
              Returns (acc_start (Pthread l) child04_main (nat nchildren))))"

definition serv07_main :: "(string option \<Rightarrow> string \<Rightarrow> bool) \<Rightarrow> string list \<Rightarrow> (my_lock, 'c) accept_server outcome" where
  "serv07_main tcp_listen argv =
     bind_outcome (serv_args tcp_listen ''usage: serv07 [ <host> ] <port#> <#threads>'' argv)
       (make_workers (Pthread \<lparr>m_pshared = False, m_owner = None\<rparr>) thread07_main)"

definition serv09_main :: "(string option \<Rightarrow> string \<Rightarrow> bool) \<Rightarrow> string list \<Rightarrow> (my_lock, 'c) accept_server outcome" where
  "serv09_main tcp_listen argv =
     bind_outcome (serv_args tcp_listen ''usage: serv09 [ <host> ] <port#> <#threads>'' argv)
       (make_workers unused_lock thread09_main)"

text \<open>\<open>serv00\<close> is one process; its arguments are an optional host and the port.\<close>

definition serv00_main :: "(string option \<Rightarrow> string \<Rightarrow> bool) \<Rightarrow> string list \<Rightarrow> (my_lock, 'c) accept_server outcome" where
  "serv00_main tcp_listen argv =
     bind_outcome
       (if length argv = 2 then Returns (tcp_listen None (argv ! 1))
        else if length argv = 3 then Returns (tcp_listen (Some (argv ! 1)) (argv ! 2))
        else Dies ''usage: serv00 [ <host> ] <port#>'')
       (\<lambda>listening. if listening then Returns (acc_start unused_lock serv00_loop 1) else Dies ''tcp_listen error'')"

text \<open>
  The handlers of \<open>SIGINT\<close>: all workers are gone, and the servers with counters print them, as \<open>child\<close> or as \<open>thread\<close>. The
  processor times that \<open>pr_cpu_time\<close> prints first are left out.
\<close>

definition sig_int :: "('l, 'c) accept_server \<Rightarrow> ('l, 'c) accept_server" where
  "sig_int s = exit_worker True 0 s"

definition sig_int_report :: "string \<Rightarrow> ('l, 'c) accept_server \<Rightarrow> string list" where
  "sig_int_report who s =
     map (\<lambda>i. who @ '' '' @ dec i @ '', '' @ dec (cptr s ! i) @ '' connections'' @ [NEWLINE]) [0..<length (workers s)]"

section \<open>Well-formed loops\<close>

text \<open>
  The state of a worker's connection, and what a rest of the loop may do in it: one \<open>accept\<close>, then one \<open>web_child\<close>, and
  \<open>close\<close> at the end.
\<close>

datatype phase = Before | Holding | Sent

fun loop_ok :: "phase \<Rightarrow> call list \<Rightarrow> bool" where
  "loop_ok Before (k # r) =
     (if k = CallAccept then loop_ok Holding r else k \<in> {CallLockWait, CallSelect} \<and> loop_ok Before r)"
| "loop_ok Holding (k # r) =
     (if k = CallWebChild then r = [CallClose] else k \<in> {CallLockRelease, CountClient} \<and> loop_ok Holding r)"
| "loop_ok Sent r = (r = [CallClose])"
| "loop_ok p [] = False"

definition phase :: "'c worker \<Rightarrow> phase" where
  "phase w = (if connfd w = None then Before else if CallWebChild \<in> set (todo w) then Holding else Sent)"

text \<open>The rest of a loop takes and releases the lock in turn; with \<open>excl\<close>, it accepts only with the lock.\<close>

fun lock_ok :: "bool \<Rightarrow> bool \<Rightarrow> call list \<Rightarrow> bool" where
  "lock_ok excl held [] = (\<not> held)"
| "lock_ok excl held (k # r) =
     (if k = CallLockWait then \<not> held \<and> lock_ok excl True r
      else if k = CallLockRelease then held \<and> lock_ok excl False r
      else (k = CallAccept \<and> excl \<longrightarrow> held) \<and> lock_ok excl held r)"

definition counts_once :: "call list \<Rightarrow> bool" where
  "counts_once loop \<longleftrightarrow> distinct loop \<and> CountClient \<in> set loop"

definition loop_good :: "call list \<Rightarrow> bool" where
  "loop_good loop \<longleftrightarrow> loop_ok Before loop \<and> lock_ok (CallLockWait \<in> set loop) False loop \<and> distinct loop"

text \<open>The loops of the program.\<close>

definition accept_loops :: "call list list" where
  "accept_loops = [serv00_loop, child02_main, child02l_main, child02m_main, child03_main, child03m_main, child04_main,
     thread07_main, thread09_main]"

lemmas loop_defs = serv00_loop_def child02_main_def child02l_main_def child02m_main_def child03_main_def child03m_main_def
  child04_main_def thread07_main_def thread09_main_def

lemma accept_loops_good: "loop \<in> set accept_loops \<Longrightarrow> loop_good loop"
  by (auto simp: accept_loops_def loop_defs loop_good_def)

section \<open>The invariant\<close>

definition worker_ok :: "bool \<Rightarrow> bool \<Rightarrow> 'c worker \<Rightarrow> bool" where
  "worker_ok excl held w \<longleftrightarrow>
     (if todo w = [] then connfd w = None
      else loop_ok (phase w) (todo w) \<and> lock_ok excl held (todo w) \<and> distinct (todo w))"

text \<open>What a worker has accepted and not yet counted.\<close>

definition uncounted :: "'c worker \<Rightarrow> nat" where
  "uncounted w = (if connfd w \<noteq> None \<and> CountClient \<in> set (todo w) then 1 else 0)"

definition by_worker :: "nat \<Rightarrow> (nat \<times> 'c) list \<Rightarrow> nat" where
  "by_worker i as = length (filter (\<lambda>a. fst a = i) as)"

definition workers_inv :: "('l \<Rightarrow> bool) \<Rightarrow> ('l \<Rightarrow> nat option) \<Rightarrow> bool \<Rightarrow> ('l, 'c) accept_server \<Rightarrow> bool" where
  "workers_inv ok holder excl s \<longleftrightarrow> ok (alock s) \<and> (\<forall>p. holder (alock s) = Some p \<longrightarrow> p < length (workers s)) \<and>
     (\<forall>i < length (workers s). worker_ok excl (holder (alock s) = Some i) (workers s ! i))"

definition history_inv :: "('c \<Rightarrow> string outcome option) \<Rightarrow> ('l, 'c) accept_server \<Rightarrow> bool" where
  "history_inv web s \<longleftrightarrow> arrived s = map snd (accepted s) @ backlog s \<and>
     mset (map snd (accepted s)) = mset (map fst (answered s)) + mset (lost s) + mset (concat (map unanswered (workers s))) \<and>
     (\<forall>a \<in> set (answered s). web (fst a) = Some (Returns (snd a)))"

definition counted :: "nat \<Rightarrow> nat \<Rightarrow> 'c worker \<Rightarrow> bool" where
  "counted n k w \<longleftrightarrow> (if todo w = [] then n \<le> k else n + uncounted w = k) \<and>
     (todo w \<noteq> [] \<and> connfd w = None \<longrightarrow> CountClient \<in> set (todo w))"

definition counts_inv :: "('l, 'c) accept_server \<Rightarrow> bool" where
  "counts_inv s \<longleftrightarrow> length (cptr s) = length (workers s) \<and>
     (\<forall>i < length (workers s). counted (cptr s ! i) (by_worker i (accepted s)) (workers s ! i))"

definition web_returns :: "('c \<Rightarrow> string outcome option) \<Rightarrow> ('l, 'c) accept_server \<Rightarrow> bool" where
  "web_returns web s \<longleftrightarrow> (\<forall>c \<in> set (arrived s). \<exists>out. web c = Some (Returns out))"

definition alive :: "('l, 'c) accept_server \<Rightarrow> bool" where
  "alive s \<longleftrightarrow> (\<forall>w \<in> set (workers s). todo w \<noteq> []) \<and> lost s = []"

definition acc_inv ::
  "('l \<Rightarrow> bool) \<Rightarrow> ('l \<Rightarrow> nat option) \<Rightarrow> ('c \<Rightarrow> string outcome option) \<Rightarrow> call list \<Rightarrow> ('l, 'c) accept_server \<Rightarrow> bool" where
  "acc_inv ok holder web loop s \<longleftrightarrow> workers_inv ok holder (CallLockWait \<in> set loop) s \<and> history_inv web s \<and>
     (CountClient \<in> set loop \<longrightarrow> counts_inv s) \<and> (web_returns web s \<longrightarrow> alive s)"

lemma loop_ok_Holding: "loop_ok Holding r \<Longrightarrow> CallWebChild \<in> set r"
  by (induction r) (auto split: if_splits)

text \<open>What a worker may do next.\<close>

lemma worker_ok_next:
  assumes "worker_ok excl held w" "todo w = k # r"
  shows "k = CallLockWait \<Longrightarrow> connfd w = None \<and> loop_ok Before r \<and> \<not> held \<and> lock_ok excl True r"
    "k = CallSelect \<Longrightarrow> connfd w = None \<and> loop_ok Before r \<and> lock_ok excl held r"
    "k = CallAccept \<Longrightarrow> connfd w = None \<and> loop_ok Holding r \<and> (excl \<longrightarrow> held) \<and> lock_ok excl held r"
    "k = CallLockRelease \<Longrightarrow> connfd w \<noteq> None \<and> loop_ok Holding r \<and> held \<and> lock_ok excl False r"
    "k = CountClient \<Longrightarrow> connfd w \<noteq> None \<and> loop_ok Holding r \<and> lock_ok excl held r"
    "k = CallWebChild \<Longrightarrow> connfd w \<noteq> None \<and> r = [CallClose] \<and> \<not> held"
    "k = CallClose \<Longrightarrow> connfd w \<noteq> None \<and> r = [] \<and> \<not> held"
    "k \<notin> set r \<and> distinct r"
  using assms by (auto simp: worker_ok_def phase_def split: if_splits)

lemma concat_unanswered_update:
  assumes "i < length ws"
  shows "mset (concat (map unanswered (ws[i := w]))) + mset (unanswered (ws ! i)) = mset (concat (map unanswered ws)) + mset (unanswered w)"
  using assms by (induction ws arbitrary: i) (auto split: nat.splits simp: nth_Cons')

lemma workers_inv_update:
  assumes "workers_inv ok holder excl s" "i < length (workers s)" "ok l" "worker_ok excl (holder l = Some i) w"
    "\<And>j. j \<noteq> i \<Longrightarrow> holder l = Some j \<longleftrightarrow> holder (alock s) = Some j"
    "alock t = l" "workers t = (workers s)[i := w]"
  shows "workers_inv ok holder excl t"
proof -
  have "p < length (workers s)" if "holder l = Some p" for p
    using assms(1,2) assms(5) [of p] that by (cases "p = i") (auto simp: workers_inv_def)
  with assms show ?thesis by (auto simp: workers_inv_def nth_list_update)
qed

lemma workers_inv_exit:
  assumes "workers_inv ok holder excl s" "i < length (workers s)"
  shows "workers_inv ok holder excl (exit_worker threads i s)"
  using assms by (auto simp: workers_inv_def exit_worker_def worker_ok_def exited_def nth_list_update)

lemma advance_simps [simp]:
  "alock (advance loop i c s) = alock s" "backlog (advance loop i c s) = backlog s" "cptr (advance loop i c s) = cptr s"
  "arrived (advance loop i c s) = arrived s" "accepted (advance loop i c s) = accepted s"
  "answered (advance loop i c s) = answered s" "lost (advance loop i c s) = lost s"
  by (simp_all add: advance_def)

lemma workers_advance:
  "todo (workers s ! i) = k # r \<Longrightarrow>
    workers (advance loop i c s) = (workers s)[i := \<lparr>todo = (if r = [] then loop else r), connfd = c\<rparr>]"
  by (cases r) (simp_all add: advance_def)

text \<open>The worker after its call: the state of its connection goes with the rest of its loop.\<close>

lemma worker_ok_advance:
  assumes "loop_good loop" "excl = (CallLockWait \<in> set loop)" "worker_ok excl held w" "todo w = k # r" "distinct r"
  shows "loop_ok Before r \<Longrightarrow> lock_ok excl h r \<Longrightarrow> worker_ok excl h \<lparr>todo = (if r = [] then loop else r), connfd = None\<rparr>"
    "loop_ok Holding r \<Longrightarrow> lock_ok excl h r \<Longrightarrow> worker_ok excl h \<lparr>todo = (if r = [] then loop else r), connfd = Some x\<rparr>"
    "worker_ok excl False \<lparr>todo = loop, connfd = None\<rparr>"
    "worker_ok excl False \<lparr>todo = [CallClose], connfd = Some x\<rparr>"
  using assms loop_ok_Holding [of r] by (auto simp: worker_ok_def phase_def loop_good_def)

lemma unanswered_simps:
  "unanswered \<lparr>todo = r, connfd = None\<rparr> = []"
  "loop_ok Holding r \<Longrightarrow> unanswered \<lparr>todo = r, connfd = Some x\<rparr> = [x]"
  "unanswered \<lparr>todo = [CallClose], connfd = Some x\<rparr> = []"
  by (auto simp: unanswered_def dest: loop_ok_Holding)

lemma multiset_swap:
  fixes M :: "'a multiset"
  assumes "M + U = N + W" "A + U = B + W"
  shows "M + B = N + A"
proof -
  have "(M + B) + (U + W) = (M + U) + (B + W)" by (simp add: ac_simps)
  also have "\<dots> = (N + A) + (U + W)" unfolding assms(1) assms(2) [symmetric] by (simp add: ac_simps)
  finally show ?thesis by simp
qed

lemma history_inv_update:
  assumes "history_inv web s" "i < length (workers s)" "workers t = (workers s)[i := w]"
    "arrived t = arrived s" "map snd (accepted t) @ backlog t = map snd (accepted s) @ backlog s" "lost t = lost s"
    "accepted t = accepted s @ as" "answered t = answered s @ bs" "\<And>a. a \<in> set bs \<Longrightarrow> web (fst a) = Some (Returns (snd a))"
    "mset (map snd as) + mset (unanswered (workers s ! i)) = mset (map fst bs) + mset (unanswered w)"
  shows "history_inv web t"
proof -
  let ?M = "mset (concat (map unanswered (workers t)))" and ?N = "mset (concat (map unanswered (workers s)))"
  have "?M + mset (unanswered (workers s ! i)) = ?N + mset (unanswered w)"
    using concat_unanswered_update [OF assms(2), of w] assms(3) by simp
  then have "?M + mset (map fst bs) = ?N + mset (map snd as)"
    using assms(10) by (rule multiset_swap)
  with assms show ?thesis by (auto simp: history_inv_def ac_simps)
qed

lemma history_inv_exit:
  assumes "history_inv web s" "i < length (workers s)"
  shows "history_inv web (exit_worker threads i s)"
proof -
  have "unanswered exited = []" by (simp add: unanswered_def exited_def)
  with assms concat_unanswered_update [OF assms(2), of exited] show ?thesis
    by (auto simp: history_inv_def exit_worker_def ac_simps comp_def)
qed

lemma history_inv_call:
  assumes inv: "history_inv web s" and w: "worker_ok excl held (workers s ! i)"
    and ex: "acc_exec wait release web threads loop s (Worker i) = Some t"
  shows "history_inv web t"
proof -
  let ?w = "workers s ! i"
  have i: "i < length (workers s)" "todo ?w \<noteq> []" using ex by (auto split: if_splits)
  then obtain k r where kr: "todo ?w = k # r" by (cases "todo ?w") auto
  have call: "worker_call wait release web threads loop i k s = Some t" using ex i kr by simp
  note nx = worker_ok_next [OF w kr]
  note upd = history_inv_update [OF inv i(1)] history_inv_exit [OF inv i(1)]
  have un: "unanswered ?w = (if CallWebChild \<in> set (k # r) then (case connfd ?w of None \<Rightarrow> [] | Some c \<Rightarrow> [c]) else [])"
    by (simp add: unanswered_def kr)
  have sub: "unanswered \<lparr>todo = (if r = [] then loop else r), connfd = connfd ?w\<rparr> = unanswered ?w"
    if "k \<in> {CallLockWait, CallSelect, CallLockRelease, CountClient}"
    using that nx(1,2,4,5) un by (auto simp: unanswered_def dest: loop_ok_Holding)
  show ?thesis
  proof (cases k)
    case CallAccept
    with nx(3) call kr un obtain x xs where "loop_ok Holding r" "backlog s = x # xs" "unanswered ?w = []"
      "t = advance loop i (Some x) (s\<lparr>backlog := xs, accepted := accepted s @ [(i, x)]\<rparr>)"
      by (auto simp: worker_call_def Let_def split: list.splits)
    with kr loop_ok_Holding [of r] show ?thesis
      by (intro upd(1) [where as = "[(i, x)]" and bs = "[]"]) (auto simp: workers_advance unanswered_def)
  next
    case CallWebChild
    with nx(6) obtain x where x: "connfd ?w = Some x" "r = [CallClose]" "unanswered ?w = [x]" using un by auto
    from CallWebChild call x(1) consider "t = exit_worker threads i s"
      | out where "web x = Some (Returns out)" "t = advance loop i (Some x) (s\<lparr>answered := answered s @ [(x, out)]\<rparr>)"
      by (auto simp: worker_call_def Let_def split: option.splits outcome.splits)
    then show ?thesis
    proof cases
      case 2
      with kr x show ?thesis
        by (intro upd(1) [where as = "[]" and bs = "[(x, out)]"]) (auto simp: workers_advance unanswered_simps)
    qed (use upd(2) in simp)
  next
    case CallClose
    with nx(7) call kr un show ?thesis
      by (intro upd(1) [where as = "[]" and bs = "[]" and w = "\<lparr>todo = loop, connfd = None\<rparr>"])
        (auto simp: worker_call_def Let_def workers_advance unanswered_simps)
  qed (use call kr sub in \<open>auto simp: worker_call_def Let_def workers_advance intro!: upd(2) upd(1) [where as = "[]" and bs = "[]"]
      split: option.splits outcome.splits if_splits\<close>)
qed

lemma by_worker_append [simp]: "by_worker i (as @ bs) = by_worker i as + by_worker i bs"
  by (simp add: by_worker_def)

lemma by_worker_single [simp]: "by_worker i [(j, x)] = (if i = j then 1 else 0)" "by_worker i [] = 0"
  by (auto simp: by_worker_def)

lemma counts_inv_update:
  assumes "counts_inv s" "i < length (workers s)" "workers t = (workers s)[i := w]"
    "accepted t = accepted s @ replicate m (i, x)" "cptr t = (cptr s)[i := cptr s ! i + n]"
    "counted (cptr s ! i) (by_worker i (accepted s)) (workers s ! i) \<Longrightarrow>
      counted (cptr s ! i + n) (by_worker i (accepted s) + m) w"
  shows "counts_inv t"
proof -
  have "by_worker j (replicate m (i, x)) = (if j = i then m else 0)" for j by (induction m) (auto simp: by_worker_def)
  then show ?thesis using assms by (auto simp: counts_inv_def nth_list_update)
qed

lemma counted_exited: "counted n k w \<Longrightarrow> counted n k exited"
  by (auto simp: counted_def exited_def split: if_splits)

lemma counts_inv_exit: "counts_inv s \<Longrightarrow> counts_inv (exit_worker threads i s)"
  by (cases "i < length (workers s)") (auto simp: counts_inv_def exit_worker_def nth_list_update intro: counted_exited)

lemma counts_inv_call:
  assumes inv: "counts_inv s" and w: "worker_ok excl held (workers s ! i)" and loop: "CountClient \<in> set loop"
    and ex: "acc_exec wait release web threads loop s (Worker i) = Some t"
  shows "counts_inv t"
proof -
  let ?w = "workers s ! i"
  have i: "i < length (workers s)" "todo ?w \<noteq> []" using ex by (auto split: if_splits)
  then obtain k r where kr: "todo ?w = k # r" by (cases "todo ?w") auto
  have call: "worker_call wait release web threads loop i k s = Some t" using ex i kr by simp
  note nx = worker_ok_next [OF w kr]
  have ne: "r \<noteq> []" if "loop_ok Before r \<or> loop_ok Holding r" using that by auto
  note upd = counts_inv_update [OF inv i(1), where x = undefined] counts_inv_exit [OF inv]
  have len: "cptr s = (cptr s)[i := cptr s ! i + 0]" by simp
  show ?thesis
  proof (cases k)
    case CallAccept
    with nx(3) call obtain x xs where "loop_ok Holding r" "connfd ?w = None"
      "t = advance loop i (Some x) (s\<lparr>backlog := xs, accepted := accepted s @ [(i, x)]\<rparr>)"
      by (auto simp: worker_call_def Let_def split: list.splits)
    with kr ne CallAccept show ?thesis
      by (intro counts_inv_update [OF inv i(1), where m = 1 and n = 0 and x = x]) (auto simp: workers_advance counted_def uncounted_def)
  next
    case CountClient
    with nx(5,8) call kr ne show ?thesis
      by (intro upd(1) [where m = 0 and n = 1 and w = "\<lparr>todo = r, connfd = connfd ?w\<rparr>"]) (auto simp: worker_call_def Let_def workers_advance counted_def uncounted_def)
  qed (use call kr nx(1,2,4,6,7) ne loop in \<open>auto simp: worker_call_def Let_def workers_advance counted_def uncounted_def
      intro!: upd(2) upd(1) [where m = 0 and n = 0] split: option.splits outcome.splits if_splits\<close>)
qed

lemma history_answered: "history_inv web s \<Longrightarrow> i < length (workers s) \<Longrightarrow> set (unanswered (workers s ! i)) \<subseteq> set (arrived s)"
proof
  fix x assume h: "history_inv web s" and i: "i < length (workers s)" and x: "x \<in> set (unanswered (workers s ! i))"
  then have "x \<in># mset (concat (map unanswered (workers s)))" using nth_mem [OF i] by auto
  then have "x \<in># mset (map snd (accepted s))" using h unfolding history_inv_def by simp
  then show "x \<in> set (arrived s)" using h by (simp add: history_inv_def)
qed

context accept_lock
begin

lemma workers_inv_call:
  assumes inv: "workers_inv ok holder excl s" and loop: "loop_good loop" "excl = (CallLockWait \<in> set loop)"
    and ex: "acc_exec wait release web threads loop s (Worker i) = Some t"
  shows "workers_inv ok holder excl t"
proof -
  let ?w = "workers s ! i" and ?h = "holder (alock s) = Some i"
  have i: "i < length (workers s)" "todo ?w \<noteq> []" using ex by (auto split: if_splits)
  then obtain k r where kr: "todo ?w = k # r" by (cases "todo ?w") auto
  have call: "worker_call wait release web threads loop i k s = Some t" using ex i kr by simp
  have w: "worker_ok excl ?h ?w" "ok (alock s)" using inv i by (auto simp: workers_inv_def)
  note nx = worker_ok_next [OF w(1) kr]
  note adv = worker_ok_advance [OF loop w(1) kr nx(8) [THEN conjunct2]]
  note same = workers_inv_update [OF inv i(1) w(2) _ refl]
  show ?thesis
  proof (cases k)
    case CallLockWait
    with nx(1) have h: "holder (alock s) \<noteq> Some i" "connfd ?w = None" "loop_ok Before r" "lock_ok excl True r" by auto
    from wait_cases [OF w(2) h(1)] call CallLockWait obtain l where
      l: "ok l" "holder l = Some i" "holder (alock s) = None" "t = advance loop i None (s\<lparr>alock := l\<rparr>)"
      using h(2) by (auto simp: worker_call_def Let_def)
    show ?thesis
      by (rule workers_inv_update [OF inv i(1) l(1)]) (use l h adv(1) kr in \<open>auto simp: workers_advance\<close>)
  next
    case CallSelect
    with nx(2) call kr adv(1) show ?thesis
      by (intro same) (auto simp: worker_call_def Let_def workers_advance split: if_splits)
  next
    case CallAccept
    with nx(3) call obtain x xs where "loop_ok Holding r" "lock_ok excl ?h r"
      "t = advance loop i (Some x) (s\<lparr>backlog := xs, accepted := accepted s @ [(i, x)]\<rparr>)"
      by (auto simp: worker_call_def Let_def split: list.splits)
    with kr adv(2) [of ?h x] show ?thesis by (intro same) (auto simp: workers_advance)
  next
    case CallLockRelease
    with nx(4) have h: "holder (alock s) = Some i" "connfd ?w \<noteq> None" "loop_ok Holding r" "lock_ok excl False r" by auto
    from release_held [OF w(2) h(1)] call CallLockRelease obtain l where
      l: "ok l" "holder l = None" "t = advance loop i (connfd ?w) (s\<lparr>alock := l\<rparr>)"
      by (auto simp: worker_call_def Let_def)
    show ?thesis
      by (rule workers_inv_update [OF inv i(1) l(1)]) (use l h adv(2) kr in \<open>auto simp: workers_advance\<close>)
  next
    case CountClient
    with nx(5) call obtain x where "loop_ok Holding r" "lock_ok excl ?h r"
      "t = advance loop i (Some x) (s\<lparr>cptr := (cptr s)[i := cptr s ! i + 1]\<rparr>)"
      by (auto simp: worker_call_def Let_def)
    with kr adv(2) [of ?h x] show ?thesis by (intro same) (auto simp: workers_advance)
  next
    case CallWebChild
    with nx(6) call kr adv(4) show ?thesis
      by (auto simp: worker_call_def Let_def workers_advance intro!: same workers_inv_exit [OF inv i(1)] split: option.splits outcome.splits)
  next
    case CallClose
    with nx(7) call kr adv(3) show ?thesis
      by (intro same) (auto simp: worker_call_def Let_def workers_advance)
  qed
qed

text \<open>
  As long as \<open>web_child\<close> returns for every connection that came, no call ends a worker.
\<close>

lemma alive_call:
  assumes inv: "workers_inv ok holder excl s" "history_inv web s" "web_returns web s" "alive s"
    and ex: "acc_exec wait release web threads loop s (Worker i) = Some t" and loop: "loop \<noteq> []"
  shows "alive t"
proof -
  let ?w = "workers s ! i"
  have i: "i < length (workers s)" "todo ?w \<noteq> []" using ex by (auto split: if_splits)
  then obtain k r where kr: "todo ?w = k # r" by (cases "todo ?w") auto
  have call: "worker_call wait release web threads loop i k s = Some t" using ex i kr by simp
  have w: "worker_ok excl (holder (alock s) = Some i) ?w" "ok (alock s)" using inv(1) i by (auto simp: workers_inv_def)
  note nx = worker_ok_next [OF w(1) kr]
  have "\<exists>c s1. t = advance loop i c s1 \<and> workers s1 = workers s \<and> lost s1 = lost s"
  proof (cases k)
    case CallLockWait
    with nx(1) wait_cases [OF w(2), of i] call show ?thesis
      by (force simp: worker_call_def Let_def)
  next
    case CallLockRelease
    with nx(4) release_held [OF w(2), of i] call show ?thesis
      by (force simp: worker_call_def Let_def)
  next
    case CallWebChild
    with nx(6) obtain x where x: "connfd ?w = Some x" "x \<in> set (unanswered ?w)" by (auto simp: unanswered_def kr)
    then obtain out where "web x = Some (Returns out)"
      using inv(3) history_answered [OF inv(2) i(1)] by (auto simp: web_returns_def)
    with x(1) call CallWebChild show ?thesis by (force simp: worker_call_def Let_def)
  qed (use call in \<open>force simp: worker_call_def Let_def split: if_splits list.splits\<close>)+
  then obtain c s1 where "t = advance loop i c s1" "workers s1 = workers s" "lost s1 = lost s" by blast
  with inv(4) loop kr i show ?thesis
    by (auto simp: alive_def workers_advance dest!: set_update_subset_insert [THEN subsetD])
qed

lemma arrived_call:
  "acc_exec wait release web threads loop s (Worker i) = Some t \<Longrightarrow> arrived t = arrived s"
  by (auto simp: worker_call_def Let_def exit_worker_def split: if_splits call.splits option.splits outcome.splits list.splits)

lemma acc_inv_exec:
  assumes loop: "loop_good loop" and inv: "acc_inv ok holder web loop s"
    and ex: "acc_exec wait release web threads loop s e = Some t"
  shows "acc_inv ok holder web loop t"
proof (cases e)
  case (Connect c)
  have "web_returns web s" if "web_returns web t" using that ex Connect by (auto simp: web_returns_def)
  with inv ex Connect show ?thesis
    by (auto simp: acc_inv_def workers_inv_def history_inv_def counts_inv_def alive_def)
next
  case (Worker i)
  note ex = ex [unfolded Worker]
  have i: "i < length (workers s)" using ex by (auto split: if_splits)
  have w: "workers_inv ok holder (CallLockWait \<in> set loop) s" and h: "history_inv web s"
    using inv by (auto simp: acc_inv_def)
  have ok: "worker_ok (CallLockWait \<in> set loop) (holder (alock s) = Some i) (workers s ! i)"
    using w i by (simp add: workers_inv_def)
  have ne: "loop \<noteq> []" using loop by (auto simp: loop_good_def)
  have ret: "web_returns web t = web_returns web s" using arrived_call [OF ex] by (simp add: web_returns_def)
  show ?thesis unfolding acc_inv_def
    using workers_inv_call [OF w loop refl ex] history_inv_call [OF h ok ex] counts_inv_call [OF _ ok _ ex]
      alive_call [OF w h _ _ ex ne] inv ret by (auto simp: acc_inv_def)
qed

lemma acc_inv_run:
  assumes "loop_good loop" "acc_inv ok holder web loop s" "run_events (acc_exec wait release web threads loop) s es = Some t"
  shows "acc_inv ok holder web loop t"
proof -
  have "event_invariant (acc_exec wait release web threads loop) (acc_inv ok holder web loop)"
    by unfold_locales (rule acc_inv_exec [OF assms(1)])
  from event_invariant.run_Inv [OF this assms(2,3)] show ?thesis .
qed

lemma acc_inv_start:
  assumes "loop_good loop" "ok l" "holder l = None"
  shows "acc_inv ok holder web loop (acc_start l loop n)"
proof -
  have "loop_ok Before loop" "lock_ok (CallLockWait \<in> set loop) False loop" "loop \<noteq> []" "distinct loop"
    using assms(1) by (auto simp: loop_good_def)
  with assms(2,3) show ?thesis
    by (auto simp: acc_inv_def acc_start_def workers_inv_def worker_ok_def phase_def history_inv_def counts_inv_def counted_def
        uncounted_def by_worker_def alive_def unanswered_def)
qed

end

end
