(* ===== verification/Accept_Correct.thy ===== *)
theory Accept_Correct
  imports Accept_Servers
begin

text \<open>
  The servers of \<open>Accept_Servers\<close> answer every connection once: their calls are bounded by the connections, and a server
  in which no worker can go on has answered all of them. The lemmas are proved once for the contract of the lock, and
  used for the record lock, the mutex, and the servers without a lock.
\<close>

section \<open>A bound on the calls\<close>

text \<open>
  What a worker can still call before it waits for a connection, and the calls of the system. A loop has at most seven calls.
\<close>

abbreviation to_accept :: "call list \<Rightarrow> nat" where
  "to_accept cs \<equiv> length (takeWhile (\<lambda>k. k \<noteq> CallAccept) cs)"

definition worker_left :: "call list \<Rightarrow> 'c worker \<Rightarrow> nat" where
  "worker_left loop w = (if connfd w = None then to_accept (todo w) else length (todo w) + to_accept loop)"

definition calls_left :: "call list \<Rightarrow> ('l, 'c) accept_server \<Rightarrow> nat" where
  "calls_left loop s = 15 * length (backlog s) + sum_list (map (worker_left loop) (workers s))"

lemma distinct_calls: "distinct (cs :: call list) \<Longrightarrow> length cs \<le> 7"
proof -
  assume d: "distinct cs"
  have u: "UNIV = {CallLockWait, CallSelect, CallAccept, CallLockRelease, CountClient, CallWebChild, CallClose}"
    using call.exhaust by auto
  have f: "finite (UNIV :: call set)" unfolding u by simp
  have "card (set cs) \<le> card (UNIV :: call set)" by (rule card_mono [OF f subset_UNIV])
  also have "card (UNIV :: call set) = 7" unfolding u by simp
  finally show "length cs \<le> 7" using d by (simp add: distinct_card)
qed

lemma sum_list_update_nat:
  "i < length xs \<Longrightarrow> sum_list (map f (xs[i := x])) + f (xs ! i) = sum_list (map f xs) + (f x :: nat)"
  by (induction xs arbitrary: i) (auto split: nat.splits)

lemma calls_left_update:
  assumes "i < length (workers s)" "workers t = (workers s)[i := w]"
    "15 * length (backlog t) + worker_left loop w < 15 * length (backlog s) + worker_left loop (workers s ! i)"
  shows "calls_left loop t < calls_left loop s"
  using assms sum_list_update_nat [OF assms(1), of "worker_left loop" w] by (simp add: calls_left_def)

lemma calls_left_exit:
  fixes s :: "('l, 'c) accept_server"
  assumes "i < length (workers s)" "0 < worker_left loop (workers s ! i)"
  shows "calls_left loop (exit_worker threads i s) < calls_left loop s"
proof -
  have e: "worker_left loop (exited :: 'c worker) = 0" by (simp add: worker_left_def exited_def)
  have "worker_left loop (workers s ! i) \<le> sum_list (map (worker_left loop) (workers s))"
    by (rule member_le_sum_list) (use assms(1) in auto)
  with e assms sum_list_update_nat [OF assms(1), of "worker_left loop" exited] show ?thesis
    by (auto simp: calls_left_def exit_worker_def comp_def)
qed

context accept_lock
begin

text \<open>Every call brings the server nearer to the state in which all workers wait for a connection.\<close>

lemma calls_left_call:
  assumes inv: "workers_inv ok holder excl s" and loop: "loop_good loop"
    and ex: "acc_exec wait release web threads loop s (Worker i) = Some t"
  shows "calls_left loop t < calls_left loop s"
proof -
  let ?w = "workers s ! i"
  have i: "i < length (workers s)" "todo ?w \<noteq> []" using ex by (auto split: if_splits)
  then obtain k r where kr: "todo ?w = k # r" by (cases "todo ?w") auto
  have call: "worker_call wait release web threads loop i k s = Some t" using ex i kr by simp
  have w: "worker_ok excl (holder (alock s) = Some i) ?w" "ok (alock s)" using inv i by (auto simp: workers_inv_def)
  note nx = worker_ok_next [OF w(1) kr]
  have d: "distinct (k # r)" using w(1) kr by (simp add: worker_ok_def)
  have lens: "length r \<le> 6" "to_accept loop \<le> 7"
    using distinct_calls [OF d] distinct_calls [of loop] loop length_takeWhile_le [of "\<lambda>k. k \<noteq> CallAccept" loop]
    by (auto simp: loop_good_def)
  note upd = calls_left_update [OF i(1)]
  show ?thesis
  proof (cases k)
    case CallLockWait
    with nx(1) wait_cases [OF w(2), of i] call kr show ?thesis
      by (auto simp: worker_call_def Let_def workers_advance worker_left_def intro!: upd)
  next
    case CallSelect
    with nx(2) call kr show ?thesis
      by (auto simp: worker_call_def Let_def workers_advance worker_left_def intro!: upd split: if_splits)
  next
    case CallAccept
    with nx(3) call kr lens show ?thesis
      by (auto simp: worker_call_def Let_def workers_advance worker_left_def intro!: upd split: list.splits)
  next
    case CallLockRelease
    with nx(4) release_held [OF w(2), of i] call kr show ?thesis
      by (auto simp: worker_call_def Let_def workers_advance worker_left_def intro!: upd)
  next
    case CountClient
    with nx(5) call kr show ?thesis
      by (auto simp: worker_call_def Let_def workers_advance worker_left_def intro!: upd)
  next
    case CallWebChild
    with nx(6) call kr show ?thesis
      by (auto simp: worker_call_def Let_def workers_advance worker_left_def intro!: upd calls_left_exit [OF i(1)]
          split: option.splits outcome.splits)
  next
    case CallClose
    with nx(7) call kr show ?thesis
      by (auto simp: worker_call_def Let_def workers_advance worker_left_def intro!: upd)
  qed
qed

text \<open>A server in which no worker can go on waits for connections: none is queued and none in hand.\<close>

lemma blocked_idle:
  assumes inv: "workers_inv ok holder excl s" "history_inv web s" "web_returns web s" "alive s" "workers s \<noteq> []"
    and blocked: "\<And>i. acc_exec wait release web threads loop s (Worker i) = None"
  shows "backlog s = [] \<and> (\<forall>w \<in> set (workers s). connfd w = None)"
proof -
  have call: "\<exists>k r. todo (workers s ! i) = k # r \<and> worker_call wait release web threads loop i k s = None \<and>
      worker_ok excl (holder (alock s) = Some i) (workers s ! i)" if "i < length (workers s)" for i
  proof -
    have "todo (workers s ! i) \<noteq> []" using inv(4) that by (auto simp: alive_def)
    with blocked [of i] that inv(1) show ?thesis by (cases "todo (workers s ! i)") (auto simp: workers_inv_def)
  qed
  have ok: "ok (alock s)" using inv(1) by (simp add: workers_inv_def)
  have free: "connfd (workers s ! i) = None" if i: "i < length (workers s)" for i
  proof (rule ccontr)
    assume c: "connfd (workers s ! i) \<noteq> None"
    from call [OF i] obtain k r where kr: "todo (workers s ! i) = k # r" "worker_call wait release web threads loop i k s = None"
      and w: "worker_ok excl (holder (alock s) = Some i) (workers s ! i)" by blast
    note nx = worker_ok_next [OF w kr(1)]
    show False
    proof (cases k)
      case CallLockRelease
      with nx(4) release_held [OF ok, of i] kr(2) show ?thesis by (auto simp: worker_call_def Let_def)
    next
      case CallWebChild
      with c kr(1) obtain x where x: "connfd (workers s ! i) = Some x" "x \<in> set (unanswered (workers s ! i))" by (auto simp: unanswered_def)
      then obtain out where "web x = Some (Returns out)"
        using inv(3) history_answered [OF inv(2) i] by (auto simp: web_returns_def)
      with x(1) CallWebChild kr(2) show ?thesis by (simp add: worker_call_def Let_def)
    qed (use nx(1-3) c kr(2) in \<open>auto simp: worker_call_def Let_def\<close>)
  qed
  obtain p where p: "p < length (workers s)" "holder (alock s) = None \<or> holder (alock s) = Some p"
    using inv(1,5) by (cases "holder (alock s)") (auto simp: workers_inv_def)
  from call [OF p(1)] obtain k r where kr: "todo (workers s ! p) = k # r" "worker_call wait release web threads loop p k s = None"
    and w: "worker_ok excl (holder (alock s) = Some p) (workers s ! p)" by blast
  have "backlog s = []"
    using worker_ok_next(1,4-7) [OF w kr(1)] free [OF p(1)] kr(2) p(2) wait_free [OF ok, of p]
    by (cases k) (auto simp: worker_call_def Let_def split: if_splits list.splits)
  with free show ?thesis by (auto simp: in_set_conv_nth)
qed

text \<open>The number of calls in a run.\<close>

lemma calls_bounded:
  assumes "loop_good loop" "acc_inv ok holder web loop s" "run_events (acc_exec wait release web threads loop) s es = Some t"
  shows "length (filter is_Worker es) + calls_left loop t \<le> calls_left loop s + 15 * length (filter (\<lambda>e. \<not> is_Worker e) es)"
proof -
  have "measured_system (acc_exec wait release web threads loop) (acc_inv ok holder web loop) (calls_left loop) is_Worker 15"
  proof
    fix s t e
    assume inv: "acc_inv ok holder web loop s" and ex: "acc_exec wait release web threads loop s e = Some t"
    show "acc_inv ok holder web loop t" by (rule acc_inv_exec [OF assms(1) inv ex])
    show "calls_left loop t < calls_left loop s" if "is_Worker e"
      using that calls_left_call [OF _ assms(1)] inv ex by (cases e) (auto simp: acc_inv_def)
    show "calls_left loop t \<le> calls_left loop s + 15" if "\<not> is_Worker e"
      using that ex by (cases e) (auto simp: calls_left_def)
  qed
  from measured_system.run_bound [OF this assms(2,3)] show ?thesis .
qed

end

section \<open>The servers of the program\<close>

text \<open>The result of a main function, with whether the workers are threads and their loop.\<close>

inductive serv_started :: "bool \<Rightarrow> call list \<Rightarrow> (my_lock, 'c) accept_server \<Rightarrow> bool" where
  serv00: "serv00_main tcp_listen argv = Returns s \<Longrightarrow> serv_started False serv00_loop s"
| serv02: "serv02_main tcp_listen child02_main argv = Returns s \<Longrightarrow> serv_started False child02_main s"
| serv02l: "serv02_main tcp_listen child02l_main argv = Returns s \<Longrightarrow> serv_started False child02l_main s"
| serv02m: "serv02m_main tcp_listen argv = Returns s \<Longrightarrow> serv_started False child02m_main s"
| serv03: "serv03_main tcp_listen fd unlinked argv = Returns s \<Longrightarrow> serv_started False child03_main s"
| serv03m: "serv03m_main tcp_listen fd unlinked argv = Returns s \<Longrightarrow> serv_started False child03m_main s"
| serv04: "serv04_main tcp_listen opened mapped argv = Returns s \<Longrightarrow> serv_started False child04_main s"
| serv07: "serv07_main tcp_listen argv = Returns s \<Longrightarrow> serv_started True thread07_main s"
| serv09: "serv09_main tcp_listen argv = Returns s \<Longrightarrow> serv_started True thread09_main s"

lemmas main_defs = serv00_main_def serv02_main_def serv02m_main_def serv03_main_def serv03m_main_def serv04_main_def
  serv07_main_def serv09_main_def make_workers_def my_lock_init_def mutex_lock_init_def file_lock_static_def

lemma acc_started:
  "linked_ok l \<Longrightarrow> linked_holder l = None \<Longrightarrow> \<exists>l' n'. acc_start l loop n = acc_start l' loop n' \<and> linked_ok l' \<and> linked_holder l' = None"
  by blast

lemma serv_started_start:
  assumes "serv_started threads loop s"
  shows "loop \<in> set accept_loops" "\<exists>l n. s = acc_start l loop n \<and> linked_ok l \<and> linked_holder l = None"
proof -
  show "loop \<in> set accept_loops" using assms by cases (simp_all add: accept_loops_def)
  show "\<exists>l n. s = acc_start l loop n \<and> linked_ok l \<and> linked_holder l = None"
    using assms by cases (auto simp: main_defs file_lock_ok_def Let_def intro!: acc_started split: if_splits)
qed

section \<open>Clients\<close>

text \<open>
  A client is what arrives on its connection and how its socket takes what is written; it asks for \<open>ks\<close> if it sends
  these well-formed requests and reads the replies.
\<close>

type_synonym client = "rdfd \<times> wr_event list"

definition serve :: "string \<Rightarrow> client \<Rightarrow> string outcome option" where
  "serve result c = web_child result (fst c) (snd c)"

definition asks :: "client \<Rightarrow> nat list \<Rightarrow> bool" where
  "asks c ks \<longleftrightarrow> quiet (fst c) \<and> stream (fst c) = concat (map request ks) \<and> list_all (\<lambda>k. 1 \<le> k \<and> k \<le> MAXN) ks \<and>
     accepts (sum_list ks) (snd c)"

definition reply :: "string \<Rightarrow> nat list \<Rightarrow> string" where
  "reply result ks = concat (map (\<lambda>k. take k result) ks)"

lemma serve_asks:
  assumes "asks c ks" "length result = MAXN"
  shows "serve result c = Some (Returns (reply result ks))"
  using web_child_returns [of "fst c" ks result "snd c"] assms by (simp add: asks_def serve_def reply_def)

definition accept_exec ::
  "string \<Rightarrow> bool \<Rightarrow> call list \<Rightarrow> (my_lock, client) accept_server \<Rightarrow> client acc_event \<Rightarrow> (my_lock, client) accept_server option" where
  "accept_exec result = acc_exec linked_wait linked_release (serve result)"

abbreviation serv_inv :: "string \<Rightarrow> call list \<Rightarrow> (my_lock, client) accept_server \<Rightarrow> bool" where
  "serv_inv result \<equiv> acc_inv linked_ok linked_holder (serve result)"

lemma serv_run:
  assumes "serv_started threads loop s0" "run_events (accept_exec result threads loop) s0 es = Some s"
  shows "loop_good loop" "serv_inv result loop s0" "serv_inv result loop s"
proof -
  show g: "loop_good loop" by (rule accept_loops_good [OF serv_started_start(1) [OF assms(1)]])
  show i: "serv_inv result loop s0" using serv_started_start(2) [OF assms(1)] lk.acc_inv_start [OF g] by blast
  show "serv_inv result loop s" using lk.acc_inv_run [OF g i] assms(2) by (simp add: accept_exec_def)
qed

lemma connects_arrived:
  "run_events (accept_exec result threads loop) s es = Some t \<Longrightarrow>
    length (arrived t) = length (arrived s) + length (filter (\<lambda>e. \<not> is_Worker e) es) \<and> length (workers t) = length (workers s)"
proof (induction es arbitrary: s)
  case (Cons e es)
  then obtain u where u: "accept_exec result threads loop s e = Some u" "run_events (accept_exec result threads loop) u es = Some t"
    by (auto split: option.splits)
  have "length (arrived u) = length (arrived s) + (if is_Worker e then 0 else 1) \<and> length (workers u) = length (workers s)"
    using u(1) by (cases e) (auto simp: accept_exec_def worker_call_def Let_def exit_worker_def advance_def
        split: if_splits call.splits option.splits outcome.splits list.splits)
  with Cons.IH [OF u(2)] show ?case by auto
qed simp

lemma calls_left_start: "loop_good loop \<Longrightarrow> calls_left loop (acc_start l loop n) \<le> 7 * n"
  using distinct_calls [of loop] length_takeWhile_le [of "\<lambda>k. k \<noteq> CallAccept" loop]
  by (auto simp: calls_left_def acc_start_def worker_left_def loop_good_def sum_list_replicate mult.commute intro: mult_le_mono2)

section \<open>Properties\<close>


definition one_client :: client where
  "one_client = ([Chunk (request 3)], [Accept 2, WrErr EINTR, Accept 9, Accept 1])"

lemma one_client_asks: "asks one_client [3]"
  by (simp add: asks_def one_client_def MAXN_def accepts_def request_def)

lemmas exec_defs = accept_exec_def acc_start_def worker_call_def advance_def loop_defs Let_def mutex_lock_wait_def mutex_lock_release_def


lemma one_client_served: "serve (replicate MAXN CHR ''x'') one_client = Some (Returns ''xxx'')"
proof -
  have "reply (replicate MAXN CHR ''x'') [3] = ''xxx''" by (simp add: reply_def MAXN_def numeral_3_eq_3)
  with serve_asks [OF one_client_asks, of "replicate MAXN CHR ''x''"] show ?thesis by simp
qed

text \<open>
  C17. Whatever clients send, the connections are accepted in the order they came, and each accepted one is answered,
  in the hands of one worker, or closed by the end of its process; in the servers with a lock at most one worker is
  in \<open>accept\<close>; and in the servers that count, a worker that waits for a connection has counted those it accepted.
\<close>

theorem accept_servers_safe:
  assumes "serv_started threads loop s0" "run_events (accept_exec result threads loop) s0 es = Some s"
  shows "arrived s = map snd (accepted s) @ backlog s \<and>
    mset (map snd (accepted s)) = mset (map fst (answered s)) + mset (lost s) + mset (concat (map unanswered (workers s))) \<and>
    (\<forall>i j. CallLockWait \<in> set loop \<and> i < length (workers s) \<and> j < length (workers s) \<and>
       (\<exists>r. todo (workers s ! i) = CallAccept # r) \<and> (\<exists>r. todo (workers s ! j) = CallAccept # r) \<longrightarrow> i = j) \<and>
    (\<forall>i < length (workers s). CountClient \<in> set loop \<and> todo (workers s ! i) \<noteq> [] \<and> connfd (workers s ! i) = None \<longrightarrow>
       cptr s ! i = by_worker i (accepted s))"
proof -
  have inv: "workers_inv linked_ok linked_holder (CallLockWait \<in> set loop) s" "history_inv (serve result) s"
    "CountClient \<in> set loop \<longrightarrow> counts_inv s"
    using serv_run(3) [OF assms] by (auto simp: acc_inv_def)
  have holds: "linked_holder (alock s) = Some i"
    if "CallLockWait \<in> set loop" "i < length (workers s)" "todo (workers s ! i) = CallAccept # r" for i r
    using worker_ok_next(3) [OF _ that(3)] inv(1) that(1,2) by (auto simp: workers_inv_def)
  have "i = j" if "CallLockWait \<in> set loop \<and> i < length (workers s) \<and> j < length (workers s) \<and>
      (\<exists>r. todo (workers s ! i) = CallAccept # r) \<and> (\<exists>r. todo (workers s ! j) = CallAccept # r)" for i j
    using that holds [of i] holds [of j] by auto
  moreover have "cptr s ! i = by_worker i (accepted s)"
    if "i < length (workers s)" "CountClient \<in> set loop \<and> todo (workers s ! i) \<noteq> [] \<and> connfd (workers s ! i) = None" for i
    using inv(3) that by (auto simp: counts_inv_def counted_def uncounted_def)
  ultimately show ?thesis using inv(2) by (auto simp: history_inv_def)
qed

theorem accept_servers_safe_witness:
  "\<exists>s. run_events (accept_exec (replicate MAXN CHR ''x'') True thread07_main) (acc_start unused_lock thread07_main 2)
      [Connect one_client, Worker 1, Worker 1, Worker 1, Worker 0, Worker 1, Worker 1, Worker 1] = Some s \<and>
    arrived s = map snd (accepted s) @ backlog s \<and> cptr s = [0, 1]"
proof -
  let ?ex = "accept_exec (replicate MAXN CHR ''x'') True thread07_main"
  let ?es = "[Connect one_client, Worker 1, Worker 1, Worker 1, Worker 0, Worker 1, Worker 1, Worker 1]"
  have start: "serv_started True thread07_main (acc_start unused_lock thread07_main 2)"
    by (rule serv_started.serv07 [where tcp_listen = "\<lambda>_ _. True" and argv = "[''serv07'', ''99'', ''2'']"])
      (simp add: serv07_main_def serv_args_def make_workers_def atoi_def to_int32_def atol_def isspace_def isdigit_def)
  have "\<exists>s. run_events ?ex (acc_start unused_lock thread07_main 2) ?es = Some s \<and> cptr s = [0, 1]"
    by (simp add: exec_defs one_client_served numeral_2_eq_2)
  then obtain s where s: "run_events ?ex (acc_start unused_lock thread07_main 2) ?es = Some s" "cptr s = [0, 1]" by blast
  with accept_servers_safe [OF start s(1)] show ?thesis by simp
qed

section \<open>Requests that end a server\<close>

text \<open>
  A request that is not a number from 1 to 16384 makes \<open>web_child\<close> call \<open>err_quit\<close>.
\<close>

definition bad_client :: client where
  "bad_client = ([Chunk (''hello'' @ [NEWLINE])], [])"

lemma bad_client_dies: "serve result bad_client = Some (Dies ''client request'')"
  unfolding serve_def web_child_def bad_client_def
  by (subst web_loop.simps)
    (simp add: readline_def MAXLINE_def get_byte_def eval_nat_numeral to_int32_def atol_def cstr_def isspace_def isdigit_def)

definition bad_visit :: "nat \<Rightarrow> client acc_event list" where
  "bad_visit i = [Connect bad_client, Worker i, Worker i]"

text \<open>The state after \<open>k\<close> such visits: each has ended one child.\<close>

definition after_visits :: "my_lock \<Rightarrow> nat \<Rightarrow> nat \<Rightarrow> (my_lock, client) accept_server" where
  "after_visits l n k =
     (acc_start l child02_main n)\<lparr>workers := replicate k exited @ replicate (n - k) \<lparr>todo = child02_main, connfd = None\<rparr>,
       arrived := replicate k bad_client, accepted := map (\<lambda>i. (i, bad_client)) [0..<k], lost := replicate k bad_client\<rparr>"

lemma bad_visit_run:
  assumes "k < n"
  shows "run_events (accept_exec result False child02_main) (after_visits l n k) (bad_visit k) = Some (after_visits l n (Suc k))"
proof -
  obtain m where m: "n - k = Suc m" "n - Suc k = m" using assms by (metis Suc_diff_Suc)
  show ?thesis
    by (simp add: bad_visit_def after_visits_def accept_exec_def acc_start_def worker_call_def advance_def exit_worker_def unanswered_def
        child02_main_def m nth_append list_update_append bad_client_dies replicate_append_same replicate_app_Cons_same)
qed

lemma bad_visits_run:
  "k \<le> n \<Longrightarrow> run_events (accept_exec result False child02_main) (acc_start l child02_main n) (concat (map bad_visit [0..<k])) =
    Some (after_visits l n k)"
proof (induction k)
  case 0
  show ?case by (simp add: after_visits_def acc_start_def)
next
  case (Suc k)
  then show ?case using bad_visit_run [of k n result l] by (simp add: run_events_append)
qed

lemma all_exited: "\<forall>w \<in> set (workers s). todo w = [] \<Longrightarrow> accept_exec result threads loop s (Worker i) = None"
  by (auto simp: accept_exec_def)

text \<open>
  A client can end the servers: one malformed request ends a prethreaded server with all its threads, and as many
  such requests as a preforked server has children end all of them, after which nothing is accepted any more.
\<close>

theorem bad_requests_end_servers:
  "(\<exists>s. run_events (accept_exec result False child02_main) (acc_start l child02_main n) (concat (map bad_visit [0..<n])) = Some s \<and>
      length (lost s) = n \<and> (\<forall>i. accept_exec result False child02_main s (Worker i) = None)) \<and>
   (\<exists>s. run_events (accept_exec result True thread09_main) (acc_start l thread09_main (Suc n)) (bad_visit 0 @ [Worker 0]) = Some s \<and>
      (\<forall>i. accept_exec result True thread09_main s (Worker i) = None))"
proof
  have "accept_exec result False child02_main (after_visits l n n) (Worker i) = None" for i
    by (rule all_exited) (simp add: after_visits_def acc_start_def exited_def)
  then show "\<exists>s. run_events (accept_exec result False child02_main) (acc_start l child02_main n) (concat (map bad_visit [0..<n])) = Some s \<and>
      length (lost s) = n \<and> (\<forall>i. accept_exec result False child02_main s (Worker i) = None)"
    using bad_visits_run [of n n result l] by (auto simp: after_visits_def)
  have "\<exists>s. run_events (accept_exec result True thread09_main) (acc_start l thread09_main (Suc n)) (bad_visit 0 @ [Worker 0]) = Some s \<and>
      (\<forall>w \<in> set (workers s). todo w = [])"
    by (simp add: bad_visit_def accept_exec_def acc_start_def worker_call_def advance_def exit_worker_def exited_def
        thread09_main_def Let_def bad_client_dies)
  then show "\<exists>s. run_events (accept_exec result True thread09_main) (acc_start l thread09_main (Suc n)) (bad_visit 0 @ [Worker 0]) = Some s \<and>
      (\<forall>i. accept_exec result True thread09_main s (Worker i) = None)"
    using all_exited by blast
qed

end
