(* ===== verification/Spawn_Servers.thy ===== *)
theory Spawn_Servers
  imports Accept_Correct
begin

text \<open>
  The servers of \<open>person/client_server\<close> that make a process or a thread per connection: \<open>serv01.c\<close> with its handler of
  \<open>SIGCHLD\<close> (\<open>sig_chld_waitpid.c\<close>), and \<open>serv06.c\<close>. A process that ends on a malformed request takes nobody with it, a
  thread ends the server.
\<close>

section \<open>One process per connection\<close>

text \<open>Where the parent is in its loop; \<open>ParentDied\<close> is after \<open>err_sys\<close>.\<close>

datatype 'c parent_pc = InAccept | AfterAccept 'c | AfterFork 'c | ParentDied

text \<open>
  The children that run, the number of those that have ended and are not waited for, and the history: the
  connections that came, those accepted, those answered with what was sent, and those whose child ended with an error.
\<close>

record 'c fork_server =
  f_backlog :: "'c list"
  f_parent :: "'c parent_pc"
  f_kids :: "'c list"
  f_zombies :: nat
  f_arrived :: "'c list"
  f_accepted :: "'c list"
  f_answered :: "('c \<times> string) list"
  f_failed :: "'c list"

text \<open>The handler: \<open>waitpid\<close> with \<open>WNOHANG\<close> returns a child that has ended as long as there is one.\<close>

fun sig_chld :: "nat \<Rightarrow> nat" where
  "sig_chld 0 = 0"
| "sig_chld (Suc zombies) = sig_chld zombies"

lemma sig_chld_all [simp]: "sig_chld n = 0"
  by (induction n) auto

text \<open>
  \<open>FError\<close>: \<open>accept\<close> fails, perhaps because it is interrupted. \<open>FFork b\<close>: \<open>fork\<close>, which fails if \<open>b\<close> is false. \<open>FChild i\<close>: child
  \<open>i\<close> closes the listening socket, serves its connection and exits. \<open>FSigchld\<close>: the handler runs.
\<close>

datatype 'c fork_event = FConnect 'c | FError int | FAccept | FFork bool | FClose | FChild nat | FSigchld

fun serv01_exec :: "('c \<Rightarrow> string outcome option) \<Rightarrow> 'c fork_server \<Rightarrow> 'c fork_event \<Rightarrow> 'c fork_server option" where
  "serv01_exec web s (FConnect c) = Some (s\<lparr>f_backlog := f_backlog s @ [c], f_arrived := f_arrived s @ [c]\<rparr>)"
| "serv01_exec web s (FError e) =
     (if f_parent s = InAccept then Some (if e = EINTR then s else s\<lparr>f_parent := ParentDied\<rparr>) else None)"
| "serv01_exec web s FAccept =
     (case (f_parent s, f_backlog s) of
        (InAccept, c # cs) \<Rightarrow> Some (s\<lparr>f_backlog := cs, f_parent := AfterAccept c, f_accepted := f_accepted s @ [c]\<rparr>)
      | _ \<Rightarrow> None)"
| "serv01_exec web s (FFork ok) =
     (case f_parent s of
        AfterAccept c \<Rightarrow>
          Some (if ok then s\<lparr>f_parent := AfterFork c, f_kids := f_kids s @ [c]\<rparr>
                else s\<lparr>f_parent := ParentDied, f_failed := f_failed s @ [c]\<rparr>)
      | _ \<Rightarrow> None)"
| "serv01_exec web s FClose =
     (case f_parent s of AfterFork c \<Rightarrow> Some (s\<lparr>f_parent := InAccept\<rparr>) | _ \<Rightarrow> None)"
| "serv01_exec web s (FChild i) =
     (if i < length (f_kids s)
      then let c = f_kids s ! i;
               s1 = s\<lparr>f_kids := take i (f_kids s) @ drop (Suc i) (f_kids s), f_zombies := f_zombies s + 1\<rparr> in
           (case web c of
              None \<Rightarrow> None
            | Some (Returns out) \<Rightarrow> Some (s1\<lparr>f_answered := f_answered s @ [(c, out)]\<rparr>)
            | Some (Dies m) \<Rightarrow> Some (s1\<lparr>f_failed := f_failed s @ [c]\<rparr>))
      else None)"
| "serv01_exec web s FSigchld = (if 0 < f_zombies s then Some (s\<lparr>f_zombies := sig_chld (f_zombies s)\<rparr>) else None)"

text \<open>The start of \<open>serv01\<close>: an optional host and the port.\<close>

definition serv01_main :: "(string option \<Rightarrow> string \<Rightarrow> bool) \<Rightarrow> string list \<Rightarrow> 'c fork_server outcome" where
  "serv01_main tcp_listen argv =
     bind_outcome
       (if length argv = 2 then Returns (tcp_listen None (argv ! 1))
        else if length argv = 3 then Returns (tcp_listen (Some (argv ! 1)) (argv ! 2))
        else Dies ''usage: serv01 [ <host> ] <port#>'')
       (\<lambda>listening.
          if listening
          then Returns \<lparr>f_backlog = [], f_parent = InAccept, f_kids = [], f_zombies = 0, f_arrived = [], f_accepted = [],
                        f_answered = [], f_failed = []\<rparr>
          else Dies ''tcp_listen error'')"

text \<open>The connection that the parent has accepted and not yet given to a child.\<close>

fun in_hand :: "'c parent_pc \<Rightarrow> 'c list" where
  "in_hand (AfterAccept c) = [c]"
| "in_hand _ = []"

definition fork_inv :: "('c \<Rightarrow> string outcome option) \<Rightarrow> 'c fork_server \<Rightarrow> bool" where
  "fork_inv web s \<longleftrightarrow> f_arrived s = f_accepted s @ f_backlog s \<and>
     mset (f_accepted s) = mset (map fst (f_answered s)) + mset (f_failed s) + mset (f_kids s) + mset (in_hand (f_parent s)) \<and>
     (\<forall>a \<in> set (f_answered s). web (fst a) = Some (Returns (snd a))) \<and>
     (f_parent s \<noteq> ParentDied \<longrightarrow> (\<forall>c \<in> set (f_failed s). \<exists>m. web c = Some (Dies m)))"

text \<open>What is left to do: five steps per connection.\<close>

fun parent_left :: "'c parent_pc \<Rightarrow> nat" where
  "parent_left InAccept = 1"
| "parent_left (AfterAccept c) = 5"
| "parent_left (AfterFork c) = 2"
| "parent_left ParentDied = 0"

definition fork_left :: "'c fork_server \<Rightarrow> nat" where
  "fork_left s = 5 * length (f_backlog s) + parent_left (f_parent s) + 2 * length (f_kids s) + f_zombies s"

definition own_fork :: "'c fork_event \<Rightarrow> bool" where
  "own_fork e \<longleftrightarrow> (case e of FConnect c \<Rightarrow> False | FError n \<Rightarrow> n \<noteq> EINTR | _ \<Rightarrow> True)"

lemma mset_remove_nth: "i < length xs \<Longrightarrow> mset xs = mset (take i xs @ drop (Suc i) xs) + {#xs ! i#}"
  by (metis add.commute add_mset_add_single append_take_drop_id Cons_nth_drop_Suc mset.simps(2) mset_append union_mset_add_mset_right)

lemma fork_inv_exec:
  assumes inv: "fork_inv web s" and ex: "serv01_exec web s e = Some t"
  shows "fork_inv web t"
proof (cases e)
  case (FChild i)
  then have i: "i < length (f_kids s)" using ex by (auto split: if_splits)
  from mset_remove_nth [OF i] inv ex FChild i show ?thesis
    by (auto simp: fork_inv_def Let_def split: option.splits outcome.splits)
qed (use inv ex in \<open>auto simp: fork_inv_def split: if_splits parent_pc.splits list.splits option.splits\<close>)

interpretation fork01: measured_system "serv01_exec web" "fork_inv web" fork_left own_fork 5 for web
proof
  fix web :: "'c \<Rightarrow> string outcome option" and s t e
  assume inv: "fork_inv web s" and ex: "serv01_exec web s e = Some t"
  show "fork_inv web t" by (rule fork_inv_exec [OF inv ex])
  show "fork_left t < fork_left s" if "own_fork e"
    using ex that by (cases e) (auto simp: fork_left_def own_fork_def Let_def split: if_splits parent_pc.splits list.splits option.splits outcome.splits)
  show "fork_left t \<le> fork_left s + 5" if "\<not> own_fork e"
    using ex that by (cases e) (auto simp: fork_left_def own_fork_def split: if_splits)
qed

text \<open>No process of the server can go on: the parent waits for a connection, and no child runs or has ended unnoticed.\<close>

definition fork_idle :: "('c \<Rightarrow> string outcome option) \<Rightarrow> 'c fork_server \<Rightarrow> bool" where
  "fork_idle web s \<longleftrightarrow> serv01_exec web s FAccept = None \<and> serv01_exec web s (FFork True) = None \<and> serv01_exec web s FClose = None \<and>
     serv01_exec web s FSigchld = None \<and> (\<forall>i. serv01_exec web s (FChild i) = None)"

lemma fork_idle_state:
  assumes "fork_idle web s" "f_parent s \<noteq> ParentDied" "\<forall>c \<in> set (f_kids s). web c \<noteq> None"
  shows "f_parent s = InAccept \<and> f_backlog s = [] \<and> f_kids s = [] \<and> f_zombies s = 0"
proof -
  have p: "f_parent s = InAccept" using assms(1,2) by (cases "f_parent s") (auto simp: fork_idle_def)
  moreover have "f_kids s = []"
  proof (cases "f_kids s")
    case (Cons c cs)
    then have "serv01_exec web s (FChild 0) \<noteq> None" using assms(3)
      by (cases "web c"; cases "the (web c)") (auto simp: Let_def)
    moreover have "serv01_exec web s (FChild 0) = None" using assms(1) unfolding fork_idle_def by (elim conjE allE)
    ultimately show ?thesis by contradiction
  qed simp
  ultimately show ?thesis using assms(1) by (auto simp: fork_idle_def split: list.splits if_splits)
qed

lemma serv01_inv: "serv01_main tcp_listen argv = Returns s0 \<Longrightarrow> run_events (serv01_exec web) s0 es = Some s \<Longrightarrow> fork_inv web s"
  by (rule fork01.run_Inv [rotated]) (auto simp: serv01_main_def fork_inv_def split: if_splits)

lemma filter_mset_split:
  assumes "mset xs = mset (map fst as) + mset bs" "\<And>a. a \<in> set as \<Longrightarrow> P (fst a)" "\<And>b. b \<in> set bs \<Longrightarrow> \<not> P b"
  shows "mset (map fst as) = filter_mset P (mset xs)"
proof -
  have "filter_mset P (mset (map fst as)) = mset (map fst as)" using assms(2) by (subst mset_filter [symmetric]) (auto intro: filter_True)
  moreover have "filter_mset P (mset bs) = {#}" using assms(3) by (subst mset_filter [symmetric]) (auto simp: filter_empty_conv)
  ultimately show ?thesis unfolding assms(1) by simp
qed

section \<open>One thread per connection\<close>

text \<open>
  The main thread accepts and creates a thread with the descriptor as its argument; \<open>doit\<close> serves it and closes it. A
  thread that ends with an error ends the process.
\<close>

record 'c thread_server =
  t_backlog :: "'c list"
  t_main :: "'c parent_pc"
  t_threads :: "'c list"
  t_arrived :: "'c list"
  t_accepted :: "'c list"
  t_answered :: "('c \<times> string) list"
  t_lost :: "'c list"

datatype 'c thread_event = TConnect 'c | TAccept | TCreate | TDoit nat

fun serv06_exec :: "('c \<Rightarrow> string outcome option) \<Rightarrow> 'c thread_server \<Rightarrow> 'c thread_event \<Rightarrow> 'c thread_server option" where
  "serv06_exec web s (TConnect c) = Some (s\<lparr>t_backlog := t_backlog s @ [c], t_arrived := t_arrived s @ [c]\<rparr>)"
| "serv06_exec web s TAccept =
     (case (t_main s, t_backlog s) of
        (InAccept, c # cs) \<Rightarrow> Some (s\<lparr>t_backlog := cs, t_main := AfterAccept c, t_accepted := t_accepted s @ [c]\<rparr>)
      | _ \<Rightarrow> None)"
| "serv06_exec web s TCreate =
     (case t_main s of
        AfterAccept c \<Rightarrow> Some (s\<lparr>t_main := InAccept, t_threads := t_threads s @ [c]\<rparr>)
      | _ \<Rightarrow> None)"
| "serv06_exec web s (TDoit i) =
     (if i < length (t_threads s)
      then let c = t_threads s ! i in
           (case web c of
              None \<Rightarrow> None
            | Some (Returns out) \<Rightarrow>
                Some (s\<lparr>t_threads := take i (t_threads s) @ drop (Suc i) (t_threads s), t_answered := t_answered s @ [(c, out)]\<rparr>)
            | Some (Dies m) \<Rightarrow>
                Some (s\<lparr>t_main := ParentDied, t_threads := [], t_lost := t_lost s @ t_threads s @ in_hand (t_main s)\<rparr>))
      else None)"

definition serv06_main :: "(string option \<Rightarrow> string \<Rightarrow> bool) \<Rightarrow> string list \<Rightarrow> 'c thread_server outcome" where
  "serv06_main tcp_listen argv =
     bind_outcome
       (if length argv = 2 then Returns (tcp_listen None (argv ! 1))
        else if length argv = 3 then Returns (tcp_listen (Some (argv ! 1)) (argv ! 2))
        else Dies ''usage: serv06 [ <host> ] <port#>'')
       (\<lambda>listening.
          if listening
          then Returns \<lparr>t_backlog = [], t_main = InAccept, t_threads = [], t_arrived = [], t_accepted = [], t_answered = [], t_lost = []\<rparr>
          else Dies ''tcp_listen error'')"

definition thread_inv :: "('c \<Rightarrow> string outcome option) \<Rightarrow> 'c thread_server \<Rightarrow> bool" where
  "thread_inv web s \<longleftrightarrow> t_arrived s = t_accepted s @ t_backlog s \<and>
     mset (t_accepted s) = mset (map fst (t_answered s)) + mset (t_lost s) + mset (t_threads s) + mset (in_hand (t_main s)) \<and>
     (\<forall>a \<in> set (t_answered s). web (fst a) = Some (Returns (snd a))) \<and>
     (t_main s = ParentDied \<or> t_lost s \<noteq> [] \<longrightarrow> (\<exists>c \<in> set (t_arrived s). \<exists>m. web c = Some (Dies m))) \<and>
     (\<forall>c. t_main s \<noteq> AfterFork c)"

fun main_left :: "'c parent_pc \<Rightarrow> nat" where
  "main_left (AfterAccept c) = 2"
| "main_left _ = 0"

definition thread_left :: "'c thread_server \<Rightarrow> nat" where
  "thread_left s = 3 * length (t_backlog s) + main_left (t_main s) + length (t_threads s)"

definition own_thread :: "'c thread_event \<Rightarrow> bool" where
  "own_thread e \<longleftrightarrow> (case e of TConnect c \<Rightarrow> False | _ \<Rightarrow> True)"

lemma thread_inv_exec:
  assumes inv: "thread_inv web s" and ex: "serv06_exec web s e = Some t"
  shows "thread_inv web t"
proof (cases e)
  case (TDoit i)
  then have i: "i < length (t_threads s)" using ex by (auto split: if_splits)
  have "t_threads s ! i \<in># mset (t_accepted s)" using inv i unfolding thread_inv_def by simp
  then have in_arrived: "t_threads s ! i \<in> set (t_arrived s)" using inv by (simp add: thread_inv_def)
  consider out where "web (t_threads s ! i) = Some (Returns out)"
      "t = s\<lparr>t_threads := take i (t_threads s) @ drop (Suc i) (t_threads s), t_answered := t_answered s @ [(t_threads s ! i, out)]\<rparr>"
    | m where "web (t_threads s ! i) = Some (Dies m)"
      "t = s\<lparr>t_main := ParentDied, t_threads := [], t_lost := t_lost s @ t_threads s @ in_hand (t_main s)\<rparr>"
    using ex TDoit i by (auto simp: Let_def split: option.splits outcome.splits)
  then show ?thesis
  proof cases
    case 1
    with mset_remove_nth [OF i] inv show ?thesis unfolding thread_inv_def by auto
  next
    case 2
    with in_arrived have "\<exists>c \<in> set (t_arrived s). \<exists>m. web c = Some (Dies m)" by blast
    with 2 inv show ?thesis by (simp add: thread_inv_def)
  qed
next
  case (TConnect c)
  with inv ex show ?thesis by (auto simp: thread_inv_def)
qed (use inv ex in \<open>auto simp: thread_inv_def split: parent_pc.splits list.splits\<close>)

interpretation thread06: measured_system "serv06_exec web" "thread_inv web" thread_left own_thread 3 for web
proof
  fix web :: "'c \<Rightarrow> string outcome option" and s t e
  assume inv: "thread_inv web s" and ex: "serv06_exec web s e = Some t"
  show "thread_inv web t" by (rule thread_inv_exec [OF inv ex])
  show "thread_left t < thread_left s" if "own_thread e"
    using ex that by (cases e) (auto simp: thread_left_def own_thread_def Let_def split: if_splits parent_pc.splits list.splits option.splits outcome.splits)
  show "thread_left t \<le> thread_left s + 3" if "\<not> own_thread e"
    using ex that by (cases e) (auto simp: thread_left_def own_thread_def split: if_splits)
qed

lemma serv06_inv: "serv06_main tcp_listen argv = Returns s0 \<Longrightarrow> run_events (serv06_exec web) s0 es = Some s \<Longrightarrow> thread_inv web s"
  by (rule thread06.run_Inv [rotated]) (auto simp: serv06_main_def thread_inv_def split: if_splits)

section \<open>Properties\<close>



text \<open>
  \<open>serv06\<close> answers every connection when all requests are well formed, in three steps for each; a lost connection or the end of the
  server is due to a malformed one.
\<close>

lemma serv06_answers:
  assumes "serv06_main tcp_listen argv = Returns s0" "run_events (serv06_exec (serve result)) s0 es = Some s"
    "\<forall>c \<in> set (t_arrived s). \<exists>out. serve result c = Some (Returns out)"
    "\<forall>e. own_thread e \<longrightarrow> serv06_exec (serve result) s e = None"
  shows "length (filter own_thread es) \<le> 3 * length (filter (\<lambda>e. \<not> own_thread e) es) \<and> mset (map fst (t_answered s)) = mset (t_arrived s)"
proof
  have inv: "thread_inv (serve result) s" by (rule serv06_inv [OF assms(1,2)])
  have "thread_inv (serve result) s0" "thread_left s0 = 0"
    using assms(1) by (auto simp: serv06_main_def thread_inv_def thread_left_def split: if_splits)
  with thread06.run_bound [OF _ assms(2)]
  show "length (filter own_thread es) \<le> 3 * length (filter (\<lambda>e. \<not> own_thread e) es)" by fastforce
  have "\<not> (\<exists>c \<in> set (t_arrived s). \<exists>m. serve result c = Some (Dies m))" using assms(3) by force
  then have ok: "t_main s \<noteq> ParentDied" "t_lost s = []" "\<forall>c. t_main s \<noteq> AfterFork c" using inv unfolding thread_inv_def by blast+
  have b: "serv06_exec (serve result) s TAccept = None" "serv06_exec (serve result) s TCreate = None"
    "serv06_exec (serve result) s (TDoit 0) = None"
    using assms(4) by (simp_all add: own_thread_def del: serv06_exec.simps)
  have m: "t_main s = InAccept" using ok b(2) by (cases "t_main s") auto
  have "t_threads s = []"
  proof (cases "t_threads s")
    case (Cons c cs)
    have "c \<in># mset (t_accepted s)" using inv Cons unfolding thread_inv_def by simp
    then have "c \<in> set (t_arrived s)" using inv by (simp add: thread_inv_def)
    with assms(3) b(3) Cons show ?thesis by (auto simp: Let_def)
  qed simp
  with inv ok(2) m b(1) show "mset (map fst (t_answered s)) = mset (t_arrived s)"
    by (auto simp: thread_inv_def split: list.splits)
qed

end
