(* ===== verification/Clients.thy ===== *)
theory Clients
  imports Accept_Correct
begin

text \<open>
  The clients that load the servers (\<open>client.c\<close>, \<open>clientrst.c\<close> of \<open>person/client_server\<close>): each child makes a number of
  connections, asks for a number of bytes on each and ends the process if it gets fewer. A server is a parameter: what the
  client can read on its \<open>j\<close>-th connection after it has sent its request.
\<close>

text \<open>\<open>snprintf\<close> of \<open>%d\<close> and a newline; the text is far shorter than \<open>MAXLINE\<close>.\<close>

definition client_request :: "int \<Rightarrow> string" where
  "client_request nbytes = int_text nbytes @ [NEWLINE]"

text \<open>The number of bytes as the argument of \<open>Readn\<close>, a \<open>size_t\<close>.\<close>

definition as_size :: "int \<Rightarrow> nat" where
  "as_size n = nat (n mod 2 ^ 64)"

text \<open>
  The loop of a child: the number of the connection and how many are left. \<open>server j\<close> is the answer to the request on
  connection \<open>j\<close>, or the message with which connecting or writing ends the process.
\<close>

fun client_loop :: "(nat \<Rightarrow> string \<Rightarrow> rdfd outcome) \<Rightarrow> int \<Rightarrow> nat \<Rightarrow> nat \<Rightarrow> nat outcome" where
  "client_loop server nbytes j 0 = Returns j"
| "client_loop server nbytes j (Suc nloops) =
     bind_outcome (server j (client_request nbytes)) (\<lambda>fd.
       if fst (fst (readn fd (as_size nbytes) [])) = - 1 then Dies ''readn error''
       else if fst (fst (readn fd (as_size nbytes) [])) \<noteq> nbytes then Dies ''server returned'' else client_loop server nbytes (j + 1) nloops)"

text \<open>
  The main function: the children's ends, in the order they were made; the parent waits for all of them. \<open>server i\<close> is what child
  \<open>i\<close> sees.
\<close>

definition client_main :: "(nat \<Rightarrow> nat \<Rightarrow> string \<Rightarrow> rdfd outcome) \<Rightarrow> string list \<Rightarrow> nat outcome list outcome" where
  "client_main server argv =
     (if length argv \<noteq> 6 then Dies ''usage: client <hostname or IPaddr> <port> <#children> <#loops/child> <#bytes/request>''
      else let nchildren = atoi (argv ! 3); nloops = atoi (argv ! 4); nbytes = atoi (argv ! 5) in
           Returns (map (\<lambda>i. client_loop (server i) nbytes 0 (nat nloops)) [0..<nat nchildren]))"

text \<open>
  The second client also resets every third connection of its third child and connects again; \<open>reset i j\<close> ends the process if
  this fails.
\<close>

fun clientrst_loop ::
  "(nat \<Rightarrow> nat \<Rightarrow> unit outcome) \<Rightarrow> (nat \<Rightarrow> string \<Rightarrow> rdfd outcome) \<Rightarrow> nat \<Rightarrow> int \<Rightarrow> nat \<Rightarrow> nat \<Rightarrow> nat outcome" where
  "clientrst_loop reset server i nbytes j 0 = Returns j"
| "clientrst_loop reset server i nbytes j (Suc nloops) =
     bind_outcome (if i = 2 \<and> j mod 3 = 0 then reset i j else Returns ()) (\<lambda>_.
     bind_outcome (server j (client_request nbytes)) (\<lambda>fd.
       if fst (fst (readn fd (as_size nbytes) [])) = - 1 then Dies ''readn error''
       else if fst (fst (readn fd (as_size nbytes) [])) \<noteq> nbytes then Dies ''server returned''
       else clientrst_loop reset server i nbytes (j + 1) nloops))"

definition clientrst_main ::
  "(nat \<Rightarrow> nat \<Rightarrow> unit outcome) \<Rightarrow> (nat \<Rightarrow> nat \<Rightarrow> string \<Rightarrow> rdfd outcome) \<Rightarrow> string list \<Rightarrow> nat outcome list outcome" where
  "clientrst_main reset server argv =
     (if length argv \<noteq> 6 then Dies ''usage: client <hostname or IPaddr> <port> <#children> <#loops/child> <#bytes/request>''
      else let nchildren = atoi (argv ! 3); nloops = atoi (argv ! 4); nbytes = atoi (argv ! 5) in
           Returns (map (\<lambda>i. clientrst_loop reset (server i) i nbytes 0 (nat nloops)) [0..<nat nchildren]))"

section \<open>A client and a server\<close>

text \<open>
  The server runs \<open>web_child\<close> on what the client sends, and the client reads what it has sent, however the network cuts both
  into pieces. A connection whose child ended shows the end of the stream.
\<close>

definition talks_to :: "string \<Rightarrow> string \<Rightarrow> (string \<Rightarrow> rdfd outcome) \<Rightarrow> bool" where
  "talks_to result req server \<longleftrightarrow>
     (\<exists>fd sfd es. server req = Returns fd \<and> quiet sfd \<and> stream sfd = req \<and> accepts MAXN es \<and> retry fd \<and>
        (case web_child result sfd es of
           Some (Returns out) \<Rightarrow> stream fd = out
         | Some (Dies m) \<Rightarrow> stream fd = []
         | None \<Rightarrow> False))"

lemma client_request_nat: "client_request (int k) = request k"
  by (simp add: client_request_def int_text_def request_def)

lemma readn_all:
  assumes "retry fd"
  shows "fst (fst (readn fd n [])) = int (min n (length (stream fd)))"
  using readn_stream [OF assms, of n "[]"] by (simp add: min.commute)

lemma accepts_mono: "accepts m es \<Longrightarrow> n \<le> m \<Longrightarrow> accepts n es"
  by (auto simp: accepts_def)

lemma exchange:
  assumes "talks_to result (client_request (int k)) server" "1 \<le> k" "k \<le> MAXN" "length result = MAXN"
  shows "\<exists>fd. server (client_request (int k)) = Returns fd \<and> fst (fst (readn fd (as_size (int k)) [])) = int k"
proof -
  from assms(1) obtain fd sfd es where
    fd: "server (request k) = Returns fd" "quiet sfd" "stream sfd = request k" "accepts MAXN es" "retry fd"
    "case web_child result sfd es of Some (Returns out) \<Rightarrow> stream fd = out | Some (Dies m) \<Rightarrow> stream fd = [] | None \<Rightarrow> False"
    unfolding talks_to_def client_request_nat by blast
  have "web_child result sfd es = Some (Returns (take k result))"
    using web_child_returns [of sfd "[k]" result es] fd assms(2-) accepts_mono [OF fd(4) assms(3)] by simp
  then have "length (stream fd) = k" using fd(6) assms(3,4) by simp
  moreover have "as_size (int k) = k" using assms(3) by (simp add: as_size_def MAXN_def)
  ultimately show ?thesis using readn_all [OF fd(5), of k] fd(1) by (simp add: client_request_nat)
qed

lemma client_loop_done:
  assumes "\<And>j. talks_to result (client_request (int k)) (server j)" "1 \<le> k" "k \<le> MAXN" "length result = MAXN"
  shows "client_loop server (int k) j n = Returns (j + n)"
proof (induction n arbitrary: j)
  case (Suc n)
  from exchange [OF assms(1) [of j] assms(2-)] Suc [of "j + 1"] show ?case by auto
qed simp

lemma clientrst_loop_done:
  assumes "\<And>j. talks_to result (client_request (int k)) (server j)" "1 \<le> k" "k \<le> MAXN" "length result = MAXN" "\<And>i j. reset i j = Returns ()"
  shows "clientrst_loop reset server i (int k) j n = Returns (j + n)"
proof (induction n arbitrary: j)
  case (Suc n)
  from exchange [OF assms(1) [of j] assms(2-4)] Suc [of "j + 1"] assms(5) show ?case by auto
qed simp

section \<open>Properties\<close>



text \<open>
  Asking for more than the server gives makes the client end, after the server's child has ended on the request.
\<close>

lemma client_asks_too_much:
  assumes "server 0 (client_request nbytes) = Returns []" "0 < nbytes" "nbytes < 2 ^ 31"
  shows "client_loop server nbytes 0 (Suc n) = Dies ''server returned''"
  using assms readn_all [of "[]" "as_size nbytes"] by simp

end
