(* ===== verification/Dllist.thy ===== *)
theory Dllist
  imports Prelude
begin

text \<open>
  Doubly linked lists in a heap: reading and writing through pointers, the two chains of links that make such a list, and
  the contract \<open>deque\<close> of its operations (append, insert at the head, unlink), with the refinement of
  sequences of operations to a list. The job list of the printer daemon (\<open>Print_Jobs\<close>) and the queue under a read-write
  lock (\<open>Rw_Jobs\<close>) implement it.
\<close>

section \<open>Pointers\<close>

text \<open>Reading through the null pointer, or through a pointer to memory that is not allocated, ends the process.\<close>

definition load :: "(nat \<Rightarrow> 'r option) \<Rightarrow> nat option \<Rightarrow> 'r outcome" where
  "load h p = (case p of None \<Rightarrow> Dies ''SIGSEGV''
     | Some a \<Rightarrow> (case h a of None \<Rightarrow> Dies ''SIGSEGV'' | Some r \<Rightarrow> Returns r))"

definition store :: "(nat \<Rightarrow> 'r option) \<Rightarrow> nat option \<Rightarrow> ('r \<Rightarrow> 'r) \<Rightarrow> (nat \<Rightarrow> 'r option) outcome" where
  "store h p f = bind_outcome (load h p) (\<lambda>r. Returns (h(the p \<mapsto> f r)))"

lemma load_simps [simp]:
  "load h None = Dies ''SIGSEGV''" "h a = Some r \<Longrightarrow> load h (Some a) = Returns r"
  "h a = None \<Longrightarrow> load h (Some a) = Dies ''SIGSEGV''"
  by (auto simp: load_def)

lemma store_simps [simp]:
  "store h None f = Dies ''SIGSEGV''" "h a = Some r \<Longrightarrow> store h (Some a) f = Returns (h(a \<mapsto> f r))"
  "h a = None \<Longrightarrow> store h (Some a) f = Dies ''SIGSEGV''"
  by (auto simp: store_def)

text \<open>The links that a field of the cells makes.\<close>

definition link :: "('r \<Rightarrow> nat option) \<Rightarrow> (nat \<Rightarrow> 'r option) \<Rightarrow> nat \<Rightarrow> nat option" where
  "link g h a = (case h a of None \<Rightarrow> None | Some r \<Rightarrow> g r)"

lemma link_at [simp]: "h a = Some r \<Longrightarrow> link g h a = g r"
  by (simp add: link_def)

lemma link_upd: "link g (h(a \<mapsto> r)) = (link g h)(a := g r)"
  by (auto simp: link_def)

lemma link_free: "link g (h(a := None)) = (link g h)(a := None)"
  by (auto simp: link_def)

lemma chain_link_frame: "a \<notin> set as \<Longrightarrow> chain (link g (h(a := x))) p as = chain (link g h) p as"
  by (rule chain_cong) (auto simp: link_def)

section \<open>Two chains\<close>

definition dchain :: "(nat \<Rightarrow> nat option) \<Rightarrow> (nat \<Rightarrow> nat option) \<Rightarrow> nat option \<Rightarrow> nat option \<Rightarrow> nat list \<Rightarrow> bool" where
  "dchain nxt prv head tail as \<longleftrightarrow> chain nxt head as \<and> chain prv tail (rev as)"

lemma dchain_rev: "dchain nxt prv head tail as \<longleftrightarrow> dchain prv nxt tail head (rev as)"
  by (auto simp: dchain_def)

lemma dchain_distinct: "dchain nxt prv head tail as \<Longrightarrow> distinct as"
  by (auto simp: dchain_def dest: chain_distinct)

lemma dchain_unique: "dchain nxt prv head tail as \<Longrightarrow> dchain nxt prv head tail bs \<Longrightarrow> as = bs"
  by (auto simp: dchain_def dest: chain_unique)

lemma dchain_ends: "dchain nxt prv head tail as \<Longrightarrow> head = cut_ptr as \<and> tail = cut_ptr (rev as)"
  by (auto simp: dchain_def dest: chain_hd)

text \<open>One chain, after a cell is put behind its last cell or before its first, or taken out.\<close>

lemma chain_push: "chain nxt p as \<Longrightarrow> a \<notin> set as \<Longrightarrow> chain (nxt(a := p)) (Some a) (a # as)"
  by simp

lemma chain_snoc:
  assumes "chain nxt p as" "a \<notin> set as"
  shows "as = [] \<Longrightarrow> chain (nxt(a := None)) (Some a) (as @ [a])"
    and "as = bs @ [b] \<Longrightarrow> chain (nxt(a := None, b := Some a)) p (as @ [a])"
proof -
  show "chain (nxt(a := None)) (Some a) (as @ [a])" if "as = []" using that by simp
  show "chain (nxt(a := None, b := Some a)) p (as @ [a])" if "as = bs @ [b]"
    using assms that chain_distinct [OF assms(1)] by (auto simp: chain_append chain_to_append)
qed

lemma chain_skip:
  assumes "chain nxt p (us @ a # vs)"
  shows "nxt a = cut_ptr vs"
    and "us = [] \<Longrightarrow> chain nxt (cut_ptr vs) vs"
    and "us = ws @ [b] \<Longrightarrow> chain (nxt(b := cut_ptr vs)) p (us @ vs)"
proof -
  have vs: "chain nxt (nxt a) vs" using assms by (auto simp: chain_append)
  show n: "nxt a = cut_ptr vs" using chain_hd [OF vs] .
  show "chain nxt (cut_ptr vs) vs" if "us = []" using vs n by simp
  show "chain (nxt(b := cut_ptr vs)) p (us @ vs)" if "us = ws @ [b]"
    using assms that vs n chain_distinct [OF assms] by (auto simp: chain_append chain_to_append)
qed

section \<open>The contract\<close>

text \<open>
  \<open>rep q xs\<close> says that the cells \<open>xs\<close> are linked in this order, \<open>item q\<close> is what is in the allocated cells.
  Every operation returns, moves one cell and leaves the contents of all cells alone.
\<close>

datatype 'x deque_op = Append 'x | Insert 'x | Unlink 'x

fun spec_op :: "'x deque_op \<Rightarrow> 'x list \<Rightarrow> 'x list option" where
  "spec_op (Append x) xs = (if x \<in> set xs then None else Some (xs @ [x]))"
| "spec_op (Insert x) xs = (if x \<in> set xs then None else Some (x # xs))"
| "spec_op (Unlink x) xs = (if x \<in> set xs then Some (remove1 x xs) else None)"

fun cell_of :: "'x deque_op \<Rightarrow> 'x" where
  "cell_of (Append x) = x"
| "cell_of (Insert x) = x"
| "cell_of (Unlink x) = x"

fun spec_run :: "'x deque_op list \<Rightarrow> 'x list \<Rightarrow> 'x list option" where
  "spec_run [] xs = Some xs"
| "spec_run (c # cs) xs = (case spec_op c xs of None \<Rightarrow> None | Some ys \<Rightarrow> spec_run cs ys)"

locale deque =
  fixes rep :: "'q \<Rightarrow> 'x list \<Rightarrow> bool" and item :: "'q \<Rightarrow> 'x \<Rightarrow> 'd option"
    and append_op :: "'x \<Rightarrow> 'q \<Rightarrow> 'q outcome" and insert_op :: "'x \<Rightarrow> 'q \<Rightarrow> 'q outcome"
    and unlink_op :: "'x \<Rightarrow> 'q \<Rightarrow> 'q outcome"
  assumes rep_cells: "rep q xs \<Longrightarrow> distinct xs \<and> set xs \<subseteq> dom (item q)"
    and append_law: "rep q xs \<Longrightarrow> x \<in> dom (item q) - set xs \<Longrightarrow>
      \<exists>q'. append_op x q = Returns q' \<and> rep q' (xs @ [x]) \<and> item q' = item q"
    and insert_law: "rep q xs \<Longrightarrow> x \<in> dom (item q) - set xs \<Longrightarrow>
      \<exists>q'. insert_op x q = Returns q' \<and> rep q' (x # xs) \<and> item q' = item q"
    and unlink_law: "rep q (us @ x # vs) \<Longrightarrow>
      \<exists>q'. unlink_op x q = Returns q' \<and> rep q' (us @ vs) \<and> item q' = item q"
begin

fun exec :: "'x deque_op \<Rightarrow> 'q \<Rightarrow> 'q outcome" where
  "exec (Append x) q = append_op x q"
| "exec (Insert x) q = insert_op x q"
| "exec (Unlink x) q = unlink_op x q"

fun exec_run :: "'x deque_op list \<Rightarrow> 'q \<Rightarrow> 'q outcome" where
  "exec_run [] q = Returns q"
| "exec_run (c # cs) q = bind_outcome (exec c q) (exec_run cs)"

text \<open>One operation refines its specification on the list.\<close>

lemma exec_refines:
  assumes "rep q xs" "spec_op c xs = Some ys" "cell_of c \<in> dom (item q)"
  shows "\<exists>q'. exec c q = Returns q' \<and> rep q' ys \<and> item q' = item q"
proof (cases c)
  case (Append x)
  with assms append_law [of q xs x] show ?thesis by (auto split: if_splits)
next
  case (Insert x)
  with assms insert_law [of q xs x] show ?thesis by (auto split: if_splits)
next
  case (Unlink x)
  with assms have "x \<in> set xs" by (auto split: if_splits)
  then obtain us vs where d: "xs = us @ x # vs" "x \<notin> set us" using split_list_first [of x] by blast
  with assms(2) Unlink have "ys = us @ vs" by (auto simp: remove1_append)
  with unlink_law [of q us x vs] assms(1) Unlink d show ?thesis by simp
qed

text \<open>So does every sequence.\<close>

lemma run_refines:
  assumes "rep q xs" "spec_run cs xs = Some ys" "cell_of ` set cs \<subseteq> dom (item q)"
  shows "\<exists>q'. exec_run cs q = Returns q' \<and> rep q' ys \<and> item q' = item q"
  using assms
proof (induction cs arbitrary: q xs)
  case Nil
  then show ?case by simp
next
  case (Cons c cs)
  then obtain zs where zs: "spec_op c xs = Some zs" "spec_run cs zs = Some ys" by (auto split: option.splits)
  with exec_refines [of q xs c zs] Cons.prems obtain q1 where
    q1: "exec c q = Returns q1" "rep q1 zs" "item q1 = item q" by auto
  then obtain q' where "exec_run cs q1 = Returns q'" "rep q' ys" "item q' = item q1"
    using Cons.IH [OF q1(2) zs(2)] Cons.prems(3) by auto
  with q1 show ?case by simp
qed

text \<open>The first cell taken out and put back at the head.\<close>

lemma unlink_insert:
  assumes "rep q (x # xs)"
  shows "\<exists>q1 q2. unlink_op x q = Returns q1 \<and> rep q1 xs \<and> insert_op x q1 = Returns q2 \<and> rep q2 (x # xs) \<and> item q2 = item q"
proof -
  from unlink_law [of q "[]" x xs] assms obtain q1 where
    q1: "unlink_op x q = Returns q1" "rep q1 xs" "item q1 = item q" by auto
  with insert_law [of q1 xs x] rep_cells [OF assms] show ?thesis by auto
qed

end

end
