(* ===== verification/Rw_Jobs.thy ===== *)
theory Rw_Jobs
  imports Dllist
begin

text \<open>
  The queue of jobs under a read-write lock of \<open>extra_lib/apue.3e/threads/rwlock.c\<close>: jobs are inserted at the head, appended at
  the tail, removed anywhere, and found by the thread that is to handle them. The write lock makes each operation one
  step. The queue implements \<open>deque\<close>.
\<close>

record rwjob =
  j_next :: "nat option"
  j_prev :: "nat option"
  j_id :: nat

record rwqueue =
  q_heap :: "nat \<Rightarrow> rwjob option"
  q_head :: "nat option"
  q_tail :: "nat option"

text \<open>\<open>err\<close> is the result of \<open>pthread_rwlock_init\<close>.\<close>

definition queue_init :: "int \<Rightarrow> rwqueue \<Rightarrow> int \<times> rwqueue" where
  "queue_init err q = (let q1 = q\<lparr>q_head := None, q_tail := None\<rparr> in if err \<noteq> 0 then (err, q1) else (0, q1))"

definition job_insert :: "nat \<Rightarrow> rwqueue \<Rightarrow> rwqueue outcome" where
  "job_insert jp q =
     bind_outcome (store (q_heap q) (Some jp) (\<lambda>j. j\<lparr>j_next := q_head q\<rparr>)) (\<lambda>h0.
     bind_outcome (store h0 (Some jp) (\<lambda>j. j\<lparr>j_prev := None\<rparr>)) (\<lambda>h1.
       case q_head q of
         Some f \<Rightarrow> bind_outcome (store h1 (Some f) (\<lambda>j. j\<lparr>j_prev := Some jp\<rparr>)) (\<lambda>h2.
           Returns (q\<lparr>q_heap := h2, q_head := Some jp\<rparr>))
       | None \<Rightarrow> Returns (q\<lparr>q_heap := h1, q_tail := Some jp, q_head := Some jp\<rparr>)))"

definition job_append :: "nat \<Rightarrow> rwqueue \<Rightarrow> rwqueue outcome" where
  "job_append jp q =
     bind_outcome (store (q_heap q) (Some jp) (\<lambda>j. j\<lparr>j_next := None\<rparr>)) (\<lambda>h0.
     bind_outcome (store h0 (Some jp) (\<lambda>j. j\<lparr>j_prev := q_tail q\<rparr>)) (\<lambda>h1.
       case q_tail q of
         Some t \<Rightarrow> bind_outcome (store h1 (Some t) (\<lambda>j. j\<lparr>j_next := Some jp\<rparr>)) (\<lambda>h2.
           Returns (q\<lparr>q_heap := h2, q_tail := Some jp\<rparr>))
       | None \<Rightarrow> Returns (q\<lparr>q_heap := h1, q_head := Some jp, q_tail := Some jp\<rparr>)))"

definition job_remove :: "nat \<Rightarrow> rwqueue \<Rightarrow> rwqueue outcome" where
  "job_remove jp q =
     bind_outcome (load (q_heap q) (Some jp)) (\<lambda>j.
       if Some jp = q_head q then
         (if q_tail q = Some jp then Returns (q\<lparr>q_head := j_next j, q_tail := None\<rparr>)
          else bind_outcome (store (q_heap q) (j_next j) (\<lambda>k. k\<lparr>j_prev := j_prev j\<rparr>)) (\<lambda>h.
            Returns (q\<lparr>q_head := j_next j, q_heap := h\<rparr>)))
       else if Some jp = q_tail q then
         bind_outcome (store (q_heap q) (j_prev j) (\<lambda>k. k\<lparr>j_next := j_next j\<rparr>)) (\<lambda>h.
           Returns (q\<lparr>q_tail := j_prev j, q_heap := h\<rparr>))
       else
         bind_outcome (store (q_heap q) (j_prev j) (\<lambda>k. k\<lparr>j_next := j_next j\<rparr>)) (\<lambda>h.
         bind_outcome (store h (j_next j) (\<lambda>k. k\<lparr>j_prev := j_prev j\<rparr>)) (\<lambda>h1.
           Returns (q\<lparr>q_heap := h1\<rparr>))))"

text \<open>
  \<open>job_find\<close> follows the list; \<open>None\<close> is a loop that does not end. \<open>locked\<close> is the result of \<open>pthread_rwlock_rdlock\<close>.
\<close>

partial_function (option) job_find_loop :: "(nat \<Rightarrow> rwjob option) \<Rightarrow> nat \<Rightarrow> nat option \<Rightarrow> nat option outcome option" where
  "job_find_loop h i jp =
     (case jp of
        None \<Rightarrow> Some (Returns None)
      | Some a \<Rightarrow>
          (case h a of
             None \<Rightarrow> Some (Dies ''SIGSEGV'')
           | Some j \<Rightarrow> if j_id j = i then Some (Returns jp) else job_find_loop h i (j_next j)))"

definition job_find :: "int \<Rightarrow> nat \<Rightarrow> rwqueue \<Rightarrow> nat option outcome option" where
  "job_find locked i q = (if locked \<noteq> 0 then Some (Returns None) else job_find_loop (q_heap q) i (q_head q))"

section \<open>The representation\<close>

definition rwq_rep :: "rwqueue \<Rightarrow> nat list \<Rightarrow> bool" where
  "rwq_rep q as \<longleftrightarrow> dchain (link j_next (q_heap q)) (link j_prev (q_heap q)) (q_head q) (q_tail q) as \<and> set as \<subseteq> dom (q_heap q)"

definition rwq_item :: "rwqueue \<Rightarrow> nat \<Rightarrow> nat option" where
  "rwq_item q a = map_option j_id (q_heap q a)"

lemma dom_rwq_item [simp]: "dom (rwq_item q) = dom (q_heap q)"
  by (auto simp: rwq_item_def)

lemma rwq_rep_cells: "rwq_rep q as \<Longrightarrow> distinct as \<and> set as \<subseteq> dom (rwq_item q)"
  by (auto simp: rwq_rep_def dest: dchain_distinct)

lemma rwq_chains:
  "rwq_rep q as \<Longrightarrow> chain (link j_next (q_heap q)) (q_head q) as \<and> chain (link j_prev (q_heap q)) (q_tail q) (rev as)"
  by (simp add: rwq_rep_def dchain_def)

lemmas rwq_defs = rwq_rep_def dchain_def link_upd rwq_item_def fun_eq_iff fun_upd_idem

lemma job_append_rep:
  assumes "rwq_rep q as" "x \<in> dom (rwq_item q) - set as"
  shows "\<exists>q'. job_append x q = Returns q' \<and> rwq_rep q' (as @ [x]) \<and> rwq_item q' = rwq_item q"
proof -
  obtain j where j: "q_heap q x = Some j" and x: "x \<notin> set as" using assms(2) by auto
  note c = conjunct1 [OF rwq_chains [OF assms(1)]] conjunct2 [OF rwq_chains [OF assms(1)]]
  show ?thesis
  proof (cases as rule: rev_cases)
    case Nil
    with assms(1) j show ?thesis by (auto simp: job_append_def rwq_defs)
  next
    case (snoc bs b)
    then obtain k where "q_heap q b = Some k" "b \<noteq> x" "q_tail q = Some b" using assms(1) x c by (auto simp: rwq_rep_def)
    then show ?thesis using chain_snoc(2) [OF c(1) x snoc] chain_push [OF c(2), of x] x j assms(1)
      by (auto simp: job_append_def rwq_defs)
  qed
qed

lemma job_insert_rep:
  assumes "rwq_rep q as" "x \<in> dom (rwq_item q) - set as"
  shows "\<exists>q'. job_insert x q = Returns q' \<and> rwq_rep q' (x # as) \<and> rwq_item q' = rwq_item q"
proof -
  obtain j where j: "q_heap q x = Some j" and x: "x \<notin> set as" using assms(2) by auto
  note c = conjunct1 [OF rwq_chains [OF assms(1)]] conjunct2 [OF rwq_chains [OF assms(1)]]
  show ?thesis
  proof (cases as)
    case Nil
    with assms(1) j show ?thesis by (auto simp: job_insert_def rwq_defs)
  next
    case (Cons b bs)
    then obtain k where "q_heap q b = Some k" "b \<noteq> x" "q_head q = Some b" using assms(1) x c by (auto simp: rwq_rep_def)
    then show ?thesis using chain_snoc(2) [OF c(2), of x "rev bs" b] chain_push [OF c(1), of x] x j assms(1) Cons
      by (auto simp: job_insert_def rwq_defs)
  qed
qed

lemma job_remove_rep:
  assumes "rwq_rep q (us @ x # vs)"
  shows "\<exists>q'. job_remove x q = Returns q' \<and> rwq_rep q' (us @ vs) \<and> rwq_item q' = rwq_item q"
proof -
  have c: "chain (link j_next (q_heap q)) (q_head q) (us @ x # vs)" "chain (link j_prev (q_heap q)) (q_tail q) (rev vs @ x # rev us)"
    using rwq_chains [OF assms] by auto
  note d = chain_distinct [OF c(1)]
  have m: "set (us @ x # vs) \<subseteq> dom (q_heap q)" using assms by (simp add: rwq_rep_def)
  have e: "q_head q = cut_ptr (us @ x # vs)" "q_tail q = cut_ptr (rev vs @ x # rev us)" using c chain_hd by auto
  obtain j where j: "q_heap q x = Some j" using m by auto
  then have jn: "j_next j = cut_ptr vs" "j_prev j = cut_ptr (rev us)"
    using chain_skip(1) [OF c(1)] chain_skip(1) [OF c(2)] by auto
  consider "us = []" "vs = []" | v ws where "us = []" "vs = v # ws" | b ws where "us = ws @ [b]" "vs = []"
    | b ts v ws where "us = ts @ [b]" "vs = v # ws"
    by (metis list.exhaust rev_exhaust)
  then show ?thesis
  proof cases
    case 1
    with j jn e show ?thesis by (auto simp: job_remove_def rwq_defs)
  next
    case 2
    then obtain k where "q_heap q v = Some k" using m by auto
    with 2 j jn e c d m chain_skip(2) [OF c(1)] chain_skip(3) [OF c(2), of "rev ws" v] show ?thesis
      by (cases ws rule: rev_cases) (auto simp: job_remove_def rwq_defs)
  next
    case 3
    then obtain k where "q_heap q b = Some k" using m by auto
    with 3 j jn e c d m chain_skip(2) [OF c(2)] chain_skip(3) [OF c(1), of ws b] show ?thesis
      by (cases ws) (auto simp: job_remove_def rwq_defs)
  next
    case 4
    then obtain k l where k: "q_heap q b = Some k" "q_heap q v = Some l" "b \<noteq> v" using d m by auto
    have "q_head q \<noteq> Some x" "q_tail q \<noteq> Some x" using e d 4 by (cases ts; cases ws rule: rev_cases; auto)+
    with k 4 j jn c d m chain_skip(3) [OF c(2), of "rev ws" v] chain_skip(3) [OF c(1), of ts b] show ?thesis
      by (auto simp: job_remove_def rwq_defs)
  qed
qed

interpretation rwq: deque rwq_rep rwq_item job_append job_insert job_remove
  by unfold_locales (fact job_append_rep job_insert_rep job_remove_rep rwq_rep_cells)+

lemma job_find_loop_chain:
  "chain (link j_next h) p as \<Longrightarrow> set as \<subseteq> dom h \<Longrightarrow>
    job_find_loop h i p = Some (Returns (List.find (\<lambda>a. map_option j_id (h a) = Some i) as))"
proof (induction as arbitrary: p)
  case Nil
  then show ?case by (subst job_find_loop.simps) simp
next
  case (Cons a as)
  then obtain j where "h a = Some j" by auto
  with Cons show ?case by (subst job_find_loop.simps) auto
qed

section \<open>Properties\<close>

text \<open>
  C31. The queue under the read-write lock is a list: whatever is inserted, appended and removed, the search of
  \<open>job_find\<close> ends and gives the first job in the resulting list that is meant for the thread, or null when there is none.
\<close>

theorem rw_job_find_correct:
  assumes "rwq_rep q as" "spec_run cs as = Some bs" "cell_of ` set cs \<subseteq> dom (q_heap q)"
  shows "\<exists>r. rwq.exec_run cs q = Returns r \<and> rwq_rep r bs \<and>
    job_find 0 i r = Some (Returns (List.find (\<lambda>a. rwq_item q a = Some i) bs))"
proof -
  obtain r where r: "rwq.exec_run cs q = Returns r" "rwq_rep r bs" "rwq_item r = rwq_item q"
    using rwq.run_refines [OF assms(1,2)] assms(3) by auto
  have "job_find 0 i r = Some (Returns (List.find (\<lambda>a. map_option j_id (q_heap r a) = Some i) bs))"
    unfolding job_find_def using job_find_loop_chain [of "q_heap r" "q_head r" bs i] r(2) by (simp add: rwq_rep_def dchain_def)
  moreover have "map_option j_id (q_heap r a) = rwq_item q a" for a using r(3) by (simp add: rwq_item_def fun_eq_iff)
  ultimately show ?thesis using r(1,2) by simp
qed

theorem rw_job_find_correct_witness:
  "\<exists>r. rwq.exec_run [Append 7, Insert 8, Append 9, Unlink 7]
      (snd (queue_init 0 \<lparr>q_heap = (\<lambda>a. Some \<lparr>j_next = None, j_prev = Some a, j_id = a div 2\<rparr>), q_head = Some 5, q_tail = None\<rparr>)) = Returns r \<and>
    job_find 0 4 r = Some (Returns (Some 8)) "
proof -
  let ?q = "snd (queue_init 0 \<lparr>q_heap = (\<lambda>a. Some \<lparr>j_next = None, j_prev = Some a, j_id = a div 2\<rparr>), q_head = Some 5, q_tail = None\<rparr>)"
  have "rwq_rep ?q []" by (simp add: rwq_rep_def dchain_def queue_init_def)
  from rw_job_find_correct [OF this, of "[Append 7, Insert 8, Append 9, Unlink 7]" "[8, 9]" 4] show ?thesis
    by (auto simp: queue_init_def rwq_item_def)
qed

end
