(* ===== verification/Print_Jobs.thy ===== *)
theory Print_Jobs
  imports Dllist Netio
begin

text \<open>
  The list of pending jobs and the job numbers of the printer daemon \<open>extra_lib/apue.3e/printer/printd.c\<close>. The jobs are
  cells of a doubly linked list in a heap. The list implements \<open>deque\<close>. The next job number is kept in a
  file as text, from which a new daemon goes on.
\<close>

section \<open>Requests and jobs\<close>

record printreq =
  req_size :: "32 word"
  req_flags :: "32 word"
  req_usernm :: string
  req_jobnm :: string

record pjob =
  pj_next :: "nat option"
  pj_prev :: "nat option"
  pj_jobid :: int
  pj_req :: printreq

record printq =
  pq_heap :: "nat \<Rightarrow> pjob option"
  jobhead :: "nat option"
  jobtail :: "nat option"

text \<open>
  \<open>add_job\<close>, from the lock on: the new cell goes behind the last one. The part before the lock fills the cell that
  \<open>malloc\<close> gives; without memory \<open>log_sys\<close> ends the daemon.
\<close>

definition add_job_link :: "nat \<Rightarrow> printq \<Rightarrow> printq outcome" where
  "add_job_link jp s =
     bind_outcome (store (pq_heap s) (Some jp) (\<lambda>j. j\<lparr>pj_next := None\<rparr>)) (\<lambda>h0.
     bind_outcome (store h0 (Some jp) (\<lambda>j. j\<lparr>pj_prev := jobtail s\<rparr>)) (\<lambda>h1.
       case jobtail s of
         None \<Rightarrow> Returns (s\<lparr>pq_heap := h1, jobhead := Some jp, jobtail := Some jp\<rparr>)
       | Some t \<Rightarrow> bind_outcome (store h1 (Some t) (\<lambda>j. j\<lparr>pj_next := Some jp\<rparr>)) (\<lambda>h2.
           Returns (s\<lparr>pq_heap := h2, jobtail := Some jp\<rparr>))))"

definition add_job :: "nat option \<Rightarrow> printreq \<Rightarrow> int \<Rightarrow> printq \<Rightarrow> printq outcome" where
  "add_job mem reqp jobid s =
     (case mem of
        None \<Rightarrow> Dies ''malloc failed''
      | Some jp \<Rightarrow> add_job_link jp
          (s\<lparr>pq_heap := (pq_heap s)(jp \<mapsto> \<lparr>pj_next = None, pj_prev = None, pj_jobid = jobid, pj_req = reqp\<rparr>)\<rparr>))"

definition replace_job :: "nat \<Rightarrow> printq \<Rightarrow> printq outcome" where
  "replace_job jp s =
     bind_outcome (store (pq_heap s) (Some jp) (\<lambda>j. j\<lparr>pj_prev := None\<rparr>)) (\<lambda>h0.
     bind_outcome (store h0 (Some jp) (\<lambda>j. j\<lparr>pj_next := jobhead s\<rparr>)) (\<lambda>h1.
       case jobhead s of
         None \<Rightarrow> Returns (s\<lparr>pq_heap := h1, jobtail := Some jp, jobhead := Some jp\<rparr>)
       | Some f \<Rightarrow> bind_outcome (store h1 (Some f) (\<lambda>j. j\<lparr>pj_prev := Some jp\<rparr>)) (\<lambda>h2.
           Returns (s\<lparr>pq_heap := h2, jobhead := Some jp\<rparr>))))"

definition remove_job :: "nat \<Rightarrow> printq \<Rightarrow> printq outcome" where
  "remove_job target s =
     bind_outcome (load (pq_heap s) (Some target)) (\<lambda>t.
     bind_outcome
       (case pj_next t of
          Some n \<Rightarrow> bind_outcome (store (pq_heap s) (Some n) (\<lambda>j. j\<lparr>pj_prev := pj_prev t\<rparr>)) (\<lambda>h.
            Returns (s\<lparr>pq_heap := h\<rparr>))
        | None \<Rightarrow> Returns (s\<lparr>jobtail := pj_prev t\<rparr>)) (\<lambda>s1.
       case pj_prev t of
         Some p \<Rightarrow> bind_outcome (store (pq_heap s1) (Some p) (\<lambda>j. j\<lparr>pj_next := pj_next t\<rparr>)) (\<lambda>h.
           Returns (s1\<lparr>pq_heap := h\<rparr>))
       | None \<Rightarrow> Returns (s1\<lparr>jobhead := pj_next t\<rparr>)))"

section \<open>The representation\<close>

definition pq_rep :: "printq \<Rightarrow> nat list \<Rightarrow> bool" where
  "pq_rep s as \<longleftrightarrow> dchain (link pj_next (pq_heap s)) (link pj_prev (pq_heap s)) (jobhead s) (jobtail s) as \<and>
     set as \<subseteq> dom (pq_heap s)"

definition pq_item :: "printq \<Rightarrow> nat \<Rightarrow> (int \<times> printreq) option" where
  "pq_item s a = map_option (\<lambda>j. (pj_jobid j, pj_req j)) (pq_heap s a)"

lemma dom_pq_item [simp]: "dom (pq_item s) = dom (pq_heap s)"
  by (auto simp: pq_item_def)

lemma pq_rep_cells: "pq_rep s as \<Longrightarrow> distinct as \<and> set as \<subseteq> dom (pq_item s)"
  by (auto simp: pq_rep_def dest: dchain_distinct)

lemma add_job_link_rep:
  assumes "pq_rep s as" "x \<in> dom (pq_item s) - set as"
  shows "\<exists>s'. add_job_link x s = Returns s' \<and> pq_rep s' (as @ [x]) \<and> pq_item s' = pq_item s"
proof -
  obtain j where j: "pq_heap s x = Some j" and x: "x \<notin> set as" using assms(2) by auto
  have c: "chain (link pj_next (pq_heap s)) (jobhead s) as" "chain (link pj_prev (pq_heap s)) (jobtail s) (rev as)"
    using assms(1) by (auto simp: pq_rep_def dchain_def)
  show ?thesis
  proof (cases as rule: rev_cases)
    case Nil
    with assms(1) j show ?thesis
      by (auto simp: add_job_link_def pq_rep_def dchain_def link_upd pq_item_def fun_eq_iff)
  next
    case (snoc bs b)
    then obtain k where k: "pq_heap s b = Some k" "b \<noteq> x" using assms(1) x by (auto simp: pq_rep_def)
    have t: "jobtail s = Some b" using c(2) snoc by simp
    show ?thesis
      using chain_snoc(2) [OF c(1) x snoc] chain_push [OF c(2), of x] x j k t assms(1)
      by (auto simp: add_job_link_def pq_rep_def dchain_def link_upd pq_item_def fun_eq_iff fun_upd_idem)
  qed
qed

lemma replace_job_rep:
  assumes "pq_rep s as" "x \<in> dom (pq_item s) - set as"
  shows "\<exists>s'. replace_job x s = Returns s' \<and> pq_rep s' (x # as) \<and> pq_item s' = pq_item s"
proof -
  obtain j where j: "pq_heap s x = Some j" and x: "x \<notin> set as" using assms(2) by auto
  have c: "chain (link pj_next (pq_heap s)) (jobhead s) as" "chain (link pj_prev (pq_heap s)) (jobtail s) (rev as)"
    using assms(1) by (auto simp: pq_rep_def dchain_def)
  show ?thesis
  proof (cases as)
    case Nil
    with assms(1) j show ?thesis
      by (auto simp: replace_job_def pq_rep_def dchain_def link_upd pq_item_def fun_eq_iff)
  next
    case (Cons b bs)
    then obtain k where k: "pq_heap s b = Some k" "b \<noteq> x" using assms(1) x by (auto simp: pq_rep_def)
    have t: "jobhead s = Some b" using c(1) Cons by simp
    show ?thesis
      using chain_snoc(2) [OF c(2), of x "rev bs" b] chain_push [OF c(1), of x] x j k t assms(1) Cons
      by (auto simp: replace_job_def pq_rep_def dchain_def link_upd pq_item_def fun_eq_iff fun_upd_idem)
  qed
qed

lemma remove_job_rep:
  assumes "pq_rep s (us @ x # vs)"
  shows "\<exists>s'. remove_job x s = Returns s' \<and> pq_rep s' (us @ vs) \<and> pq_item s' = pq_item s"
proof -
  let ?n = "link pj_next (pq_heap s)" and ?p = "link pj_prev (pq_heap s)"
  have c: "chain ?n (jobhead s) (us @ x # vs)" "chain ?p (jobtail s) (rev vs @ x # rev us)"
    and d: "set (us @ x # vs) \<subseteq> dom (pq_heap s)"
    using assms by (auto simp: pq_rep_def dchain_def)
  note d = d chain_distinct [OF c(1)]
  obtain j where j: "pq_heap s x = Some j" using d(1) by auto
  have jn: "pj_next j = cut_ptr vs" "pj_prev j = cut_ptr (rev us)"
    using chain_skip(1) [OF c(1)] chain_skip(1) [OF c(2)] j by auto
  consider "us = []" "vs = []" | v ws where "us = []" "vs = v # ws" | b ws where "us = ws @ [b]" "vs = []"
    | b ts v ws where "us = ts @ [b]" "vs = v # ws"
    by (metis list.exhaust rev_exhaust)
  then show ?thesis
  proof cases
    case 1
    with j jn show ?thesis by (auto simp: remove_job_def pq_rep_def dchain_def pq_item_def fun_eq_iff)
  next
    case 2
    then obtain k where k: "pq_heap s v = Some k" using d(1) by auto
    with 2 j jn c d chain_skip(2) [OF c(1)] chain_skip(3) [OF c(2), of "rev ws" v] show ?thesis
      by (auto simp: remove_job_def pq_rep_def dchain_def link_upd pq_item_def fun_eq_iff fun_upd_idem)
  next
    case 3
    then obtain k where k: "pq_heap s b = Some k" using d(1) by auto
    with 3 j jn c d chain_skip(2) [OF c(2)] chain_skip(3) [OF c(1), of ws b] show ?thesis
      by (auto simp: remove_job_def pq_rep_def dchain_def link_upd pq_item_def fun_eq_iff fun_upd_idem)
  next
    case 4
    then obtain k l where k: "pq_heap s b = Some k" "pq_heap s v = Some l" "b \<noteq> v" using d by auto
    with 4 j jn c d chain_skip(3) [OF c(2), of "rev ws" v] chain_skip(3) [OF c(1), of ts b] show ?thesis
      by (auto simp: remove_job_def pq_rep_def dchain_def link_upd pq_item_def fun_eq_iff fun_upd_idem)
  qed
qed

interpretation printq: deque pq_rep pq_item add_job_link replace_job remove_job
  by unfold_locales (fact add_job_link_rep replace_job_rep remove_job_rep pq_rep_cells)+

text \<open>A cell that \<open>malloc\<close> hands out is not in use.\<close>

lemma pq_rep_alloc:
  assumes "pq_rep s as" "pq_heap s a = None"
  shows "pq_rep (s\<lparr>pq_heap := (pq_heap s)(a \<mapsto> j)\<rparr>) as" "a \<notin> set as"
proof -
  show a: "a \<notin> set as" using assms by (auto simp: pq_rep_def)
  then show "pq_rep (s\<lparr>pq_heap := (pq_heap s)(a \<mapsto> j)\<rparr>) as"
    using assms by (auto simp: pq_rep_def dchain_def chain_link_frame)
qed

lemma pq_rep_free:
  assumes "pq_rep s as" "a \<notin> set as"
  shows "pq_rep (s\<lparr>pq_heap := (pq_heap s)(a := None)\<rparr>) as"
  using assms by (auto simp: pq_rep_def dchain_def chain_link_frame)

lemma add_job_rep:
  assumes "pq_rep s as" "pq_heap s a = None"
  shows "\<exists>s'. add_job (Some a) r n s = Returns s' \<and> pq_rep s' (as @ [a]) \<and> pq_item s' = (pq_item s)(a \<mapsto> (n, r))"
proof -
  let ?j = "\<lparr>pj_next = None, pj_prev = None, pj_jobid = n, pj_req = r\<rparr>"
  let ?s = "s\<lparr>pq_heap := (pq_heap s)(a \<mapsto> ?j)\<rparr>"
  have "pq_item ?s = (pq_item s)(a \<mapsto> (n, r))" by (auto simp: pq_item_def)
  with add_job_link_rep [OF pq_rep_alloc(1) [OF assms], of a ?j] pq_rep_alloc(2) [OF assms] show ?thesis
    by (auto simp: add_job_def)
qed

section \<open>Job numbers\<close>

definition get_newjobno :: "int \<Rightarrow> int \<times> int" where
  "get_newjobno nextjob =
     (let jobid = nextjob; n = to_int32 (nextjob + 1) in (jobid, if n \<le> 0 then 1 else n))"

text \<open>
  \<open>update_jobno\<close> overwrites the start of the job file; \<open>sought\<close> is whether \<open>lseek\<close> succeeds and \<open>nw\<close> the
  result of \<open>write\<close>.
\<close>

definition update_jobno :: "bool \<Rightarrow> int \<Rightarrow> int \<Rightarrow> string \<Rightarrow> string outcome" where
  "update_jobno sought nw nextjob jobfile =
     (if \<not> sought then Dies ''can't seek in job file''
      else if nw < 0 then Dies ''can't update job file''
      else Returns (pwrite jobfile 0 (take (nat nw) (int_text nextjob))))"

definition FILENMSZ :: nat where "FILENMSZ = 64"

definition job_path :: string where
  "job_path = ''/var/spool/printer/jobno''"

text \<open>
  \<open>init_request\<close> reads the number into the buffer that still holds the path of the file (and, behind it, the bytes \<open>junk\<close>
  that were never set), and does not end it with a null byte.
\<close>

definition init_request :: "bool \<Rightarrow> bool \<Rightarrow> string \<Rightarrow> string \<Rightarrow> int outcome" where
  "init_request locked readable junk jobfile =
     (if \<not> locked then Dies ''daemon already running''
      else if \<not> readable then Dies ''can't read job file''
      else let name = take FILENMSZ (job_path @ [NUL] @ junk); bs = pread jobfile 0 FILENMSZ in
        if bs = [] then Returns 1
        else Returns (to_int32 (atol (cstr (bs @ drop (length bs) name)))))"

lemma to_int32_id [simp]: "- (2 ^ 31) \<le> v \<Longrightarrow> v < 2 ^ 31 \<Longrightarrow> to_int32 v = v"
  by (simp add: to_int32_def)

text \<open>The numbers go round: \<open>k\<close> calls later.\<close>

abbreviation jobno_max :: int where "jobno_max \<equiv> 2 ^ 31 - 1"

lemma get_newjobno_next:
  assumes "1 \<le> n" "n \<le> jobno_max"
  shows "get_newjobno n = (n, n mod jobno_max + 1)"
proof (cases "n = jobno_max")
  case True
  then show ?thesis by (simp add: get_newjobno_def to_int32_def)
next
  case False
  with assms have "n mod jobno_max = n" by simp
  with assms False show ?thesis by (simp add: get_newjobno_def)
qed

fun job_numbers :: "nat \<Rightarrow> int \<Rightarrow> int list" where
  "job_numbers 0 nextjob = []"
| "job_numbers (Suc k) nextjob = (let (jobid, n) = get_newjobno nextjob in jobid # job_numbers k n)"

lemma job_numbers_closed:
  assumes "1 \<le> n" "n \<le> jobno_max"
  shows "job_numbers k n = map (\<lambda>i. (n - 1 + int i) mod jobno_max + 1) [0..<k]"
  using assms
proof (induction k arbitrary: n)
  case 0
  then show ?case by simp
next
  case (Suc k)
  let ?m = "n mod jobno_max + 1"
  have r: "1 \<le> ?m" "?m \<le> jobno_max" using pos_mod_bound [of jobno_max n] by auto
  have "(?m - 1 + int i) mod jobno_max = (n - 1 + int (Suc i)) mod jobno_max" for i
    by (simp add: mod_simps algebra_simps)
  with Suc.IH [OF r] have "job_numbers k ?m = map (\<lambda>i. (n - 1 + int (Suc i)) mod jobno_max + 1) [0..<k]" by simp
  moreover have "[0..<Suc k] = 0 # map Suc [0..<k]" by (simp add: map_Suc_upt upt_conv_Cons)
  moreover have "(n - 1) mod jobno_max + 1 = n" using Suc.prems by simp
  ultimately show ?case using get_newjobno_next [OF Suc.prems] by (simp add: comp_def)
qed

lemma job_numbers_distinct:
  assumes "1 \<le> n" "n \<le> jobno_max" "int k \<le> jobno_max"
  shows "distinct (job_numbers k n)" "set (job_numbers k n) \<subseteq> {1..jobno_max}"
proof -
  have "inj_on (\<lambda>i. (n - 1 + int i) mod jobno_max + 1) (set [0..<k])"
  proof (rule inj_onI)
    fix i j
    assume ij: "i \<in> set [0..<k]" "j \<in> set [0..<k]" "(n - 1 + int i) mod jobno_max + 1 = (n - 1 + int j) mod jobno_max + 1"
    then have "(n - 1 + int i) mod jobno_max = (n - 1 + int j) mod jobno_max" by simp
    then have "int i mod jobno_max = int j mod jobno_max" using mod_diff_cong [of "n - 1 + int i" jobno_max "n - 1 + int j" "n - 1" "n - 1"] by simp
    with ij assms(3) show "i = j" by simp
  qed
  then show "distinct (job_numbers k n)" by (simp add: job_numbers_closed [OF assms(1,2)] distinct_map)
  show "set (job_numbers k n) \<subseteq> {1..jobno_max}"
    using pos_mod_bound [of jobno_max] by (auto simp: job_numbers_closed [OF assms(1,2)])
qed

text \<open>A number written over one that is not longer is read back.\<close>

lemma init_request_reads:
  assumes "1 \<le> n" "n \<le> jobno_max"
  shows "init_request True True junk (int_text n) = Returns n"
proof -
  let ?d = "dec (nat n)"
  have "nat n < 10 ^ 10" using assms by simp
  then have l: "length ?d \<le> 10" using length_dec [of 10 "nat n"] by simp
  have bs: "pread (int_text n) 0 FILENMSZ = ?d" using assms l by (simp add: pread_def int_text_def FILENMSZ_def)
  let ?r = "drop (length ?d) (take FILENMSZ (job_path @ [NUL] @ junk))"
  have lp: "length job_path = 24" by (simp add: job_path_def)
  have "list_all (\<lambda>c. \<not> isdigit c) (job_path @ [NUL])" by (simp add: job_path_def isdigit_def)
  then have nd: "\<not> isdigit ((job_path @ [NUL]) ! length ?d)" using l lp by (simp only: list_all_length) simp
  have r: "?r \<noteq> []" "hd ?r = (job_path @ [NUL]) ! length ?d"
    using l lp by (auto simp: FILENMSZ_def hd_drop_conv_nth nth_append)
  have "takeWhile (\<lambda>c. c \<noteq> NUL) ?r = [] \<or> hd (takeWhile (\<lambda>c. c \<noteq> NUL) ?r) = hd ?r"
    using r(1) by (cases ?r) auto
  then have "cstr ?r = [] \<or> \<not> isdigit (hd (cstr ?r))" using r(2) nd by (auto simp: cstr_def)
  moreover have "cstr (?d @ ?r) = ?d @ cstr ?r"
    unfolding cstr_def by (rule takeWhile_append2) (use dec_not(1) in blast)
  ultimately have "atol (cstr (?d @ ?r)) = int (nat n)" by (metis atol_dec_append)
  with bs assms show ?thesis by (simp add: init_request_def Let_def)
qed

lemma pwrite_whole: "length f \<le> length t \<Longrightarrow> pwrite f 0 t = t"
  by (simp add: pwrite_def)

section \<open>Properties\<close>

text \<open>
  C29. The pending jobs are a list: \<open>add_job\<close> puts a job behind the others, \<open>replace_job\<close> puts one back in front and \<open>remove_job\<close>
  takes out any job, without touching the others. Every sequence of these calls that is possible on the list returns, no
  pointer is wild, and no number or request changes.
\<close>

theorem print_jobs_refine_list:
  assumes "pq_rep s as" "spec_run cs as = Some bs" "cell_of ` set cs \<subseteq> dom (pq_heap s)"
  shows "\<exists>t. printq.exec_run cs s = Returns t \<and> pq_rep t bs \<and> (\<forall>a. pq_item t a = pq_item s a)"
  using printq.run_refines [OF assms(1,2)] assms(3) by auto

theorem print_jobs_refine_list_witness:
  "\<exists>t. printq.exec_run [Append 1, Append 2, Insert 3, Unlink 1]
      \<lparr>pq_heap = (\<lambda>a. Some \<lparr>pj_next = None, pj_prev = None, pj_jobid = int a, pj_req = undefined\<rparr>), jobhead = None, jobtail = None\<rparr> =
    Returns t \<and> pq_rep t [3, 2]"
  using print_jobs_refine_list [of "\<lparr>pq_heap = (\<lambda>a. Some \<lparr>pj_next = None, pj_prev = None, pj_jobid = int a, pj_req = undefined\<rparr>),
      jobhead = None, jobtail = None\<rparr>" "[]" "[Append 1, Append 2, Insert 3, Unlink 1]" "[3, 2]"]
  by (auto simp: pq_rep_def dchain_def)

text \<open>
  The numbers that the daemon gives to jobs are positive and repeat only after 2147483647 of them.
\<close>

theorem job_numbers_unique:
  assumes "1 \<le> nextjob" "nextjob \<le> jobno_max" "int k \<le> jobno_max"
  shows "distinct (job_numbers k nextjob) \<and> set (job_numbers k nextjob) \<subseteq> {1..jobno_max}"
  using job_numbers_distinct [OF assms] by simp

text \<open>
  C39. A daemon that starts goes on with the number its predecessor wrote last, although the buffer into which it reads still
  holds the path of the file and is not ended, as long as the numbers grow.
\<close>

theorem jobno_survives_restart:
  assumes "0 \<le> m" "m \<le> n" "1 \<le> n" "n \<le> jobno_max"
  shows "\<exists>f. update_jobno True (int (length (int_text n))) n (int_text m) = Returns f \<and> init_request True True junk f = Returns n"
proof -
  have "length (int_text m) \<le> length (int_text n)" using assms by (simp add: int_text_def length_dec_mono nat_mono)
  then show ?thesis using init_request_reads [OF assms(3,4), of junk] by (simp add: update_jobno_def pwrite_whole)
qed

theorem jobno_survives_restart_witness:
  "\<exists>f. update_jobno True (int (length (int_text 10))) 10 (int_text 9) = Returns f \<and> init_request True True ''xyz'' f = Returns 10"
  using jobno_survives_restart [of 9 10 "''xyz''"] by simp

text \<open>After the numbers have gone round, the old digits stay behind the new ones and the next daemon starts with a wrong number.\<close>

theorem jobno_wrap_lost:
  "\<exists>f. update_jobno True 1 (snd (get_newjobno jobno_max)) (int_text jobno_max) = Returns f \<and>
    init_request True True junk f = Returns 1147483647"
proof -
  have d: "int_text jobno_max = ''2147483647''" "int_text 1147483647 = ''1147483647''" "int_text 1 = ''1''"
    by (simp_all add: int_text_def dec.simps digit_def char_of_def bit_0)
  have "update_jobno True 1 (snd (get_newjobno jobno_max)) (int_text jobno_max) = Returns (int_text 1147483647)"
    unfolding d by (simp add: update_jobno_def get_newjobno_def to_int32_def d pwrite_def)
  with init_request_reads [of 1147483647 junk] show ?thesis by simp
qed

end
