(* ===== verification/Print_Util.thy ===== *)
theory Print_Util
  imports Print_Jobs
begin

text \<open>
  What the print command and the printer daemon share: the reads with a timeout and the configuration file of
  \<open>extra_lib/apue.3e/printer/util.c\<close>, \<open>readn\<close> and \<open>writen\<close> of \<open>extra_lib/apue.3e/lib\<close>, and the connection with exponential backoff of
  \<open>extra_lib/apue.3e/sockets/clconn2.c\<close>.
\<close>

section \<open>Timed reads\<close>

text \<open>
  \<open>tread\<close>: one \<open>select\<close> and one \<open>read\<close>. An event \<open>RdErr ETIME\<close> is a \<open>select\<close> that times out; another \<open>RdErr\<close>
  is a \<open>select\<close> or a \<open>read\<close> that fails.
\<close>

abbreviation ETIME :: int where "ETIME \<equiv> 62"
abbreviation EIO :: int where "EIO \<equiv> 5"

definition tread :: "rdfd \<Rightarrow> nat \<Rightarrow> rd_result \<times> rdfd" where
  "tread fd nbytes = sys_read nbytes fd"

text \<open>
  The loop that \<open>treadn\<close> and \<open>readn\<close> of this library have in common: an error ends it, with -1 only if nothing has been
  read. The result is the value returned, the error and the bytes read.
\<close>

function treadn_loop :: "rdfd \<Rightarrow> nat \<Rightarrow> nat \<Rightarrow> string \<Rightarrow> (int \<times> int \<times> string) \<times> rdfd" where
  "treadn_loop fd nleft nbytes buf =
     (if nleft = 0 then ((int (nbytes - nleft), 0, buf), fd)
      else case tread fd nleft of
             (ReadErr e, fd1) \<Rightarrow> if nleft = nbytes then ((- 1, e, buf), fd1) else ((int (nbytes - nleft), e, buf), fd1)
           | (Bytes bs, fd1) \<Rightarrow>
               if bs = [] then ((int (nbytes - nleft), 0, buf), fd1)
               else treadn_loop fd1 (nleft - length bs) nbytes (buf @ bs))"
  by pat_completeness auto
termination
  by (relation "measure (\<lambda>(fd, nleft, nbytes, buf). fd_size fd)") (auto simp: tread_def dest: sys_read_size(2,3) [OF sym])

declare treadn_loop.simps [simp del]

definition treadn :: "rdfd \<Rightarrow> nat \<Rightarrow> (int \<times> int \<times> string) \<times> rdfd" where
  "treadn fd nbytes = treadn_loop fd nbytes nbytes []"

definition apue_readn :: "rdfd \<Rightarrow> nat \<Rightarrow> (int \<times> int \<times> string) \<times> rdfd" where
  "apue_readn fd n = treadn_loop fd n n []"

text \<open>A socket that delivers what has been sent and then ends or fails.\<close>

definition ends :: "rdfd \<Rightarrow> bool" where
  "ends rest \<longleftrightarrow> rest = [] \<or> (\<exists>e r. rest = RdErr e # r)"

lemma tread_chunk:
  assumes "quiet cs" "stream cs \<noteq> []" "0 < n"
  obtains bs es cs1 where "cs = Chunk bs # es" "take n bs \<noteq> []" "quiet cs1" "tread (cs @ rest) n = (Bytes (take n bs), cs1 @ rest)"
    "stream cs = take n bs @ stream cs1"
proof -
  obtain bs es where cs: "cs = Chunk bs # es" "bs \<noteq> []" "quiet es" using assms(1,2) by (cases cs rule: stream.cases) auto
  let ?cs1 = "if length bs \<le> n then es else Chunk (drop n bs) # es"
  have "tread (cs @ rest) n = (Bytes (take n bs), ?cs1 @ rest)" "stream cs = take n bs @ stream ?cs1" "quiet ?cs1" "take n bs \<noteq> []"
    using cs assms(3) by (auto simp: tread_def)
  with cs(1) show ?thesis using that by blast
qed

lemma treadn_loop_all:
  assumes "quiet cs" "nleft \<le> length (stream cs)" "length buf + nleft = nbytes"
  shows "\<exists>cs1. treadn_loop (cs @ rest) nleft nbytes buf = ((int nbytes, 0, buf @ take nleft (stream cs)), cs1 @ rest) \<and>
    stream cs1 = drop nleft (stream cs) \<and> quiet cs1"
  using assms
proof (induction nleft arbitrary: cs buf rule: less_induct)
  case (less nleft)
  show ?case
  proof (cases "nleft = 0")
    case True
    then show ?thesis using less.prems by (subst treadn_loop.simps) auto
  next
    case False
    then have "stream cs \<noteq> []" "0 < nleft" using less.prems(2) by auto
    then obtain bs es cs1 where t: "take nleft bs \<noteq> []" "quiet cs1" "tread (cs @ rest) nleft = (Bytes (take nleft bs), cs1 @ rest)"
      "stream cs = take nleft bs @ stream cs1" using tread_chunk [OF less.prems(1)] by metis
    let ?m = "length (take nleft bs)"
    have "treadn_loop (cs @ rest) nleft nbytes buf = treadn_loop (cs1 @ rest) (nleft - ?m) nbytes (buf @ take nleft bs)"
      using False t(1,3) by (subst treadn_loop.simps) simp
    moreover have "0 < ?m" "?m \<le> nleft" using t(1) by auto
    moreover have "nleft - ?m \<le> length (stream cs1)" "length (buf @ take nleft bs) + (nleft - ?m) = nbytes"
      using less.prems(2,3) t(4) \<open>?m \<le> nleft\<close> by auto
    ultimately show ?thesis using less.IH [of "nleft - ?m" cs1 "buf @ take nleft bs"] False t(2,4) by (auto simp: min_def split: if_splits)
  qed
qed

text \<open>A header that is there is read whole, however it arrives.\<close>

lemma treadn_all:
  assumes "quiet cs" "n \<le> length (stream cs)"
  shows "\<exists>cs1. treadn (cs @ rest) n = ((int n, 0, take n (stream cs)), cs1 @ rest) \<and> stream cs1 = drop n (stream cs) \<and> quiet cs1"
  unfolding treadn_def using treadn_loop_all [OF assms, of "[]" n rest] by simp

section \<open>Writing\<close>

text \<open>\<open>writen\<close> of this library: a failure after some bytes returns their number.\<close>

fun apue_writen_loop :: "wr_event list \<Rightarrow> nat \<Rightarrow> string \<Rightarrow> string \<Rightarrow> (int \<times> string \<times> wr_event list) option" where
  "apue_writen_loop es n [] out = Some (int n, out, es)"
| "apue_writen_loop [] n (c # cs) out = None"
| "apue_writen_loop (Accept k # es) n (c # cs) out =
     (if k = 0 then Some (int n - int (length (c # cs)), out, es)
      else apue_writen_loop es n (drop k (c # cs)) (out @ take k (c # cs)))"
| "apue_writen_loop (WrErr e # es) n (c # cs) out =
     (if length (c # cs) = n then Some (- 1, out, es) else Some (int n - int (length (c # cs)), out, es))"

definition apue_writen :: "wr_event list \<Rightarrow> string \<Rightarrow> string \<Rightarrow> (int \<times> string \<times> wr_event list) option" where
  "apue_writen es ptr out = apue_writen_loop es (length ptr) ptr out"

text \<open>A socket that takes bytes: every call accepts at least one, and there are enough calls.\<close>

definition takes :: "nat \<Rightarrow> wr_event list \<Rightarrow> bool" where
  "takes m es \<longleftrightarrow> m \<le> length es \<and> (\<forall>e\<in>set es. \<exists>k>0. e = Accept k)"

lemma apue_writen_loop_all:
  "takes (length ptr + m) es \<Longrightarrow> \<exists>es'. apue_writen_loop es n ptr out = Some (int n, out @ ptr, es') \<and> takes m es'"
proof (induction es n ptr out rule: apue_writen_loop.induct)
  case (3 k es n c cs out)
  then have k: "0 < k" by (auto simp: takes_def)
  have "takes (length (drop k (c # cs)) + m) es" using 3(2) k by (auto simp: takes_def)
  then obtain es' where "apue_writen_loop es n (drop k (c # cs)) (out @ take k (c # cs)) =
      Some (int n, (out @ take k (c # cs)) @ drop k (c # cs), es')" "takes m es'" using 3(1) k by auto
  then show ?case using k by (simp only: apue_writen_loop.simps if_False append_assoc append_take_drop_id) simp
qed (auto simp: takes_def)

lemma apue_writen_all:
  "takes (length ptr + m) es \<Longrightarrow> \<exists>es'. apue_writen es ptr out = Some (int (length ptr), out @ ptr, es') \<and> takes m es'"
  unfolding apue_writen_def by (rule apue_writen_loop_all)

section \<open>Connecting\<close>

definition MAXSLEEP :: nat where "MAXSLEEP = 128"

text \<open>
  \<open>connect_retry\<close>: \<open>env\<close> gives for each attempt the result of \<open>socket\<close> and whether \<open>connect\<close> succeeds; \<open>numsec\<close> is a power of
  two. The result is the descriptor or -1, the descriptors closed and the seconds slept.
\<close>

function connect_loop :: "(nat \<Rightarrow> int \<times> bool) \<Rightarrow> nat \<Rightarrow> int list \<Rightarrow> nat list \<Rightarrow> int \<times> int list \<times> nat list" where
  "connect_loop env k closed slept =
     (let numsec = 2 ^ k in
      if \<not> numsec \<le> MAXSLEEP then (- 1, closed, slept)
      else let (fd, ok) = env k in
        if fd < 0 then (- 1, closed, slept)
        else if ok then (fd, closed, slept)
        else connect_loop env (k + 1) (closed @ [fd]) (if numsec \<le> MAXSLEEP div 2 then slept @ [numsec] else slept))"
  by pat_completeness auto
termination
proof (relation "measure (\<lambda>(env, k, closed, slept). 8 - k)", goal_cases)
  case (2 env k closed slept numsec p fd ok)
  then have "(2::nat) ^ k \<le> 2 ^ 7" by (simp add: MAXSLEEP_def)
  then have "k \<le> 7" by (rule power_le_imp_le_exp [rotated]) simp
  then show ?case by simp
qed simp

declare connect_loop.simps [simp del]

definition connect_retry :: "(nat \<Rightarrow> int \<times> bool) \<Rightarrow> int \<times> int list \<times> nat list" where
  "connect_retry env = connect_loop env 0 [] []"

text \<open>Without success there are eight attempts, all sockets are closed and the delays add up to 127 seconds.\<close>

lemma connect_retry_fails:
  assumes "\<And>k. 0 \<le> fst (env k) \<and> \<not> snd (env k)"
  shows "connect_retry env = (- 1, map (\<lambda>k. fst (env k)) [0, 1, 2, 3, 4, 5, 6, 7], [1, 2, 4, 8, 16, 32, 64])"
proof -
  have s: "connect_loop env k cl sl =
      (if k < 8 then connect_loop env (k + 1) (cl @ [fst (env k)]) (if k < 7 then sl @ [2 ^ k] else sl) else (- 1, cl, sl))" for k cl sl
  proof -
    have "(2 ^ k \<le> MAXSLEEP) = (k < 8)" "(2 ^ k \<le> MAXSLEEP div 2) = (k < 7)"
      using power_increasing_iff [of "2::nat" k 7] power_increasing_iff [of "2::nat" k 6] by (auto simp: MAXSLEEP_def)
    with assms [of k] show ?thesis by (subst connect_loop.simps) (auto simp: Let_def split: prod.splits)
  qed
  show ?thesis unfolding connect_retry_def by (simp add: s) (simp add: eval_nat_numeral)
qed

section \<open>The configuration file\<close>

definition MAXCFGLINE :: nat where "MAXCFGLINE = 512"
definition MAXKWLEN :: nat where "MAXKWLEN = 16"

text \<open>The conversion \<open>%ms\<close> of \<open>sscanf\<close>: white space is skipped, then at most \<open>m\<close> other characters are read.\<close>

definition sscanf_word :: "nat \<Rightarrow> string \<Rightarrow> (string \<times> string) option" where
  "sscanf_word m s =
     (let t = dropWhile isspace s; w = take m (takeWhile (\<lambda>c. \<not> isspace c) t) in
      if t = [] then None else Some (w, drop (length w) t))"

definition scan_line :: "string \<Rightarrow> (string \<times> string) option" where
  "scan_line line =
     (case sscanf_word (MAXKWLEN - 1) (cstr line) of
        None \<Rightarrow> None
      | Some (keybuf, r) \<Rightarrow> (case sscanf_word (MAXCFGLINE - 1) r of None \<Rightarrow> None | Some (valbuf, _) \<Rightarrow> Some (keybuf, valbuf)))"

text \<open>\<open>fgets\<close> gives the next line, at most 511 characters of it; \<open>file\<close> is what is left of the file.\<close>

lemma upto_nl_nonempty: "0 < m \<Longrightarrow> s \<noteq> [] \<Longrightarrow> 0 < length (upto_nl m s)"
  by (cases m; cases s) auto

function scan_loop :: "string \<Rightarrow> string \<Rightarrow> string option" where
  "scan_loop keyword file =
     (if file = [] then None
      else let line = upto_nl (MAXCFGLINE - 1) file; rest = drop (length line) file in
        case scan_line line of
          Some (k, v) \<Rightarrow> if k = keyword then Some v else scan_loop keyword rest
        | None \<Rightarrow> scan_loop keyword rest)"
  by pat_completeness auto
termination
  by (relation "measure (\<lambda>(keyword, file). length file)") (use upto_nl_nonempty [of "MAXCFGLINE - 1"] in \<open>auto simp: MAXCFGLINE_def\<close>)

declare scan_loop.simps [simp del]

definition scan_configfile :: "string option \<Rightarrow> string \<Rightarrow> string option outcome" where
  "scan_configfile cfg keyword =
     (case cfg of None \<Rightarrow> Dies ''can't open /etc/printer.conf'' | Some file \<Rightarrow> Returns (scan_loop keyword file))"

definition get_printserver :: "string option \<Rightarrow> string option outcome" where
  "get_printserver cfg = scan_configfile cfg ''printserver''"

text \<open>\<open>getaddrlist\<close> is the resolver: the addresses of a host for a service, or an error.\<close>

definition get_printaddr :: "(string \<Rightarrow> string \<Rightarrow> 'a option) \<Rightarrow> string option \<Rightarrow> 'a option outcome" where
  "get_printaddr getaddrlist cfg =
     bind_outcome (scan_configfile cfg ''printer'') (\<lambda>p.
       case p of None \<Rightarrow> Returns None | Some host \<Rightarrow> Returns (getaddrlist host ''ipp''))"

text \<open>A file of lines, each with a keyword, a blank and a value.\<close>

definition word_ok :: "nat \<Rightarrow> string \<Rightarrow> bool" where
  "word_ok m w \<longleftrightarrow> w \<noteq> [] \<and> length w \<le> m \<and> list_all (\<lambda>c. \<not> isspace c \<and> c \<noteq> NUL) w"

definition config_line :: "string \<times> string \<Rightarrow> string" where
  "config_line = (\<lambda>(k, v). k @ [SPACE] @ v @ [NEWLINE])"

lemma sscanf_word_ok:
  assumes "word_ok m w" "isspace c"
  shows "sscanf_word m (w @ c # r) = Some (w, c # r)" "sscanf_word m (SPACE # w @ c # r) = Some (w, c # r)"
proof -
  have "dropWhile isspace (w @ c # r) = w @ c # r" using assms(1) by (cases w) (auto simp: word_ok_def)
  moreover have "takeWhile (\<lambda>c. \<not> isspace c) (w @ c # r) = w"
    using assms by (simp add: word_ok_def list_all_iff takeWhile_append2)
  ultimately show "sscanf_word m (w @ c # r) = Some (w, c # r)" "sscanf_word m (SPACE # w @ c # r) = Some (w, c # r)"
    using assms(1) by (auto simp: sscanf_word_def word_ok_def isspace_def Let_def)
qed

lemma scan_line_config:
  assumes "word_ok 15 k" "word_ok 490 v"
  shows "scan_line (config_line (k, v)) = Some (k, v)" "upto_nl (MAXCFGLINE - 1) (config_line (k, v) @ r) = config_line (k, v)"
proof -
  have n: "NUL \<notin> set (k @ [SPACE] @ v @ [NEWLINE])" using assms by (auto simp: word_ok_def list_all_iff)
  have v: "word_ok (MAXCFGLINE - 1) v" and k: "word_ok (MAXKWLEN - 1) k" using assms by (auto simp: word_ok_def MAXCFGLINE_def MAXKWLEN_def)
  have s: "isspace SPACE" "isspace NEWLINE" by (simp_all add: isspace_def)
  show "scan_line (config_line (k, v)) = Some (k, v)"
    using sscanf_word_ok(1) [OF k s(1), of "v @ [NEWLINE]"] sscanf_word_ok(2) [OF v s(2), of "[]"] cstr_id [OF n]
    by (simp add: scan_line_def config_line_def)
  have "NEWLINE \<notin> set (k @ [SPACE] @ v)" using assms s(2) by (auto simp: word_ok_def list_all_iff)
  moreover have "length (k @ [SPACE] @ v) < MAXCFGLINE - 1" using assms by (simp add: word_ok_def MAXCFGLINE_def)
  ultimately show "upto_nl (MAXCFGLINE - 1) (config_line (k, v) @ r) = config_line (k, v)"
    using upto_nl_line [of "k @ [SPACE] @ v" "MAXCFGLINE - 1" r] by (simp add: config_line_def)
qed

lemma scan_loop_config:
  "list_all (\<lambda>(k, v). word_ok 15 k \<and> word_ok 490 v) kvs \<Longrightarrow> scan_loop keyword (concat (map config_line kvs)) = map_of kvs keyword"
proof (induction kvs)
  case Nil
  then show ?case by (simp add: scan_loop.simps)
next
  case (Cons x kvs)
  obtain k v where x: "x = (k, v)" by (cases x)
  have "word_ok 15 k" "word_ok 490 v" using Cons.prems x by auto
  note c = scan_line_config(1) [OF this] scan_line_config(2) [OF this, of "concat (map config_line kvs)"]
  have "config_line (k, v) \<noteq> []" by (simp add: config_line_def)
  with Cons c x show ?case by (subst scan_loop.simps) (auto simp: Let_def)
qed

section \<open>Properties\<close>

text \<open>
  C38. The configuration is read as a table: in a file of lines with a keyword of at most 15 and a value of at most 490 characters the
  first line with the keyword counts, and without one there is no value.
\<close>

theorem scan_configfile_lookup:
  assumes "list_all (\<lambda>(k, v). word_ok 15 k \<and> word_ok 490 v) kvs"
  shows "scan_configfile (Some (concat (map config_line kvs))) keyword = Returns (map_of kvs keyword)"
  using scan_loop_config [OF assms] by (simp add: scan_configfile_def)

theorem scan_configfile_lookup_witness:
  "scan_configfile (Some (concat (map config_line [(''printserver'', ''blade''), (''printer'', ''laser3'')]))) ''printer'' = Returns (Some ''laser3'')"
  using scan_configfile_lookup [of "[(''printserver'', ''blade''), (''printer'', ''laser3'')]" "''printer''"]
  by (simp add: word_ok_def isspace_def)

text \<open>A keyword longer than 15 characters is cut and its rest is taken for the value.\<close>

theorem scan_line_long_keyword:
  assumes "word_ok 511 w" "15 < length w"
  shows "scan_line (config_line (w, v)) = Some (take 15 w, drop 15 w)"
proof -
  have ws: "list_all (\<lambda>c. \<not> isspace c \<and> c \<noteq> NUL) w" "w \<noteq> []" using assms(1) by (auto simp: word_ok_def)
  have s: "isspace SPACE" by (simp add: isspace_def)
  have t: "takeWhile (\<lambda>c. c \<noteq> NUL) (config_line (w, v)) = w @ SPACE # takeWhile (\<lambda>c. c \<noteq> NUL) (v @ [NEWLINE])"
    using ws(1) by (simp add: config_line_def takeWhile_append2 list_all_iff)
  have d: "dropWhile isspace (u @ SPACE # r) = u @ SPACE # r" "takeWhile (\<lambda>c. \<not> isspace c) (u @ SPACE # r) = u"
    if "list_all (\<lambda>c. \<not> isspace c \<and> c \<noteq> NUL) u" "u \<noteq> []" for u r
    using that s by (cases u; auto simp: takeWhile_append2 list_all_iff)+
  have u: "list_all (\<lambda>c. \<not> isspace c \<and> c \<noteq> NUL) (drop 15 w)" "drop 15 w \<noteq> []" "length (drop 15 w) \<le> 511"
    using ws assms by (auto simp: list_all_iff word_ok_def dest: in_set_dropD)
  have "sscanf_word 15 (w @ SPACE # r) = Some (take 15 w, drop 15 w @ SPACE # r)" for r
    unfolding sscanf_word_def Let_def d [OF ws] using ws(2) assms(2) by simp
  moreover have "sscanf_word 511 (drop 15 w @ SPACE # r) = Some (drop 15 w, SPACE # r)" for r
    unfolding sscanf_word_def Let_def d [OF u(1,2)] using u(2,3) by simp
  ultimately show ?thesis unfolding scan_line_def cstr_def t by (simp add: MAXKWLEN_def MAXCFGLINE_def)
qed

text \<open>
  An unreachable host costs eight attempts and 127 seconds, and no descriptor.
\<close>

theorem connect_retry_gives_up:
  assumes "\<And>k. 0 \<le> fst (env k) \<and> \<not> snd (env k)"
  shows "fst (connect_retry env) = - 1 \<and> length (fst (snd (connect_retry env))) = 8 \<and> sum_list (snd (snd (connect_retry env))) = 127"
  using connect_retry_fails [OF assms] by simp

end
