(* ===== verification/Print_Workers.thy ===== *)
theory Print_Workers
  imports Dllist
begin

text \<open>
  The list of client threads of the printer daemon (\<open>add_worker\<close>, \<open>kill_workers\<close>, \<open>client_cleanup\<close> of
  \<open>extra_lib/apue.3e/printer/printd.c\<close>). It is right as long as there is one client at a time; with two, \<open>add_worker\<close> does not
  make the new cell the head of the list, with the consequences shown below.
\<close>

record worker_thread =
  wt_next :: "nat option"
  wt_prev :: "nat option"
  wt_tid :: nat
  wt_sockfd :: int

text \<open>The list, and the sockets that have been closed.\<close>

record workerq =
  wk_heap :: "nat \<Rightarrow> worker_thread option"
  wk_workers :: "nat option"
  wk_closed :: "int list"

text \<open>Without memory the thread exits: the result says whether it goes on.\<close>

definition add_worker :: "nat option \<Rightarrow> nat \<Rightarrow> int \<Rightarrow> workerq \<Rightarrow> (bool \<times> workerq) outcome" where
  "add_worker mem tid sockfd s =
     (case mem of
        None \<Rightarrow> Returns (False, s)
      | Some wtp \<Rightarrow>
          let h = (wk_heap s)(wtp \<mapsto> \<lparr>wt_next = wk_workers s, wt_prev = None, wt_tid = tid, wt_sockfd = sockfd\<rparr>) in
          if wk_workers s = None then Returns (True, s\<lparr>wk_heap := h, wk_workers := Some wtp\<rparr>)
          else bind_outcome (store h (wk_workers s) (\<lambda>w. w\<lparr>wt_prev := Some wtp\<rparr>)) (\<lambda>h1.
                 Returns (True, s\<lparr>wk_heap := h1\<rparr>)))"

text \<open>The threads that \<open>kill_workers\<close> cancels.\<close>

partial_function (option) kill_loop :: "(nat \<Rightarrow> worker_thread option) \<Rightarrow> nat option \<Rightarrow> nat list \<Rightarrow> nat list outcome option" where
  "kill_loop h wtp done =
     (case wtp of
        None \<Rightarrow> Some (Returns done)
      | Some a \<Rightarrow> (case h a of None \<Rightarrow> Some (Dies ''SIGSEGV'') | Some w \<Rightarrow> kill_loop h (wt_next w) (done @ [wt_tid w])))"

definition kill_workers :: "workerq \<Rightarrow> nat list outcome option" where
  "kill_workers s = kill_loop (wk_heap s) (wk_workers s) []"

partial_function (option) find_worker :: "(nat \<Rightarrow> worker_thread option) \<Rightarrow> nat \<Rightarrow> nat option \<Rightarrow> nat option outcome option" where
  "find_worker h tid wtp =
     (case wtp of
        None \<Rightarrow> Some (Returns None)
      | Some a \<Rightarrow>
          (case h a of
             None \<Rightarrow> Some (Dies ''SIGSEGV'')
           | Some w \<Rightarrow> if wt_tid w = tid then Some (Returns wtp) else find_worker h tid (wt_next w)))"

definition unlink_worker :: "nat \<Rightarrow> workerq \<Rightarrow> workerq outcome" where
  "unlink_worker a s =
     bind_outcome (load (wk_heap s) (Some a)) (\<lambda>w.
     bind_outcome
       (if wt_next w \<noteq> None then store (wk_heap s) (wt_next w) (\<lambda>n. n\<lparr>wt_prev := wt_prev w\<rparr>) else Returns (wk_heap s)) (\<lambda>h.
       if wt_prev w \<noteq> None
       then bind_outcome (store h (wt_prev w) (\<lambda>p. p\<lparr>wt_next := wt_next w\<rparr>)) (\<lambda>h1. Returns (s\<lparr>wk_heap := h1\<rparr>))
       else Returns (s\<lparr>wk_heap := h, wk_workers := wt_next w\<rparr>)))"

definition client_cleanup :: "nat \<Rightarrow> workerq \<Rightarrow> workerq outcome option" where
  "client_cleanup tid s =
     map_option (\<lambda>f. bind_outcome f (\<lambda>wtp.
        case wtp of
          None \<Rightarrow> Returns s
        | Some a \<Rightarrow>
            bind_outcome (unlink_worker a s) (\<lambda>s1.
            bind_outcome (load (wk_heap s1) (Some a)) (\<lambda>w.
              Returns (s1\<lparr>wk_closed := wk_closed s1 @ [wt_sockfd w], wk_heap := (wk_heap s1)(a := None)\<rparr>)))))
       (find_worker (wk_heap s) tid (wk_workers s))"

lemmas worker_loops = kill_loop.simps find_worker.simps

section \<open>One client at a time\<close>

lemma add_cleanup:
  assumes "wk_workers s = None" "wk_heap s a = None"
  shows "\<exists>t. add_worker (Some a) tid fd s = Returns (True, t) \<and> kill_workers t = Some (Returns [tid]) \<and>
    client_cleanup tid t = Some (Returns (s\<lparr>wk_closed := wk_closed s @ [fd]\<rparr>))"
proof -
  let ?w = "\<lparr>wt_next = None, wt_prev = None, wt_tid = tid, wt_sockfd = fd\<rparr>"
  let ?t = "s\<lparr>wk_heap := (wk_heap s)(a \<mapsto> ?w), wk_workers := Some a\<rparr>"
  have "add_worker (Some a) tid fd s = Returns (True, ?t)" using assms(1) by (simp add: add_worker_def)
  moreover have "kill_workers ?t = Some (Returns [tid])"
    unfolding kill_workers_def by (simp add: kill_loop.simps)
  moreover have f: "find_worker (wk_heap ?t) tid (wk_workers ?t) = Some (Returns (Some a))" by (subst find_worker.simps) simp
  have "client_cleanup tid ?t = Some (Returns (s\<lparr>wk_closed := wk_closed s @ [fd]\<rparr>))"
    unfolding client_cleanup_def f using assms by (simp add: unlink_worker_def fun_upd_idem)
  ultimately show ?thesis by blast
qed

section \<open>Several clients\<close>

fun add_workers :: "(nat \<times> nat \<times> int) list \<Rightarrow> workerq \<Rightarrow> workerq outcome" where
  "add_workers [] s = Returns s"
| "add_workers ((a, tid, fd) # ws) s = bind_outcome (add_worker (Some a) tid fd s) (\<lambda>(ok, t). add_workers ws t)"

text \<open>The cell at the head stays the head, and its back link goes to the newest cell.\<close>

lemma add_workers_head:
  assumes "wk_workers s = Some a" "wk_heap s a = Some w" "a \<notin> fst ` set ws"
  shows "\<exists>t w'. add_workers ws s = Returns t \<and> wk_workers t = Some a \<and> wk_heap t a = Some w' \<and>
    wt_next w' = wt_next w \<and> wt_tid w' = wt_tid w \<and> wk_closed t = wk_closed s"
  using assms
proof (induction ws arbitrary: s w)
  case Nil
  then show ?case by simp
next
  case (Cons x ws)
  obtain b tid fd where x: "x = (b, tid, fd)" by (cases x)
  let ?h = "(wk_heap s)(b \<mapsto> \<lparr>wt_next = Some a, wt_prev = None, wt_tid = tid, wt_sockfd = fd\<rparr>, a \<mapsto> w\<lparr>wt_prev := Some b\<rparr>)"
  have "a \<noteq> b" using Cons.prems(3) x by auto
  then have e: "add_worker (Some b) tid fd s = Returns (True, s\<lparr>wk_heap := ?h\<rparr>)"
    using Cons.prems by (simp add: add_worker_def)
  have "wk_workers (s\<lparr>wk_heap := ?h\<rparr>) = Some a" "wk_heap (s\<lparr>wk_heap := ?h\<rparr>) a = Some (w\<lparr>wt_prev := Some b\<rparr>)"
    using Cons.prems by simp_all
  from Cons.IH [OF this] Cons.prems(3) e x show ?case by auto
qed

text \<open>A cell that is its own successor keeps the loop of \<open>kill_workers\<close> going.\<close>

lemma kill_loop_cycle:
  assumes "kill_loop h p d = Some r" "h a = Some w" "wt_next w = Some a"
  shows "p \<noteq> Some a"
proof -
  have "kill_loop h p d = Some r \<Longrightarrow> h a = Some w \<longrightarrow> wt_next w = Some a \<longrightarrow> p \<noteq> Some a"
    by (rule kill_loop.raw_induct [where P = "\<lambda>h p d r. h a = Some w \<longrightarrow> wt_next w = Some a \<longrightarrow> p \<noteq> Some a"])
      (auto split: option.splits)
  with assms show ?thesis by blast
qed

section \<open>Properties\<close>

text \<open>
  With one client at a time the list is exact: the client is on it while it is served, a signal to end reaches it, and
  when it is done its socket is closed and its memory freed.
\<close>

theorem one_client_at_a_time:
  assumes "wk_workers s = None" "wk_heap s a = None"
  shows "\<exists>t. add_worker (Some a) tid fd s = Returns (True, t) \<and> kill_workers t = Some (Returns [tid]) \<and>
    client_cleanup tid t = Some (Returns (s\<lparr>wk_closed := wk_closed s @ [fd]\<rparr>))"
  by (rule add_cleanup [OF assms])

text \<open>
  However many clients are served at once, \<open>kill_workers\<close> cancels only the oldest: \<open>add_worker\<close> leaves the head of the list as it is when the
  list is not empty, so later threads are never found.
\<close>

theorem kill_workers_only_first:
  assumes "wk_workers s = None" "a \<notin> fst ` set ws"
  shows "\<exists>t. add_workers ((a, tid, fd) # ws) s = Returns t \<and> kill_workers t = Some (Returns [tid])"
proof -
  let ?w = "\<lparr>wt_next = None, wt_prev = None, wt_tid = tid, wt_sockfd = fd\<rparr>"
  let ?t = "s\<lparr>wk_heap := (wk_heap s)(a \<mapsto> ?w), wk_workers := Some a\<rparr>"
  have e: "add_worker (Some a) tid fd s = Returns (True, ?t)" using assms(1) by (simp add: add_worker_def)
  obtain t w' where t: "add_workers ws ?t = Returns t" "wk_workers t = Some a" "wk_heap t a = Some w'" "wt_next w' = None" "wt_tid w' = tid"
    using add_workers_head [of ?t a ?w ws] assms(2) by auto
  have "kill_workers t = Some (Returns [tid])"
    unfolding kill_workers_def using t by (simp add: kill_loop.simps)
  with e t(1) show ?thesis by simp
qed

theorem kill_workers_only_first_witness:
  "\<exists>t. add_workers [(1, 11, 5), (2, 12, 6), (3, 13, 7)] \<lparr>wk_heap = (\<lambda>_. None), wk_workers = None, wk_closed = []\<rparr> = Returns t \<and>
    kill_workers t = Some (Returns [11])"
  using kill_workers_only_first [of "\<lparr>wk_heap = (\<lambda>_. None), wk_workers = None, wk_closed = []\<rparr>" 1 "[(2, 12, 6), (3, 13, 7)]" 11 5] by simp

text \<open>
  Two clients are enough to end the daemon: when the older one is done its cell is freed but stays the head of the
  list, and the next client, or the signal to end, reads freed memory. When the younger one is done its
  socket is not closed.
\<close>

theorem two_clients_use_after_free:
  assumes "wk_workers s = None" "a \<noteq> b" "t1 \<noteq> t2" "c \<noteq> a"
  shows "\<exists>t u. add_workers [(a, t1, f1), (b, t2, f2)] s = Returns t \<and>
    client_cleanup t2 t = Some (Returns t) \<and>
    client_cleanup t1 t = Some (Returns u) \<and> wk_workers u = Some a \<and> wk_heap u a = None \<and>
    add_worker (Some c) t3 f3 u = Dies ''SIGSEGV'' \<and> kill_workers u = Some (Dies ''SIGSEGV'')"
proof -
  let ?wa = "\<lparr>wt_next = None, wt_prev = Some b, wt_tid = t1, wt_sockfd = f1\<rparr>"
  let ?wb = "\<lparr>wt_next = Some a, wt_prev = None, wt_tid = t2, wt_sockfd = f2\<rparr>"
  let ?t = "s\<lparr>wk_heap := (wk_heap s)(b \<mapsto> ?wb, a \<mapsto> ?wa), wk_workers := Some a\<rparr>"
  let ?u = "s\<lparr>wk_heap := (wk_heap s)(b \<mapsto> ?wb\<lparr>wt_next := None\<rparr>, a := None), wk_workers := Some a, wk_closed := wk_closed s @ [f1]\<rparr>"
  have t: "add_workers [(a, t1, f1), (b, t2, f2)] s = Returns ?t"
    using assms by (simp add: add_worker_def fun_upd_twist)
  have "find_worker (wk_heap ?t) t2 (wk_workers ?t) = Some (Returns None)" using assms(3) by (simp add: find_worker.simps)
  then have "client_cleanup t2 ?t = Some (Returns ?t)" by (simp add: client_cleanup_def)
  moreover have f: "find_worker (wk_heap ?t) t1 (wk_workers ?t) = Some (Returns (Some a))" by (subst find_worker.simps) simp
  have "client_cleanup t1 ?t = Some (Returns ?u)"
    unfolding client_cleanup_def f using assms(2) by (simp add: unlink_worker_def fun_upd_twist)
  moreover have "add_worker (Some c) t3 f3 ?u = Dies ''SIGSEGV''" using assms(4) by (simp add: add_worker_def)
  moreover have "kill_workers ?u = Some (Dies ''SIGSEGV'')" unfolding kill_workers_def by (simp add: kill_loop.simps)
  ultimately show ?thesis using t by (intro exI [of _ ?t] exI [of _ ?u]) simp
qed

theorem two_clients_use_after_free_witness:
  "\<exists>t u. add_workers [(1, 11, 5), (2, 12, 6)] \<lparr>wk_heap = (\<lambda>_. None), wk_workers = None, wk_closed = []\<rparr> = Returns t \<and>
    client_cleanup 11 t = Some (Returns u) \<and> kill_workers u = Some (Dies ''SIGSEGV'')"
  using two_clients_use_after_free [of "\<lparr>wk_heap = (\<lambda>_. None), wk_workers = None, wk_closed = []\<rparr>" 1 2 11 12 3 5 6 13 7] by fastforce

text \<open>If instead the freed cell is given to the next client, it is linked to itself and the signal to end makes the daemon spin.\<close>

theorem reused_cell_spins:
  assumes "wk_workers u = Some a"
  shows "\<exists>v. add_worker (Some a) tid fd u = Returns (True, v) \<and> kill_workers v = None"
proof -
  let ?w = "\<lparr>wt_next = Some a, wt_prev = Some a, wt_tid = tid, wt_sockfd = fd\<rparr>"
  let ?v = "u\<lparr>wk_heap := (wk_heap u)(a \<mapsto> ?w)\<rparr>"
  have "add_worker (Some a) tid fd u = Returns (True, ?v)" using assms by (simp add: add_worker_def)
  moreover have "kill_workers ?v = None"
    using kill_loop_cycle [of "wk_heap ?v" "Some a" "[]" _ a ?w] assms by (cases "kill_workers ?v") (auto simp: kill_workers_def)
  ultimately show ?thesis by blast
qed

end
