(* ===== verification/Print_Ipp.thy ===== *)
theory Print_Ipp
  imports Print_Jobs
begin

text \<open>
  The request that the printer daemon sends to the printer: the IPP header, built in a buffer of fixed size by
  \<open>add_option\<close>, and the HTTP header before it (\<open>printer_thread\<close> of \<open>extra_lib/apue.3e/printer/printd.c\<close>). A write behind the
  end of a buffer is the outcome \<open>Dies ''buffer overrun''\<close>. A reference decoder reads the header back.
\<close>

unbundle bit_operations_syntax

section \<open>Buffers\<close>

definition put :: "string \<Rightarrow> nat \<Rightarrow> string \<Rightarrow> string outcome" where
  "put buf off bs =
     (if off + length bs \<le> length buf then Returns (take off buf @ bs @ drop (off + length bs) buf) else Dies ''buffer overrun'')"

definition strcpy :: "string \<Rightarrow> nat \<Rightarrow> string \<Rightarrow> string outcome" where
  "strcpy buf off s = put buf off (s @ [NUL])"

text \<open>Numbers in network byte order.\<close>

definition be16 :: "nat \<Rightarrow> string" where
  "be16 n = [char_of (n div 256), char_of n]"

definition be32 :: "int \<Rightarrow> string" where
  "be32 n = [char_of (n div 2 ^ 24), char_of (n div 2 ^ 16), char_of (n div 2 ^ 8), char_of n]"

lemma length_be [simp]: "length (be16 n) = 2" "length (be32 i) = 4"
  by (simp_all add: be16_def be32_def)

lemma put_at [simp]:
  "put (out @ rest) (length out) bs =
     (if length bs \<le> length rest then Returns (out @ bs @ drop (length bs) rest) else Dies ''buffer overrun'')"
  by (auto simp: put_def)

section \<open>Attributes\<close>

definition add_option :: "string \<Rightarrow> nat \<Rightarrow> nat \<Rightarrow> string \<Rightarrow> string \<Rightarrow> (string \<times> nat) outcome" where
  "add_option buf cp tag optname optval =
     bind_outcome (put buf cp [char_of tag]) (\<lambda>b1.
     bind_outcome (put b1 (cp + 1) (be16 (length optname))) (\<lambda>b2.
     bind_outcome (strcpy b2 (cp + 3) optname) (\<lambda>b3.
     bind_outcome (put b3 (cp + 3 + length optname) (be16 (length optval))) (\<lambda>b4.
     bind_outcome (strcpy b4 (cp + 5 + length optname) optval) (\<lambda>b5.
       Returns (b5, cp + 5 + length optname + length optval))))))"

text \<open>The bytes of an attribute, and the buffer after \<open>add_option\<close>: they follow what is there, with a null byte behind.\<close>

definition option_bytes :: "nat \<Rightarrow> string \<Rightarrow> string \<Rightarrow> string" where
  "option_bytes tag optname optval = char_of tag # be16 (length optname) @ optname @ be16 (length optval) @ optval"

lemma length_option_bytes [simp]: "length (option_bytes tag n v) = 5 + length n + length v"
  by (simp add: option_bytes_def)

lemma put_behind:
  "k = length out \<Longrightarrow> length bs \<le> length rest \<Longrightarrow> put (out @ rest) k bs = Returns ((out @ bs) @ drop (length bs) rest)"
  "k = length out \<Longrightarrow> length s < length rest \<Longrightarrow> strcpy (out @ rest) k s = Returns ((out @ s) @ NUL # drop (length s + 1) rest)"
  by (auto simp: strcpy_def)

lemma bind_if: "bind_outcome (if c then Dies m else Returns x) f = (if c then Dies m else f x)"
  by simp

lemma add_option_exact:
  "add_option (out @ rest) (length out) tag n v =
     (if length (option_bytes tag n v) < length rest
      then Returns ((out @ option_bytes tag n v) @ NUL # drop (length (option_bytes tag n v) + 1) rest, length (out @ option_bytes tag n v))
      else Dies ''buffer overrun'')"
proof -
  let ?o1 = "out @ [char_of tag]" and ?o2 = "out @ [char_of tag] @ be16 (length n)"
  let ?o3 = "out @ [char_of tag] @ be16 (length n) @ n"
  let ?o4 = "out @ [char_of tag] @ be16 (length n) @ n @ be16 (length v)"
  have 1: "put (out @ rest) (length out) [char_of tag] = (if rest = [] then Dies ''buffer overrun'' else Returns (?o1 @ drop 1 rest))"
    using put_at [of out rest "[char_of tag]"] by (cases rest) (auto simp: put_def)
  have k: "length out + 1 = length ?o1" "length out + 3 = length ?o2" "length out + 3 + length n = length ?o3"
    "length out + 5 + length n = length ?o4" by simp_all
  have 2: "put (?o1 @ drop 1 rest) (length out + 1) (be16 (length n)) =
      (if length rest < 3 then Dies ''buffer overrun'' else Returns (?o2 @ drop 3 rest))"
    unfolding k(1) put_at by (auto simp: numeral_3_eq_3)
  have 3: "strcpy (?o2 @ drop 3 rest) (length out + 3) n =
      (if length rest < length n + 4 then Dies ''buffer overrun'' else Returns (?o3 @ NUL # drop (length n + 4) rest))"
    unfolding k(2) strcpy_def put_at by (auto simp: add.commute)
  have 4: "put (?o3 @ NUL # drop (length n + 4) rest) (length out + 3 + length n) (be16 (length v)) =
      (if length rest < length n + 5 then Dies ''buffer overrun'' else Returns (?o4 @ drop (length n + 5) rest))"
    if "\<not> length rest < length n + 4"
    unfolding k(3) put_at using that by (auto simp: numeral_2_eq_2 add.commute)
  have 5: "strcpy (?o4 @ drop (length n + 5) rest) (length out + 5 + length n) v =
      (if length rest < length n + length v + 6 then Dies ''buffer overrun''
       else Returns (?o4 @ v @ NUL # drop (length n + length v + 6) rest))"
    unfolding k(4) strcpy_def put_at by (auto simp: ac_simps)
  have "add_option (out @ rest) (length out) tag n v =
      (if rest = [] then Dies ''buffer overrun'' else if length rest < 3 then Dies ''buffer overrun''
       else if length rest < length n + 4 then Dies ''buffer overrun'' else if length rest < length n + 5 then Dies ''buffer overrun''
       else if length rest < length n + length v + 6 then Dies ''buffer overrun''
       else Returns (?o4 @ v @ NUL # drop (length n + length v + 6) rest, length out + 5 + length n + length v))"
    by (simp only: add_option_def 1 2 3 4 5 bind_if simp_thms cong: if_cong)
  then show ?thesis by (auto simp: option_bytes_def ac_simps) (simp add: eval_nat_numeral)
qed

fun add_options :: "string \<Rightarrow> nat \<Rightarrow> (nat \<times> string \<times> string) list \<Rightarrow> (string \<times> nat) outcome" where
  "add_options buf cp [] = Returns (buf, cp)"
| "add_options buf cp ((tag, n, v) # os) = bind_outcome (add_option buf cp tag n v) (\<lambda>(b, cp1). add_options b cp1 os)"

definition attr_bytes :: "(nat \<times> string \<times> string) list \<Rightarrow> string" where
  "attr_bytes os = concat (map (\<lambda>(tag, n, v). option_bytes tag n v) os)"

lemma attr_bytes_simps [simp]:
  "attr_bytes [] = []" "attr_bytes ((tag, n, v) # os) = option_bytes tag n v @ attr_bytes os"
  by (simp_all add: attr_bytes_def)

lemma add_options_fits:
  "length (attr_bytes os) < length rest \<Longrightarrow>
    \<exists>tail. add_options (out @ rest) (length out) os = Returns ((out @ attr_bytes os) @ tail, length (out @ attr_bytes os)) \<and>
      length tail + length (attr_bytes os) = length rest"
proof (induction os arbitrary: out rest)
  case Nil
  then show ?case by simp
next
  case (Cons x os)
  obtain tag n v where x: "x = (tag, n, v)" by (cases x)
  let ?b = "option_bytes tag n v" and ?r = "NUL # drop (length (option_bytes tag n v) + 1) rest"
  have "length ?b < length rest" using Cons.prems x by simp
  then have "add_options (out @ rest) (length out) (x # os) = add_options ((out @ ?b) @ ?r) (length (out @ ?b)) os"
    using x by (simp only: add_options.simps add_option_exact) simp
  moreover have "length (attr_bytes os) < length ?r" using Cons.prems x by simp
  ultimately show ?case using Cons.IH [of ?r "out @ ?b"] Cons.prems x by auto
qed

lemma add_options_overrun:
  "length rest \<le> length (attr_bytes os) \<Longrightarrow> os \<noteq> [] \<Longrightarrow> add_options (out @ rest) (length out) os = Dies ''buffer overrun''"
proof (induction os arbitrary: out rest)
  case Nil
  then show ?case by simp
next
  case (Cons x os)
  obtain tag n v where x: "x = (tag, n, v)" by (cases x)
  let ?b = "option_bytes tag n v" and ?r = "NUL # drop (length (option_bytes tag n v) + 1) rest"
  show ?case
  proof (cases "length ?b < length rest")
    case True
    then have e: "add_options (out @ rest) (length out) (x # os) = add_options ((out @ ?b) @ ?r) (length (out @ ?b)) os"
      using x by (simp only: add_options.simps add_option_exact) simp
    have "os \<noteq> []" using True Cons.prems x by auto
    with Cons.IH [of ?r "out @ ?b"] True Cons.prems x e show ?thesis by auto
  next
    case False
    then show ?thesis using x by (simp only: add_options.simps add_option_exact) simp
  qed
qed

section \<open>The IPP header\<close>

definition IBUFSZ :: nat where "IBUFSZ = 512"

text \<open>
  The user's name runs into the job's name, the next field, when it is not ended; a job name that is not ended is read
  beyond the request.
\<close>

definition user_text :: "printreq \<Rightarrow> string" where
  "user_text r = cstr (req_usernm r @ req_jobnm r)"

definition doc_format :: "printreq \<Rightarrow> string \<times> nat" where
  "doc_format r = (if req_flags r AND 1 \<noteq> 0 then (''text/plain'', 1) else (''application/postscript'', 0))"

definition ipp_attrs :: "string \<Rightarrow> printreq \<Rightarrow> (nat \<times> string \<times> string) list" where
  "ipp_attrs printer_name r =
     [(0x47, ''attributes-charset'', ''utf-8''),
      (0x48, ''attributes-natural-language'', ''en-us''),
      (0x45, ''printer-uri'', ''http://'' @ printer_name @ ''/ipp''),
      (0x42, ''requesting-user-name'', user_text r),
      (0x42, ''job-name'', cstr (req_jobnm r)),
      (0x49, ''document-format'', fst (doc_format r))]"

text \<open>The set up of the header in \<open>printer_thread\<close>: the result is \<open>ibuf\<close> and \<open>ilen\<close>.\<close>

definition ipp_header :: "string \<Rightarrow> string \<Rightarrow> int \<Rightarrow> printreq \<Rightarrow> (string \<times> nat) outcome" where
  "ipp_header ibuf printer_name jobid r =
     bind_outcome (put ibuf 0 ([char_of (1::nat), char_of (1::nat)] @ be16 0x02 @ be32 jobid)) (\<lambda>b1.
     bind_outcome (put b1 8 [char_of (0x01::nat)]) (\<lambda>b2.
     bind_outcome (strcpy (replicate 64 NUL) 0 (''http://'' @ printer_name @ ''/ipp'')) (\<lambda>str.
     if NUL \<notin> set (req_jobnm r) then Dies ''buffer overrun''
     else bind_outcome (add_options b2 9 (ipp_attrs printer_name r)) (\<lambda>(b3, icp).
       bind_outcome (put b3 icp [char_of (0x03::nat)]) (\<lambda>b4. Returns (b4, icp + 1))))))"

definition ipp_bytes :: "string \<Rightarrow> int \<Rightarrow> printreq \<Rightarrow> string" where
  "ipp_bytes printer_name jobid r =
     [char_of (1::nat), char_of (1::nat)] @ be16 2 @ be32 jobid @ [char_of (1::nat)] @
     attr_bytes (ipp_attrs printer_name r) @ [char_of (3::nat)]"

lemma length_ipp_bytes:
  "length (ipp_bytes pn jobid r) = 160 + length pn + length (user_text r) + length (cstr (req_jobnm r)) + length (fst (doc_format r))"
  by (simp add: ipp_bytes_def ipp_attrs_def)

lemma ipp_header_fits:
  assumes "length ibuf = IBUFSZ" "length pn \<le> 52" "NUL \<in> set (req_jobnm r)" "length (ipp_bytes pn jobid r) \<le> IBUFSZ"
  shows "\<exists>buf. ipp_header ibuf pn jobid r = Returns (buf, length (ipp_bytes pn jobid r)) \<and>
    take (length (ipp_bytes pn jobid r)) buf = ipp_bytes pn jobid r"
proof -
  let ?h = "[char_of (1::nat), char_of (1::nat)] @ be16 2 @ be32 jobid" and ?as = "ipp_attrs pn r"
  let ?h9 = "?h @ [char_of (1::nat)]"
  have h8: "length ?h = 8" and h9: "length ?h9 = 9" by simp_all
  have 1: "put ibuf 0 ?h = Returns (?h @ drop 8 ibuf)" using put_at [of "[]" ibuf ?h] assms(1) by (simp add: IBUFSZ_def)
  have 2: "put (?h @ drop 8 ibuf) 8 [char_of (1::nat)] = Returns (?h9 @ drop 9 ibuf)"
    using put_at [of ?h "drop 8 ibuf" "[char_of (1::nat)]", unfolded h8] assms(1) by (simp add: IBUFSZ_def)
  have 3: "\<exists>s. strcpy (replicate 64 NUL) 0 (''http://'' @ pn @ ''/ipp'') = Returns s"
    using assms(2) by (simp add: strcpy_def put_def)
  have l: "length (attr_bytes ?as) + 10 \<le> IBUFSZ" using assms(4) by (simp add: ipp_bytes_def)
  then have "length (attr_bytes ?as) < length (drop 9 ibuf)" using assms(1) by simp
  from add_options_fits [OF this, of ?h9, unfolded h9] obtain tail where
    4: "add_options (?h9 @ drop 9 ibuf) 9 ?as = Returns ((?h9 @ attr_bytes ?as) @ tail, length (?h9 @ attr_bytes ?as))"
      "length tail + length (attr_bytes ?as) = length (drop 9 ibuf)" by auto
  have "tail \<noteq> []" using 4(2) l assms(1) by auto
  then have 5: "put ((?h9 @ attr_bytes ?as) @ tail) (length (?h9 @ attr_bytes ?as)) [char_of (3::nat)] =
      Returns ((?h9 @ attr_bytes ?as) @ [char_of (3::nat)] @ drop 1 tail)"
    by (simp only: put_at) (cases tail; simp)
  have e: "ipp_bytes pn jobid r = (?h9 @ attr_bytes ?as) @ [char_of (3::nat)]" by (simp add: ipp_bytes_def)
  have "ipp_header ibuf pn jobid r = Returns (ipp_bytes pn jobid r @ drop 1 tail, length (ipp_bytes pn jobid r))"
    using 3 assms(3) by (auto simp only: ipp_header_def 1 2 4 5 bind_outcome.simps e) (simp add: 5 [simplified])
  then show ?thesis by simp
qed

lemma ipp_header_overruns:
  assumes "length ibuf = IBUFSZ" "IBUFSZ < length (ipp_bytes pn jobid r)"
  shows "ipp_header ibuf pn jobid r = Dies ''buffer overrun''"
proof -
  let ?h = "[char_of (1::nat), char_of (1::nat)] @ be16 2 @ be32 jobid" and ?as = "ipp_attrs pn r"
  let ?h9 = "?h @ [char_of (1::nat)]"
  have h8: "length ?h = 8" and h9: "length ?h9 = 9" by simp_all
  have 1: "put ibuf 0 ?h = Returns (?h @ drop 8 ibuf)" using put_at [of "[]" ibuf ?h] assms(1) by (simp add: IBUFSZ_def)
  have 2: "put (?h @ drop 8 ibuf) 8 [char_of (1::nat)] = Returns (?h9 @ drop 9 ibuf)"
    using put_at [of ?h "drop 8 ibuf" "[char_of (1::nat)]", unfolded h8] assms(1) by (simp add: IBUFSZ_def)
  have "length (drop 9 ibuf) \<le> length (attr_bytes ?as)" using assms by (simp add: ipp_bytes_def)
  moreover have "?as \<noteq> []" by (simp add: ipp_attrs_def)
  ultimately have 4: "add_options (?h9 @ drop 9 ibuf) 9 ?as = Dies ''buffer overrun''"
    using add_options_overrun [of "drop 9 ibuf" ?as ?h9, unfolded h9] by simp
  have 3: "strcpy b 0 t = Dies ''buffer overrun'' \<or> (\<exists>u. strcpy b 0 t = Returns u)" for b t by (auto simp: strcpy_def put_def)
  show ?thesis using 3 [of "replicate 64 NUL" "''http://'' @ pn @ ''/ipp''"]
    by (auto simp only: ipp_header_def 1 2 4 bind_outcome.simps if_cancel)
qed

section \<open>The reference decoder\<close>

definition get16 :: "char \<Rightarrow> char \<Rightarrow> nat" where
  "get16 a b = 256 * of_char a + of_char b"

function parse_attrs :: "string \<Rightarrow> (nat \<times> string \<times> string) list option" where
  "parse_attrs bs =
     (case bs of
        [] \<Rightarrow> None
      | t # bs1 \<Rightarrow>
          if t = char_of (3::nat) then (if bs1 = [] then Some [] else None)
          else (case bs1 of
             a # b # bs2 \<Rightarrow>
               (let n = get16 a b in
                case drop n bs2 of
                  c # d # bs3 \<Rightarrow>
                    (let m = get16 c d in
                     if length bs3 < m then None
                     else map_option (\<lambda>os. (of_char t, take n bs2, take m bs3) # os) (parse_attrs (drop m bs3)))
                | _ \<Rightarrow> None)
           | _ \<Rightarrow> None))"
  by pat_completeness auto
termination
proof (relation "measure length", goal_cases)
  case (2 bs t bs1 a z b bs2 n c y d bs3 m)
  then have "length bs = Suc (Suc (Suc (length bs2)))" by simp
  moreover have "length (drop n bs2) = Suc (Suc (length bs3))" using 2 by simp
  ultimately show ?case by simp
qed simp

declare parse_attrs.simps [simp del]

fun ipp_parse :: "string \<Rightarrow> (nat \<times> int \<times> (nat \<times> string \<times> string) list) option" where
  "ipp_parse (v1 # v2 # o1 # o2 # i1 # i2 # i3 # i4 # g # bs) =
     (if v1 = char_of (1::nat) \<and> v2 = char_of (1::nat) \<and> g = char_of (1::nat)
      then map_option (\<lambda>os. (get16 o1 o2, 2 ^ 24 * of_char i1 + 2 ^ 16 * of_char i2 + 2 ^ 8 * of_char i3 + of_char i4, os)) (parse_attrs bs)
      else None)"
| "ipp_parse bs = None"

lemma get16_be16: "n < 65536 \<Longrightarrow> get16 (char_of (n div 256)) (char_of n) = n"
  by (simp add: get16_def)

lemma parse_attr_bytes:
  assumes "list_all (\<lambda>(tag, n, v). tag < 256 \<and> tag \<noteq> 3 \<and> length n < 65536 \<and> length v < 65536) os"
  shows "parse_attrs (attr_bytes os @ [char_of (3::nat)]) = Some os"
  using assms
proof (induction os)
  case Nil
  then show ?case by (simp add: parse_attrs.simps)
next
  case (Cons x os)
  obtain tag n v where x: "x = (tag, n, v)" by (cases x)
  have t: "char_of tag \<noteq> (char_of (3::nat) :: char)"
  proof
    assume "char_of tag = (char_of (3::nat) :: char)"
    then have "(of_char (char_of tag :: char) :: nat) = of_char (char_of (3::nat) :: char)" by (rule arg_cong)
    with Cons.prems x show False by (simp only: of_char_of) simp
  qed
  show ?case using Cons x t by (subst parse_attrs.simps) (simp add: option_bytes_def be16_def get16_be16)
qed

lemma base256:
  fixes j :: int
  shows "j = 256 * a + x \<Longrightarrow> a = 256 * b + y \<Longrightarrow> b = 256 * c + z \<Longrightarrow> 2 ^ 24 * c + 2 ^ 16 * z + 2 ^ 8 * y + x = j"
  by simp

lemma be32_value:
  fixes j :: int
  assumes "0 \<le> j" "j < 2 ^ 32"
  shows "2 ^ 24 * (j div 2 ^ 24 mod 256) + 2 ^ 16 * (j div 2 ^ 16 mod 256) + 2 ^ 8 * (j div 2 ^ 8 mod 256) + j mod 256 = j"
proof -
  let ?a = "j div 256"
  have d: "j div 2 ^ 8 = ?a" "j div 2 ^ 16 = ?a div 256" "j div 2 ^ 24 = ?a div 256 div 256"
    by (simp_all add: zdiv_zmult2_eq [symmetric])
  have "?a div 256 div 256 < 256" using assms(2) by (simp add: zdiv_zmult2_eq [symmetric])
  then have e: "(?a div 256 div 256) mod 256 = ?a div 256 div 256" using assms(1) by (simp add: pos_imp_zdiv_nonneg_iff)
  show ?thesis unfolding d e
    by (rule base256 [OF mult_div_mod_eq [of 256 j, symmetric] mult_div_mod_eq [of 256 ?a, symmetric]
        mult_div_mod_eq [of 256 "?a div 256", symmetric]])
qed

lemma ipp_attrs_ok:
  assumes "length (ipp_bytes pn jobid r) \<le> IBUFSZ"
  shows "list_all (\<lambda>(tag, n, v). tag < 256 \<and> tag \<noteq> 3 \<and> length n < 65536 \<and> length v < 65536) (ipp_attrs pn r)"
  using assms by (simp add: ipp_attrs_def length_ipp_bytes IBUFSZ_def doc_format_def)

lemma ipp_parse_bytes:
  assumes "0 \<le> jobid" "jobid < 2 ^ 32" "length (ipp_bytes pn jobid r) \<le> IBUFSZ"
  shows "ipp_parse (ipp_bytes pn jobid r) = Some (2, jobid, ipp_attrs pn r)"
proof -
  have "get16 (char_of ((2::nat) div 256)) (char_of (2::nat)) = 2" by (simp add: get16_def)
  then show ?thesis
    unfolding ipp_bytes_def be16_def be32_def append_Cons append_Nil ipp_parse.simps parse_attr_bytes [OF ipp_attrs_ok [OF assms(3)]] of_char_of
      be32_value [OF assms(1,2)] by simp
qed

section \<open>The HTTP header\<close>

abbreviation CRLF :: string where "CRLF \<equiv> [CHR 0x0D, NEWLINE]"

definition HBUFSZ :: nat where "HBUFSZ = 512"

fun strcpys :: "string \<Rightarrow> nat \<Rightarrow> string list \<Rightarrow> (string \<times> nat) outcome" where
  "strcpys buf cp [] = Returns (buf, cp)"
| "strcpys buf cp (l # ls) = bind_outcome (strcpy buf cp l) (\<lambda>b. strcpys b (cp + length l) ls)"

definition http_lines :: "string \<Rightarrow> int \<Rightarrow> string list" where
  "http_lines printer_name clen =
     [''POST /ipp HTTP/1.1'' @ CRLF, ''Content-Length: '' @ int_text clen @ CRLF, ''Content-Type: application/ipp'' @ CRLF,
      ''Host: '' @ printer_name @ '':'' @ int_text 631 @ CRLF]"

text \<open>The set up of the header in \<open>printer_thread\<close>: the result is \<open>hbuf\<close> and \<open>hlen\<close>.\<close>

definition http_header :: "string \<Rightarrow> string \<Rightarrow> int \<Rightarrow> (string \<times> nat) outcome" where
  "http_header hbuf printer_name clen =
     bind_outcome (strcpys hbuf 0 (http_lines printer_name clen)) (\<lambda>(b, hcp).
     bind_outcome (put b hcp CRLF) (\<lambda>b1. Returns (b1, hcp + 2)))"

definition http_bytes :: "string \<Rightarrow> int \<Rightarrow> string" where
  "http_bytes printer_name clen = concat (http_lines printer_name clen) @ CRLF"

lemma strcpys_fits:
  "length (concat ls) < length rest \<Longrightarrow>
    \<exists>tail. strcpys (out @ rest) (length out) ls = Returns ((out @ concat ls) @ tail, length (out @ concat ls)) \<and>
      length tail + length (concat ls) = length rest"
proof (induction ls arbitrary: out rest)
  case Nil
  then show ?case by simp
next
  case (Cons l ls)
  let ?r = "NUL # drop (length l + 1) rest"
  have "length l < length rest" using Cons.prems by simp
  then have "strcpys (out @ rest) (length out) (l # ls) = strcpys ((out @ l) @ ?r) (length (out @ l)) ls"
    using put_behind(2) [of "length out" out l rest] by simp
  moreover have "length (concat ls) < length ?r" using Cons.prems by simp
  ultimately show ?case using Cons.IH [of ?r "out @ l"] Cons.prems by auto
qed

lemma http_bytes_bound:
  assumes "length pn \<le> 52" "0 \<le> clen" "clen < 10 ^ 19"
  shows "length (http_bytes pn clen) \<le> HBUFSZ"
proof -
  have "length (int_text clen) \<le> 19" using assms(2,3) length_dec [of 19 "nat clen"] by (simp add: int_text_def nat_less_iff)
  moreover have "length (int_text 631) = 3" by (simp add: int_text_def dec.simps)
  ultimately show ?thesis using assms(1) by (simp add: http_bytes_def http_lines_def HBUFSZ_def)
qed

lemma http_header_fits:
  assumes "length hbuf = HBUFSZ" "length pn \<le> 52" "0 \<le> clen" "clen < 10 ^ 19"
  shows "\<exists>buf. http_header hbuf pn clen = Returns (buf, length (http_bytes pn clen)) \<and>
    take (length (http_bytes pn clen)) buf = http_bytes pn clen"
proof -
  let ?c = "concat (http_lines pn clen)"
  have l: "length ?c + 2 \<le> HBUFSZ" using http_bytes_bound [OF assms(2-4)] by (simp add: http_bytes_def)
  then obtain tail where t: "strcpys hbuf 0 (http_lines pn clen) = Returns (?c @ tail, length ?c)" "length tail + length ?c = HBUFSZ"
    using strcpys_fits [of "http_lines pn clen" hbuf "[]"] assms(1) by auto
  have "put (?c @ tail) (length ?c) CRLF = Returns (http_bytes pn clen @ drop 2 tail)"
    using t(2) l by (simp only: put_at) (simp add: http_bytes_def numeral_2_eq_2)
  with t(1) have "http_header hbuf pn clen = Returns (http_bytes pn clen @ drop 2 tail, length (http_bytes pn clen))"
    by (simp add: http_header_def) (simp add: http_bytes_def)
  then show ?thesis by simp
qed

section \<open>Properties\<close>





end
