(* ===== verification/Print_Spool.thy ===== *)
theory Print_Spool
  imports Print_Util Print_Workers Print_Ipp
begin

text \<open>
  A job on its way into the spool directory: the print command (\<open>submit_file\<close> of \<open>extra_lib/apue.3e/printer/print.c\<close>), the thread of
  the daemon that takes the job (\<open>client_thread\<close> of \<open>printd.c\<close>), and the start of a daemon that finds jobs of its
  predecessor (\<open>build_qonstart\<close>). The host is little endian; a request is 328 bytes and a response 520 bytes.
\<close>

section \<open>Words in memory\<close>

definition host_bytes :: "32 word \<Rightarrow> string" where
  "host_bytes w = rev (be32 (uint w))"

definition host_word :: "string \<Rightarrow> 32 word" where
  "host_word bs = (case map of_char bs of
     [a, b, c, d] \<Rightarrow> word_of_int (2 ^ 24 * d + 2 ^ 16 * c + 2 ^ 8 * b + a)
   | _ \<Rightarrow> 0)"

definition htonl :: "32 word \<Rightarrow> 32 word" where
  "htonl w = host_word (rev (host_bytes w))"

lemma length_host_bytes [simp]: "length (host_bytes w) = 4"
  by (simp add: host_bytes_def)

lemma host_word_bytes [simp]: "host_word (host_bytes w) = w"
proof -
  have "0 \<le> uint w" "uint w < 2 ^ 32" using uint_lt2p [of w] by simp_all
  note be32_value [OF this]
  then show ?thesis
    unfolding host_word_def host_bytes_def be32_def rev.simps append_Nil append_Cons list.map list.case of_char_of by (simp only: word_of_int_uint)
qed

lemma of_char_range: "0 \<le> (of_char e :: int)" "(of_char e :: int) < 256"
  using pos_mod_bound [of 256 "of_char e :: int"] pos_mod_sign [of 256 "of_char e :: int"] by simp_all

lemma be32_bytes:
  fixes a b c d :: char
  shows "be32 (2 ^ 24 * of_char d + 2 ^ 16 * of_char c + 2 ^ 8 * of_char b + of_char a) = [d, c, b, a]"
proof -
  have r: "(256 * x + of_char e :: int) div 256 = x" "(char_of (256 * x + of_char e :: int) :: char) = e" for x and e :: char
  proof -
    show "(256 * x + of_char e :: int) div 256 = x" using of_char_range [of e] by simp
    have "char_of (256 * x + of_char e :: int) = (char_of ((256 * x + of_char e) mod 256 :: int) :: char)" by (simp only: char_of_mod_256)
    then show "(char_of (256 * x + of_char e :: int) :: char) = e" by simp
  qed
  have v: "2 ^ 24 * of_char d + 2 ^ 16 * of_char c + 2 ^ 8 * of_char b + of_char a =
      (256 * (256 * (256 * of_char d + of_char c) + of_char b) + of_char a :: int)" by simp
  have p: "x div 2 ^ 8 = x div 256" "x div 2 ^ 16 = x div 256 div 256" "x div 2 ^ 24 = x div 256 div 256 div 256" for x :: int
    by (simp_all add: zdiv_zmult2_eq [symmetric])
  show ?thesis unfolding be32_def v p r using r(2) [of 0 d] by simp
qed

lemma host_bytes_word: "length bs = 4 \<Longrightarrow> host_bytes (host_word bs) = bs"
proof -
  assume "length bs = 4"
  then obtain a b c d where bs: "bs = [a, b, c, d]" by (auto simp: length_Suc_conv eval_nat_numeral)
  let ?v = "2 ^ 24 * of_char d + 2 ^ 16 * of_char c + 2 ^ 8 * of_char b + of_char a :: int"
  have "0 \<le> ?v" "?v < 2 ^ 32" using of_char_range [of a] of_char_range [of b] of_char_range [of c] of_char_range [of d] by simp_all
  moreover have "uint (word_of_int v :: 32 word) = v" if "0 \<le> v" "v < 2 ^ 32" for v :: int
    using that by (simp add: uint_word_of_int)
  ultimately have "uint (word_of_int ?v :: 32 word) = ?v" by blast
  then show ?thesis unfolding bs host_word_def host_bytes_def list.map list.case using be32_bytes [of d c b a] by simp
qed

lemma htonl_htonl [simp]: "htonl (htonl w) = w"
  by (simp add: htonl_def host_bytes_word)

section \<open>Requests and responses in memory\<close>

definition USERNM_MAX :: nat where "USERNM_MAX = 64"
definition JOBNM_MAX :: nat where "JOBNM_MAX = 256"
definition REQ_SIZE :: nat where "REQ_SIZE = 328"

definition req_bytes :: "printreq \<Rightarrow> string" where
  "req_bytes r = host_bytes (req_size r) @ host_bytes (req_flags r) @ req_usernm r @ req_jobnm r"

definition req_of :: "string \<Rightarrow> printreq" where
  "req_of bs = \<lparr>req_size = host_word (take 4 bs), req_flags = host_word (take 4 (drop 4 bs)),
     req_usernm = take USERNM_MAX (drop 8 bs), req_jobnm = take JOBNM_MAX (drop (8 + USERNM_MAX) bs)\<rparr>"

definition req_wf :: "printreq \<Rightarrow> bool" where
  "req_wf r \<longleftrightarrow> length (req_usernm r) = USERNM_MAX \<and> length (req_jobnm r) = JOBNM_MAX"

lemma req_of_bytes [simp]: "req_wf r \<Longrightarrow> req_of (req_bytes r) = r"
  by (simp add: req_of_def req_bytes_def req_wf_def USERNM_MAX_def)

lemma length_req_bytes [simp]: "req_wf r \<Longrightarrow> length (req_bytes r) = REQ_SIZE"
  by (simp add: req_bytes_def req_wf_def USERNM_MAX_def JOBNM_MAX_def REQ_SIZE_def)

text \<open>A response, with its numbers as they are in memory, in network byte order.\<close>

record printresp =
  res_retcode :: "32 word"
  res_jobid :: "32 word"
  res_msg :: string

section \<open>The print command\<close>

text \<open>
  The header that \<open>submit_file\<close> builds: \<open>pw\<close> is the entry of the user in the password file; \<open>junk\<close> are the bytes of the
  structure that are not set.
\<close>

definition submit_user :: "(nat \<Rightarrow> char) \<Rightarrow> string option \<Rightarrow> string" where
  "submit_user junk pw =
     (case pw of
        None \<Rightarrow> take USERNM_MAX (''unknown'' @ [NUL] @ map junk [0..<USERNM_MAX])
      | Some nm \<Rightarrow> take (USERNM_MAX - 1) (nm @ replicate USERNM_MAX NUL) @ [NUL])"

definition submit_name :: "(nat \<Rightarrow> char) \<Rightarrow> string \<Rightarrow> string" where
  "submit_name junk fname =
     (let len = length fname in
      if len \<ge> JOBNM_MAX then ''... '' @ drop (len - JOBNM_MAX + 5) fname @ [NUL]
      else take JOBNM_MAX (fname @ [NUL] @ map junk [0..<JOBNM_MAX]))"

definition PR_TEXT :: "32 word" where "PR_TEXT = 0x01"

definition submit_header :: "(nat \<Rightarrow> char) \<Rightarrow> string option \<Rightarrow> string \<Rightarrow> nat \<Rightarrow> bool \<Rightarrow> printreq" where
  "submit_header junk pw fname nbytes txt =
     \<lparr>req_size = htonl (of_nat nbytes), req_flags = (if txt then htonl PR_TEXT else 0),
      req_usernm = submit_user junk pw, req_jobnm = submit_name junk fname\<rparr>"

text \<open>
  Sending the file: \<open>None\<close> is a write that blocks. A read that fails makes the length of the next write \<open>(size_t)(-1)\<close>, far beyond
  the buffer.
\<close>

function submit_data :: "rdfd \<Rightarrow> wr_event list \<Rightarrow> string \<Rightarrow> (string \<times> wr_event list) outcome option" where
  "submit_data fd es out =
     (case sys_read 8192 fd of
        (ReadErr e, fd1) \<Rightarrow> Some (Dies ''buffer overrun'')
      | (Bytes bs, fd1) \<Rightarrow>
          if bs = [] then Some (Returns (out, es))
          else (case apue_writen es bs out of
             None \<Rightarrow> None
           | Some (nw, out1, es1) \<Rightarrow>
               if nw \<noteq> int (length bs) then Some (Dies (if nw < 0 then ''can't write to print server'' else ''short write to print server''))
               else submit_data fd1 es1 out1))"
  by pat_completeness auto
termination
  by (relation "measure (\<lambda>(fd, es, out). fd_size fd)") (auto dest: sys_read_size(3) [OF sym])

declare submit_data.simps [simp del]

text \<open>What the command prints at the end, from the bytes of the response.\<close>

definition submit_result :: "rdfd \<Rightarrow> string outcome" where
  "submit_result sock =
     (let ((nr, e, bs), _) = apue_readn sock 520 in
      if nr \<noteq> 520 then Dies ''can't read response from server''
      else if host_word (take 4 bs) \<noteq> 0 then Dies (''rejected: '' @ cstr (drop 8 bs))
      else Returns (''job ID '' @ dec (unat (htonl (host_word (take 4 (drop 4 bs)))))))"

definition submit_file :: "(nat \<Rightarrow> char) \<Rightarrow> string option \<Rightarrow> string \<Rightarrow> nat \<Rightarrow> bool \<Rightarrow> rdfd \<Rightarrow> wr_event list \<Rightarrow> (string \<times> wr_event list) outcome option" where
  "submit_file junk pw fname nbytes txt fd es =
     (let req = submit_header junk pw fname nbytes txt in
      case apue_writen es (req_bytes req) [] of
        None \<Rightarrow> None
      | Some (nw, out, es1) \<Rightarrow>
          if nw \<noteq> int REQ_SIZE then Some (Dies (if nw < 0 then ''can't write to print server'' else ''short write to print server''))
          else submit_data fd es1 out)"

section \<open>The thread of a client\<close>

text \<open>The state of the daemon that its threads share.\<close>

record printd =
  pd_q :: printq
  pd_nextjob :: int
  pd_jobfile :: string
  pd_fs :: "string \<Rightarrow> string option"
  pd_workers :: workerq

definition data_name :: "int \<Rightarrow> string" where
  "data_name jobid = ''/var/spool/printer/data/'' @ int_text jobid"

definition reqs_name :: "int \<Rightarrow> string" where
  "reqs_name jobid = ''/var/spool/printer/reqs/'' @ int_text jobid"

text \<open>
  What a client thread meets: the memory for its cell and its number, its socket, the results of its system calls (0, or the
  error), and the memory for the job.
\<close>

record cenv =
  ce_mem :: "nat option"
  ce_tid :: nat
  ce_sockfd :: int
  ce_sock :: rdfd
  ce_creat_data :: int
  ce_write_data :: "nat \<Rightarrow> wr_event"
  ce_creat_req :: int
  ce_write_req :: wr_event
  ce_jobmem :: "nat option"
  ce_stack :: string

text \<open>
  The loop that stores the file: the error of a write, or the flag and the bytes stored. A read that fails ends the loop
  like the end of the file. Before the first byte arrives the buffer holds \<open>stack\<close>.
\<close>

function store_data :: "(nat \<Rightarrow> wr_event) \<Rightarrow> string \<Rightarrow> rdfd \<Rightarrow> nat \<Rightarrow> bool \<Rightarrow> string \<Rightarrow> int + bool \<times> string" where
  "store_data wr stack sock k txt stored =
     (case tread sock 8192 of
        (ReadErr e, sock1) \<Rightarrow> Inr (txt, stored)
      | (Bytes bs, sock1) \<Rightarrow>
          if bs = [] then Inr (txt, stored)
          else let txt1 = (if k = 0 \<and> take 4 (bs @ stack) \<noteq> ''%!PS'' then True else txt) in
            (case wr k of
               WrErr e \<Rightarrow> Inl e
             | Accept n \<Rightarrow> if n < length bs then Inl EIO else store_data wr stack sock1 (k + 1) txt1 (stored @ bs)))"
  by pat_completeness auto
termination
  by (relation "measure (\<lambda>(wr, stack, sock, k, txt, stored). fd_size sock)") (auto simp: tread_def dest: sys_read_size(3) [OF sym])

declare store_data.simps [simp del]

text \<open>A rejection: the message is that of the error number in network byte order. \<open>strerror\<close> is the C library's.\<close>

definition reject :: "(int \<Rightarrow> string) \<Rightarrow> int \<Rightarrow> printresp" where
  "reject strerror errno =
     (let rc = htonl (word_of_int errno) in \<lparr>res_retcode = rc, res_jobid = 0, res_msg = take 512 (strerror (sint rc))\<rparr>)"

text \<open>
  The thread from the request header to the queue: the response it sends and the state; the list of workers is
  handled around it.
\<close>

definition serve_client :: "(int \<Rightarrow> string) \<Rightarrow> cenv \<Rightarrow> printd \<Rightarrow> (printresp \<times> printd) outcome" where
  "serve_client strerror ce s =
     (let ((n, e, hdr), sock) = treadn (ce_sock ce) REQ_SIZE in
      if n \<noteq> int REQ_SIZE then Returns (reject strerror (if n < 0 then e else EIO), s)
      else
        let raw = req_of hdr;
            req = raw\<lparr>req_size := htonl (req_size raw), req_flags := htonl (req_flags raw)\<rparr>;
            (jobid, next) = get_newjobno (pd_nextjob s);
            s1 = s\<lparr>pd_nextjob := next\<rparr> in
        if ce_creat_data ce \<noteq> 0 then Returns (reject strerror (ce_creat_data ce), s1)
        else case store_data (ce_write_data ce) (ce_stack ce) sock 0 False [] of
          Inl e \<Rightarrow> Returns (reject strerror e, s1\<lparr>pd_fs := (pd_fs s1)(data_name jobid := None)\<rparr>)
        | Inr (txt, content) \<Rightarrow>
            let req1 = (if txt then req\<lparr>req_flags := req_flags req OR PR_TEXT\<rparr> else req);
                s2 = s1\<lparr>pd_fs := (pd_fs s1)(data_name jobid \<mapsto> content)\<rparr> in
            if ce_creat_req ce \<noteq> 0
            then Returns (reject strerror (ce_creat_req ce), s2\<lparr>pd_fs := (pd_fs s2)(data_name jobid := None)\<rparr>)
            else case ce_write_req ce of
              WrErr e \<Rightarrow> Returns (reject strerror e, s2\<lparr>pd_fs := (pd_fs s2)(reqs_name jobid := None, data_name jobid := None)\<rparr>)
            | Accept k \<Rightarrow>
                if k < REQ_SIZE
                then Returns (reject strerror EIO, s2\<lparr>pd_fs := (pd_fs s2)(reqs_name jobid := None, data_name jobid := None)\<rparr>)
                else bind_outcome (add_job (ce_jobmem ce) req1 jobid (pd_q s2)) (\<lambda>q.
                       Returns (\<lparr>res_retcode = 0, res_jobid = htonl (word_of_int jobid), res_msg = ''request ID '' @ int_text jobid\<rparr>,
                         s2\<lparr>pd_fs := (pd_fs s2)(reqs_name jobid \<mapsto> req_bytes req1), pd_q := q\<rparr>)))"

text \<open>With the list of workers: \<open>None\<close> is a search that does not end.\<close>

definition client_thread :: "(int \<Rightarrow> string) \<Rightarrow> cenv \<Rightarrow> printd \<Rightarrow> (printresp option \<times> printd) outcome option" where
  "client_thread strerror ce s =
     (case add_worker (ce_mem ce) (ce_tid ce) (ce_sockfd ce) (pd_workers s) of
        Dies m \<Rightarrow> Some (Dies m)
      | Returns (ok, w) \<Rightarrow>
          (case (if ok then bind_outcome (serve_client strerror ce (s\<lparr>pd_workers := w\<rparr>)) (\<lambda>(r, t). Returns (Some r, t))
                 else Returns (None, s\<lparr>pd_workers := w\<rparr>)) of
             Dies m \<Rightarrow> Some (Dies m)
           | Returns (r, t) \<Rightarrow>
               map_option (\<lambda>c. bind_outcome c (\<lambda>w1. Returns (r, t\<lparr>pd_workers := w1\<rparr>))) (client_cleanup (ce_tid ce) (pd_workers t))))"

section \<open>The start of a daemon\<close>

text \<open>
  \<open>build_qonstart\<close> over the names of the directory; \<open>readable\<close> says whether \<open>read\<close> succeeds, \<open>mems\<close> are the results of
  \<open>malloc\<close>.
\<close>

fun build_loop :: "(string \<Rightarrow> bool) \<Rightarrow> string list \<Rightarrow> nat option list \<Rightarrow> printd \<Rightarrow> printd outcome" where
  "build_loop readable [] mems s = Returns s"
| "build_loop readable (d_name # ents) mems s =
     (if d_name = ''.'' \<or> d_name = ''..'' then build_loop readable ents mems s
      else let fname = ''/var/spool/printer/reqs/'' @ d_name in
        case pd_fs s fname of
          None \<Rightarrow> build_loop readable ents mems s
        | Some bs \<Rightarrow>
            if \<not> readable fname \<or> length bs < REQ_SIZE
            then build_loop readable ents mems (s\<lparr>pd_fs := (pd_fs s)(fname := None, ''/var/spool/printer/data/'' @ d_name := None)\<rparr>)
            else (case mems of
               [] \<Rightarrow> Dies ''malloc failed''
             | m # ms \<Rightarrow>
                 bind_outcome (add_job m (req_of (take REQ_SIZE bs)) (to_int32 (atol d_name)) (pd_q s)) (\<lambda>q.
                   build_loop readable ents ms (s\<lparr>pd_q := q\<rparr>))))"

text \<open>\<open>dir\<close> is the content of the directory, when it can be opened.\<close>

definition build_qonstart :: "(string \<Rightarrow> bool) \<Rightarrow> string list option \<Rightarrow> nat option list \<Rightarrow> printd \<Rightarrow> printd outcome" where
  "build_qonstart readable dir mems s = (case dir of None \<Rightarrow> Returns s | Some ents \<Rightarrow> build_loop readable ents mems s)"

section \<open>What the command sends\<close>

lemma submit_header_wf: "req_wf (submit_header junk pw fname nbytes txt)"
  by (auto simp: req_wf_def submit_header_def submit_user_def submit_name_def USERNM_MAX_def JOBNM_MAX_def Let_def split: option.splits)

lemma submit_data_all:
  assumes "quiet fd" "takes (length (stream fd) + m) es"
  shows "\<exists>es'. submit_data fd es out = Some (Returns (out @ stream fd, es')) \<and> takes m es'"
  using assms
proof (induction "length (stream fd)" arbitrary: fd es out rule: less_induct)
  case less
  show ?case
  proof (cases "stream fd = []")
    case True
    then have "fd = []" using less.prems(1) sys_read_one(2) by blast
    then show ?thesis using less.prems by (subst submit_data.simps) simp
  next
    case False
    obtain bs es0 fd1 where t: "take 8192 bs \<noteq> []" "quiet fd1" "tread (fd @ []) 8192 = (Bytes (take 8192 bs), fd1 @ [])"
      "stream fd = take 8192 bs @ stream fd1"
      using tread_chunk [OF less.prems(1) False, of 8192 "[]"] by (metis zero_less_numeral)
    obtain es1 where w: "apue_writen es (take 8192 bs) out = Some (int (length (take 8192 bs)), out @ take 8192 bs, es1)"
      "takes (length (stream fd1) + m) es1"
      using apue_writen_all [of "take 8192 bs" "length (stream fd1) + m" es out] less.prems(2) t(4) by (auto simp: add.assoc)
    have "submit_data fd es out = submit_data fd1 es1 (out @ take 8192 bs)"
      using t(1,3) w(1) by (subst submit_data.simps) (simp add: tread_def)
    moreover have "length (stream fd1) < length (stream fd)" using t(1,4) by simp
    ultimately show ?thesis using less.hyps [OF _ t(2) w(2), of "out @ take 8192 bs"] t(4) by simp
  qed
qed

lemma submit_file_sends:
  assumes "quiet fd" "takes (REQ_SIZE + length (stream fd)) es"
  shows "\<exists>es'. submit_file junk pw fname nbytes txt fd es =
    Some (Returns (req_bytes (submit_header junk pw fname nbytes txt) @ stream fd, es'))"
proof -
  let ?r = "submit_header junk pw fname nbytes txt"
  have l: "length (req_bytes ?r) = REQ_SIZE" using submit_header_wf by simp
  with apue_writen_all [of "req_bytes ?r" "length (stream fd)" es "[]"] assms(2) obtain es1 where
    w: "apue_writen es (req_bytes ?r) [] = Some (int REQ_SIZE, req_bytes ?r, es1)" "takes (length (stream fd)) es1" by auto
  with submit_data_all [OF assms(1), of 0 es1 "req_bytes ?r"] show ?thesis by (auto simp: submit_file_def)
qed

text \<open>The names that the daemon sees.\<close>

lemma submit_user_text:
  assumes "NUL \<notin> set nm" "length nm \<le> 63"
  shows "cstr (submit_user junk (Some nm) @ x) = nm"
proof -
  have "submit_user junk (Some nm) @ x = nm @ NUL # drop 1 (replicate (64 - length nm) NUL) @ x"
  proof -
    have "replicate (64 - length nm) NUL = NUL # drop 1 (replicate (64 - length nm) NUL)" using assms(2) by (cases "64 - length nm") auto
    moreover have "take (63 - length nm) (replicate 64 NUL) @ [NUL] = replicate (64 - length nm) NUL"
      using assms(2) by (simp add: replicate_append_same flip: replicate_Suc)
    ultimately show ?thesis using assms(2) by (simp add: submit_user_def USERNM_MAX_def)
  qed
  with assms(1) show ?thesis by simp
qed

lemma submit_name_text:
  assumes "NUL \<notin> set fname"
  shows "cstr (submit_name junk fname) = (if length fname < 256 then fname else ''... '' @ drop (length fname - 251) fname)"
proof (cases "length fname < 256")
  case True
  then have "256 - length fname = Suc (255 - length fname)" by simp
  with True have "submit_name junk fname = fname @ NUL # take (255 - length fname) (map junk [0..<JOBNM_MAX])"
    by (simp add: submit_name_def Let_def JOBNM_MAX_def)
  with assms True show ?thesis by simp
next
  case False
  then have "submit_name junk fname = (''... '' @ drop (length fname - 251) fname) @ NUL # []"
    by (simp add: submit_name_def Let_def JOBNM_MAX_def)
  moreover have "NUL \<notin> set (''... '' @ drop (length fname - 251) fname)" using assms by (auto dest: in_set_dropD)
  ultimately show ?thesis using False cstr_ends by metis
qed

section \<open>What the daemon stores\<close>

definition writes_ok :: "(nat \<Rightarrow> wr_event) \<Rightarrow> bool" where
  "writes_ok wr \<longleftrightarrow> (\<forall>k. \<exists>n\<ge>8192. wr k = Accept n)"

lemma store_data_all:
  assumes "quiet cs" "ends rest" "writes_ok wr"
  shows "\<exists>t. store_data wr stack (cs @ rest) k tx stored = Inr (t, stored @ stream cs) \<and>
    (k \<noteq> 0 \<or> stream cs = [] \<longrightarrow> t = tx) \<and> (k = 0 \<and> stream cs \<noteq> [] \<and> hd (stream cs) \<noteq> CHR ''%'' \<longrightarrow> t)"
  using assms
proof (induction "length (stream cs)" arbitrary: cs k tx stored rule: less_induct)
  case less
  show ?case
  proof (cases "stream cs = []")
    case True
    then have "cs = []" using less.prems(1) sys_read_one(2) by blast
    then have "store_data wr stack (cs @ rest) k tx stored = Inr (tx, stored)"
      using less.prems(2) by (subst store_data.simps) (auto simp: ends_def tread_def)
    with True show ?thesis by simp
  next
    case False
    obtain bs es cs1 where t: "take 8192 bs \<noteq> []" "quiet cs1" "tread (cs @ rest) 8192 = (Bytes (take 8192 bs), cs1 @ rest)"
      "stream cs = take 8192 bs @ stream cs1"
      using tread_chunk [OF less.prems(1) False, of 8192 rest] by (metis zero_less_numeral)
    obtain n where n: "wr k = Accept n" "8192 \<le> n" using less.prems(3) by (auto simp: writes_ok_def)
    let ?t = "if k = 0 \<and> take 4 (take 8192 bs @ stack) \<noteq> ''%!PS'' then True else tx"
    have "\<not> n < length (take 8192 bs)" using n(2) by simp
    then have e: "store_data wr stack (cs @ rest) k tx stored = store_data wr stack (cs1 @ rest) (k + 1) ?t (stored @ take 8192 bs)"
      using t(1,3) n(1) by (subst store_data.simps) (simp only: prod.case rd_result.case wr_event.case Let_def if_False)
    have "length (stream cs1) < length (stream cs)" using t(1,4) by simp
    from less.hyps [OF this t(2) less.prems(2,3), of "k + 1" ?t "stored @ take 8192 bs"] t(4) e
    have "store_data wr stack (cs @ rest) k tx stored = Inr (?t, stored @ stream cs)" by auto
    moreover have "?t" if "k = 0" "hd (stream cs) \<noteq> CHR ''%''"
    proof -
      obtain c cs' where l: "take 8192 bs = c # cs'" using t(1) by (cases "take 8192 bs") auto
      have "take 4 (take 8192 bs @ stack) = c # take 3 (cs' @ stack)" unfolding l by simp
      moreover have "hd (stream cs) = c" using t(4) unfolding l by simp
      ultimately show ?thesis using that by simp
    qed
    ultimately show ?thesis using False by auto
  qed
qed

text \<open>All calls of the thread succeed.\<close>

definition calls_ok :: "cenv \<Rightarrow> bool" where
  "calls_ok ce \<longleftrightarrow> ce_creat_data ce = 0 \<and> writes_ok (ce_write_data ce) \<and> ce_creat_req ce = 0 \<and> (\<exists>k\<ge>REQ_SIZE. ce_write_req ce = Accept k)"

lemma names_differ [simp]: "data_name m \<noteq> reqs_name n"
  by (simp add: data_name_def reqs_name_def)

text \<open>The request as the daemon keeps it.\<close>

definition kept_request :: "printreq \<Rightarrow> bool \<Rightarrow> printreq" where
  "kept_request raw t = (let r = raw\<lparr>req_size := htonl (req_size raw), req_flags := htonl (req_flags raw)\<rparr> in
     if t then r\<lparr>req_flags := req_flags r OR PR_TEXT\<rparr> else r)"

lemma serve_client_accepts:
  assumes "ce_sock ce = cs @ rest" "quiet cs" "ends rest" "stream cs = req_bytes raw @ content" "req_wf raw" "calls_ok ce"
    "ce_jobmem ce = Some a" "pq_heap (pd_q s) a = None" "pq_rep (pd_q s) as" "1 \<le> pd_nextjob s" "pd_nextjob s \<le> jobno_max"
  shows "\<exists>t f. let n = pd_nextjob s in
    serve_client strerror ce s = Returns (\<lparr>res_retcode = 0, res_jobid = htonl (word_of_int n), res_msg = ''request ID '' @ int_text n\<rparr>, t) \<and>
    pd_fs t = (pd_fs s)(data_name n \<mapsto> content, reqs_name n \<mapsto> req_bytes (kept_request raw f)) \<and>
    pq_rep (pd_q t) (as @ [a]) \<and> pq_item (pd_q t) = (pq_item (pd_q s))(a \<mapsto> (n, kept_request raw f)) \<and>
    (content \<noteq> [] \<and> hd content \<noteq> CHR ''%'' \<longrightarrow> f)"
proof -
  let ?n = "pd_nextjob s"
  have l: "length (req_bytes raw) = REQ_SIZE" using assms(5) by simp
  then obtain cs1 where h: "treadn (ce_sock ce) REQ_SIZE = ((int REQ_SIZE, 0, req_bytes raw), cs1 @ rest)" "stream cs1 = content" "quiet cs1"
    using treadn_all [OF assms(2), of REQ_SIZE rest] assms(1,4) by auto
  obtain f where f: "store_data (ce_write_data ce) (ce_stack ce) (cs1 @ rest) 0 False [] = Inr (f, content)"
    "content \<noteq> [] \<and> hd content \<noteq> CHR ''%'' \<longrightarrow> f"
    using store_data_all [OF h(3) assms(3), of "ce_write_data ce" "ce_stack ce" 0 False "[]"] assms(6) h(2) by (auto simp: calls_ok_def)
  have j: "get_newjobno ?n = (?n, ?n mod jobno_max + 1)" using get_newjobno_next [OF assms(10,11)] .
  obtain q where q: "add_job (Some a) (kept_request raw f) ?n (pd_q s) = Returns q" "pq_rep q (as @ [a])"
    "pq_item q = (pq_item (pd_q s))(a \<mapsto> (?n, kept_request raw f))"
    using add_job_rep [OF assms(9,8), of "kept_request raw f" ?n] by blast
  obtain k where k: "ce_write_req ce = Accept k" "\<not> k < REQ_SIZE" using assms(6) by (auto simp: calls_ok_def not_less)
  let ?fs = "(pd_fs s)(data_name ?n \<mapsto> content)"
  have "serve_client strerror ce s = Returns (\<lparr>res_retcode = 0, res_jobid = htonl (word_of_int ?n), res_msg = ''request ID '' @ int_text ?n\<rparr>,
      s\<lparr>pd_nextjob := ?n mod jobno_max + 1, pd_fs := ?fs(reqs_name ?n \<mapsto> req_bytes (kept_request raw f)), pd_q := q\<rparr>)"
    using assms(6,7) k q(1) unfolding serve_client_def h(1) Let_def prod.case j f(1) req_of_bytes [OF assms(5)]
    by (cases f) (simp_all add: calls_ok_def kept_request_def)
  with q(2,3) f(2) show ?thesis by (auto simp: Let_def)
qed

lemma htonl_zero [simp]: "htonl 0 = 0"
  by (simp add: htonl_def host_bytes_def be32_def host_word_def)

lemma kept_request_fields [simp]:
  "req_size (kept_request raw t) = htonl (req_size raw)" "req_usernm (kept_request raw t) = req_usernm raw"
  "req_jobnm (kept_request raw t) = req_jobnm raw"
  "req_flags (kept_request raw t) = (if t then htonl (req_flags raw) OR PR_TEXT else htonl (req_flags raw))"
  by (simp_all add: kept_request_def Let_def)

lemma kept_request_wf: "req_wf raw \<Longrightarrow> req_wf (kept_request raw t)"
  by (simp add: req_wf_def)

section \<open>Recovery\<close>

lemma build_loop_recovers:
  assumes "pq_rep (pd_q s) bs" "distinct as" "set as \<inter> dom (pq_heap (pd_q s)) = {}" "length as = length jobs"
    "list_all (\<lambda>(n, r). 1 \<le> n \<and> n \<le> jobno_max \<and> req_wf r \<and> pd_fs s (reqs_name n) = Some (req_bytes r)) jobs"
  shows "\<exists>t. build_loop (\<lambda>_. True) (map (\<lambda>(n, r). int_text n) jobs) (map Some as) s = Returns t \<and> pq_rep (pd_q t) (bs @ as) \<and>
    map (pq_item (pd_q t)) as = map Some jobs \<and> (\<forall>b. b \<notin> set as \<longrightarrow> pq_item (pd_q t) b = pq_item (pd_q s) b) \<and> pd_fs t = pd_fs s"
  using assms
proof (induction jobs arbitrary: s bs as)
  case Nil
  then show ?case by simp
next
  case (Cons j jobs)
  obtain n r where j: "j = (n, r)" by (cases j)
  obtain a as' where as: "as = a # as'" using Cons.prems(4) by (cases as) auto
  have n: "1 \<le> n" "n \<le> jobno_max" and r: "req_wf r" "pd_fs s (reqs_name n) = Some (req_bytes r)" using Cons.prems(5) j by auto
  have na: "pq_heap (pd_q s) a = None" using Cons.prems(3) as by auto
  obtain q where q: "add_job (Some a) r n (pd_q s) = Returns q" "pq_rep q (bs @ [a])" "pq_item q = (pq_item (pd_q s))(a \<mapsto> (n, r))"
    using add_job_rep [OF Cons.prems(1) na, of r n] by blast
  have dq: "dom (pq_heap q) = insert a (dom (pq_heap (pd_q s)))" using arg_cong [OF q(3), of dom] by simp
  obtain c cs where c: "dec (nat n) = c # cs" "isdigit c" using dec_isdigit [of _ "nat n"] by (cases "dec (nat n)") auto
  have d: "int_text n \<noteq> ''.''" "int_text n \<noteq> ''..''" using n c by (auto simp: int_text_def isdigit_def)
  have at: "to_int32 (atol (int_text n)) = n" using n by (simp add: int_text_def)
  let ?s = "s\<lparr>pd_q := q\<rparr>"
  have "build_loop (\<lambda>_. True) (map (\<lambda>(n, r). int_text n) (j # jobs)) (map Some as) s =
      build_loop (\<lambda>_. True) (map (\<lambda>(n, r). int_text n) jobs) (map Some as') ?s"
    using d r q(1) at j as by (simp add: Let_def reqs_name_def)
  moreover obtain t where t: "build_loop (\<lambda>_. True) (map (\<lambda>(n, r). int_text n) jobs) (map Some as') ?s = Returns t"
    "pq_rep (pd_q t) ((bs @ [a]) @ as')" "map (pq_item (pd_q t)) as' = map Some jobs"
    "\<forall>b. b \<notin> set as' \<longrightarrow> pq_item (pd_q t) b = pq_item q b" "pd_fs t = pd_fs s"
    using Cons.IH [of ?s "bs @ [a]" as'] Cons.prems q(2) as dq by auto
  ultimately show ?case using as j q(3) Cons.prems(2) by auto
qed

section \<open>Properties\<close>

text \<open>
  C10. From the command to the queue: what \<open>submit_file\<close> sends for a file, arriving at the daemon in any pieces and followed by the
  end of the connection or a timeout, is spooled. The data file has the bytes of the file; the
  control file and the new last job of the queue have the number of the job, the size, the user and the name of the file (the end
  of it when it is longer than 255 characters), and the text flag if it was asked for or the file begins with another byte than
  the percent sign of PostScript; the response names the job.
\<close>

theorem print_job_spooled:
  assumes "quiet file" "takes (REQ_SIZE + length (stream file)) es" "NUL \<notin> set nm" "length nm \<le> 63" "NUL \<notin> set fname"
    "\<exists>es'. submit_file junk (Some nm) fname nbytes txt file es = Some (Returns (stream cs, es'))"
    "ce_sock ce = cs @ rest" "quiet cs" "ends rest" "calls_ok ce"
    "ce_jobmem ce = Some a" "pq_heap (pd_q s) a = None" "pq_rep (pd_q s) as" "1 \<le> pd_nextjob s" "pd_nextjob s \<le> jobno_max"
  shows "\<exists>t r n. n = pd_nextjob s \<and>
    serve_client strerror ce s = Returns (\<lparr>res_retcode = 0, res_jobid = htonl (word_of_int n), res_msg = ''request ID '' @ int_text n\<rparr>, t) \<and>
    pd_fs t = (pd_fs s)(data_name n \<mapsto> stream file, reqs_name n \<mapsto> req_bytes r) \<and>
    pq_rep (pd_q t) (as @ [a]) \<and> pq_item (pd_q t) a = Some (n, r) \<and>
    req_size r = of_nat nbytes \<and> user_text r = nm \<and>
    cstr (req_jobnm r) = (if length fname < 256 then fname else ''... '' @ drop (length fname - 251) fname) \<and>
    (txt \<or> stream file \<noteq> [] \<and> hd (stream file) \<noteq> CHR ''%'' \<longrightarrow> req_flags r = PR_TEXT)"
proof -
  let ?h = "submit_header junk (Some nm) fname nbytes txt"
  have "stream cs = req_bytes ?h @ stream file"
    using submit_file_sends [OF assms(1,2), of junk "Some nm" fname nbytes "txt"] assms(6) by auto
  from serve_client_accepts [OF assms(7-9) this submit_header_wf assms(10-15), of strerror] obtain t f where
    t: "serve_client strerror ce s = Returns (\<lparr>res_retcode = 0, res_jobid = htonl (word_of_int (pd_nextjob s)),
        res_msg = ''request ID '' @ int_text (pd_nextjob s)\<rparr>, t)"
      "pd_fs t = (pd_fs s)(data_name (pd_nextjob s) \<mapsto> stream file, reqs_name (pd_nextjob s) \<mapsto> req_bytes (kept_request ?h f))"
      "pq_rep (pd_q t) (as @ [a])" "pq_item (pd_q t) = (pq_item (pd_q s))(a \<mapsto> (pd_nextjob s, kept_request ?h f))"
      "stream file \<noteq> [] \<and> hd (stream file) \<noteq> CHR ''%'' \<longrightarrow> f"
    by (auto simp: Let_def)
  have "user_text (kept_request ?h f) = nm"
    using submit_user_text [OF assms(3,4), of junk] by (simp add: user_text_def) (simp add: submit_header_def)
  moreover have "cstr (req_jobnm (kept_request ?h f)) = (if length fname < 256 then fname else ''... '' @ drop (length fname - 251) fname)"
    using submit_name_text [OF assms(5), of junk] by (simp add: submit_header_def)
  moreover have "req_size (kept_request ?h f) = of_nat nbytes" by (simp add: submit_header_def)
  moreover have "txt \<or> stream file \<noteq> [] \<and> hd (stream file) \<noteq> CHR ''%'' \<longrightarrow> req_flags (kept_request ?h f) = PR_TEXT"
    using t(5) by (auto simp: submit_header_def)
  ultimately show ?thesis using t(1-4) by (intro exI [of _ t] exI [of _ "kept_request ?h f"] exI [of _ "pd_nextjob s"]) simp
qed

theorem print_job_spooled_witness:
  "\<exists>ce s t r. ce_sock ce = [Chunk (req_bytes (submit_header (\<lambda>_. NUL) (Some ''bob'') ''f.txt'' 2 False)), Chunk ''hi'', RdErr ETIME] \<and>
    serve_client (\<lambda>_. []) ce s = Returns (r, t) \<and> res_retcode r = 0 \<and> pd_fs t (data_name 7) = Some ''hi'' \<and>
    (\<exists>q. pq_item (pd_q t) 1 = Some (7, q) \<and> user_text q = ''bob'' \<and> cstr (req_jobnm q) = ''f.txt'' \<and> req_flags q = PR_TEXT)"
proof -
  let ?h = "req_bytes (submit_header (\<lambda>_. NUL) (Some ''bob'') ''f.txt'' 2 False)"
  let ?cs = "[Chunk ?h, Chunk ''hi'']" and ?es = "replicate 330 (Accept 1)"
  let ?ce = "\<lparr>ce_mem = Some 1, ce_tid = 1, ce_sockfd = 5, ce_sock = ?cs @ [RdErr ETIME], ce_creat_data = 0, ce_write_data = (\<lambda>_. Accept 8192),
    ce_creat_req = 0, ce_write_req = Accept 328, ce_jobmem = Some 1, ce_stack = []\<rparr>"
  let ?s = "\<lparr>pd_q = \<lparr>pq_heap = (\<lambda>_. None), jobhead = None, jobtail = None\<rparr>, pd_nextjob = 7, pd_jobfile = ''7'', pd_fs = (\<lambda>_. None),
    pd_workers = \<lparr>wk_heap = (\<lambda>_. None), wk_workers = None, wk_closed = []\<rparr>\<rparr>"
  have "length ?h = 328" using submit_header_wf length_req_bytes by (simp add: REQ_SIZE_def)
  then have ne: "?h \<noteq> []" by auto
  have tk: "takes (REQ_SIZE + length (stream [Chunk ''hi''])) ?es" by (simp add: takes_def REQ_SIZE_def)
  have sub: "\<exists>es'. submit_file (\<lambda>_. NUL) (Some ''bob'') ''f.txt'' 2 False [Chunk ''hi''] ?es = Some (Returns (stream ?cs, es'))"
    using submit_file_sends [OF _ tk, of "\<lambda>_. NUL" "Some ''bob''" "''f.txt''" 2 False] by simp
  have calls: "calls_ok ?ce" by (auto simp: calls_ok_def writes_ok_def REQ_SIZE_def)
  have rep: "pq_rep (pd_q ?s) []" by (simp add: pq_rep_def dchain_def)
  have q: "quiet ?cs" "ends [RdErr ETIME]" using ne by (simp_all add: ends_def)
  from print_job_spooled [OF _ tk _ _ _ sub _ q calls _ _ rep, where a = 1 and strerror = "\<lambda>_. []"]
  obtain t r where t: "serve_client (\<lambda>_. []) ?ce ?s = Returns (\<lparr>res_retcode = 0, res_jobid = htonl (word_of_int 7), res_msg = ''request ID '' @ int_text 7\<rparr>, t)"
    "pd_fs t = (\<lambda>_. None)(data_name 7 \<mapsto> ''hi'', reqs_name 7 \<mapsto> req_bytes r)" "pq_item (pd_q t) 1 = Some (7, r)"
    "user_text r = ''bob''" "cstr (req_jobnm r) = ''f.txt''" "req_flags r = PR_TEXT"
    by auto
  show ?thesis
    by (rule exI [of _ ?ce], rule exI [of _ ?s], rule exI [of _ t], rule exI) (use t in auto)
qed





text \<open>
  A timeout or a failure of the connection in the middle of the file is taken for its end: the daemon stores what has come and
  accepts the job.
\<close>

theorem broken_upload_accepted:
  assumes "quiet cs" "writes_ok wr"
  shows "\<exists>t. store_data wr stack (cs @ RdErr e # r) 0 False [] = Inr (t, stream cs)"
  using store_data_all [OF assms(1) _ assms(2), of "RdErr e # r" stack 0 False "[]"] by (auto simp: ends_def)

text \<open>The text of a rejection is that of another error: the number is put in network byte order before its text is looked up.\<close>

theorem reject_message_swapped:
  "res_retcode (reject strerror EIO) = htonl 5 \<and> res_msg (reject strerror EIO) = take 512 (strerror 83886080)"
  by (simp add: reject_def Let_def htonl_def host_bytes_def be32_def host_word_def)

text \<open>A failed read of the file makes the command write far beyond its buffer.\<close>

theorem submit_read_error_overruns: "submit_data (RdErr e # fd) es out = Some (Dies ''buffer overrun'')"
  by (subst submit_data.simps) simp

end
