(* ===== verification/Print_Status.thy ===== *)
theory Print_Status
  imports Print_Util Print_Ipp
begin

text \<open>
  The printer daemon reads the answer of the printer: \<open>readmore\<close> and \<open>printer_status\<close> of \<open>extra_lib/apue.3e/printer/printd.c\<close>.
  The buffer is a list of bytes of its allocated size; reading or writing outside it is the outcome
  \<open>Dies ''buffer overrun''\<close>, and \<open>junk\<close> are the bytes that \<open>malloc\<close> and \<open>realloc\<close> leave in it. A pointer \<open>cp\<close> into the buffer is an
  index, which from the end of the status line on is the variable \<open>i\<close> of the code. A loop that does not end is \<open>None\<close>.
\<close>

definition IOBUFSZ :: nat where "IOBUFSZ = 8192"

section \<open>The buffer\<close>

text \<open>The loops \<open>while (P(*cp)) cp++\<close>.\<close>

function skip :: "(char \<Rightarrow> bool) \<Rightarrow> string \<Rightarrow> nat \<Rightarrow> nat outcome" where
  "skip P bp cp = (if cp < length bp then if P (bp ! cp) then skip P bp (cp + 1) else Returns cp else Dies ''buffer overrun'')"
  by pat_completeness auto
termination
  by (relation "measure (\<lambda>(P, bp, cp). length bp - cp)") auto

declare skip.simps [simp del]

definition poke :: "string \<Rightarrow> nat \<Rightarrow> char \<Rightarrow> string outcome" where
  "poke bp cp c = (if cp < length bp then Returns (bp[cp := c]) else Dies ''buffer overrun'')"

text \<open>\<open>readmore\<close>: the value returned, the buffer and the descriptor.\<close>

definition readmore :: "(nat \<Rightarrow> char) \<Rightarrow> rdfd \<Rightarrow> string \<Rightarrow> nat \<Rightarrow> (int \<times> string \<times> rdfd) outcome" where
  "readmore junk fd bp off =
     (let bp1 = (if off \<ge> length bp then bp @ map junk [length bp..<length bp + IOBUFSZ] else bp) in
      case tread fd (length bp1 - off) of
        (ReadErr e, fd1) \<Rightarrow> Returns (- 1, bp1, fd1)
      | (Bytes bs, fd1) \<Rightarrow>
          if bs = [] then Returns (- 1, bp1, fd1)
          else bind_outcome (put bp1 off bs) (\<lambda>bp2. Returns (int (off + length bs), bp2, fd1)))"

text \<open>
  What the code does with it at four places: on failure \<open>goto out\<close> (\<open>None\<close>), otherwise the value returned is added to
  \<open>datsz\<close>.
\<close>

definition more :: "(nat \<Rightarrow> char) \<Rightarrow> bool \<Rightarrow> rdfd \<Rightarrow> string \<Rightarrow> nat \<Rightarrow> nat \<Rightarrow> (rdfd \<times> string \<times> nat) option outcome" where
  "more junk needed fd bp i datsz =
     (if needed then bind_outcome (readmore junk fd bp i) (\<lambda>(nr, bp1, fd1).
        Returns (if nr < 0 then None else Some (fd1, bp1, datsz + nat nr)))
      else Returns (Some (fd, bp, datsz)))"

section \<open>The length of the content\<close>

function skip_to_c :: "string \<Rightarrow> nat \<Rightarrow> nat \<Rightarrow> nat outcome" where
  "skip_to_c bp i datsz =
     (if i < length bp
      then if bp ! i \<noteq> CHR ''C'' \<and> bp ! i \<noteq> CHR ''c'' \<and> i < datsz then skip_to_c bp (i + 1) datsz else Returns i
      else Dies ''buffer overrun'')"
  by pat_completeness auto
termination
  by (relation "measure (\<lambda>(bp, i, datsz). length bp - i)") auto

declare skip_to_c.simps [simp del]

definition tolower :: "char \<Rightarrow> char" where
  "tolower c = (if 65 \<le> (of_char c :: nat) \<and> (of_char c :: nat) \<le> 90 then char_of ((of_char c :: nat) + 32) else c)"

text \<open>\<open>strncasecmp\<close> with a text without null bytes: equal or not.\<close>

fun strncasecmp_eq :: "string \<Rightarrow> string \<Rightarrow> bool outcome" where
  "strncasecmp_eq s [] = Returns True"
| "strncasecmp_eq [] (p # ps) = Dies ''buffer overrun''"
| "strncasecmp_eq (c # cs) (p # ps) = (if tolower c = tolower p then strncasecmp_eq cs ps else Returns False)"

definition content_length :: string where "content_length = ''Content-Length:''"

type_synonym st = "rdfd \<times> string \<times> nat \<times> nat"

text \<open>One round of the loop: it is left with the length, or goes on.\<close>

definition length_step :: "(nat \<Rightarrow> char) \<Rightarrow> st \<Rightarrow> (st \<times> int + st) option outcome" where
  "length_step junk = (\<lambda>(fd, bp, i, datsz).
     bind_outcome (skip_to_c bp i datsz) (\<lambda>i1.
     bind_outcome (more junk (i1 \<ge> datsz) fd bp i1 datsz) (\<lambda>m.
       case m of
         None \<Rightarrow> Returns None
       | Some (fd1, bp1, d1) \<Rightarrow>
           bind_outcome (strncasecmp_eq (drop i1 bp1) content_length) (\<lambda>eq.
             if eq then
               bind_outcome (skip isspace bp1 (i1 + 15)) (\<lambda>i2.
               bind_outcome (skip isdigit bp1 i2) (\<lambda>i3.
               bind_outcome (poke bp1 i3 NUL) (\<lambda>bp2.
                 Returns (Some (Inl ((fd1, bp2, i3 + 1, d1), atoi (cstr (drop i2 bp2))))))))
             else Returns (Some (Inr (fd1, bp1, i1 + 1, d1)))))))"

partial_function (option) find_length :: "(nat \<Rightarrow> char) \<Rightarrow> st \<Rightarrow> (st \<times> int) option outcome option" where
  "find_length junk s =
     (case length_step junk s of
        Dies m \<Rightarrow> Some (Dies m)
      | Returns None \<Rightarrow> Some (Returns None)
      | Returns (Some (Inl r)) \<Rightarrow> Some (Returns (Some r))
      | Returns (Some (Inr s1)) \<Rightarrow> find_length junk s1)"

section \<open>The end of the header\<close>

text \<open>The inner loop: whether the end was found, and \<open>i\<close>.\<close>

function scan_end :: "string \<Rightarrow> nat \<Rightarrow> nat \<Rightarrow> (bool \<times> nat) outcome" where
  "scan_end bp i datsz =
     (if i + 2 < datsz then
        (if i \<ge> length bp then Dies ''buffer overrun''
         else if bp ! i = NEWLINE \<and> i + 1 \<ge> length bp then Dies ''buffer overrun''
         else if bp ! i = NEWLINE \<and> bp ! (i + 1) = CHR 0x0D \<and> i + 2 \<ge> length bp then Dies ''buffer overrun''
         else if bp ! i = NEWLINE \<and> bp ! (i + 1) = CHR 0x0D \<and> bp ! (i + 2) = NEWLINE then Returns (True, i + 3)
         else scan_end bp (i + 1) datsz)
      else Returns (False, i))"
  by pat_completeness auto
termination
  by (relation "measure (\<lambda>(bp, i, datsz). datsz - i)") auto

declare scan_end.simps [simp del]

definition end_step :: "(nat \<Rightarrow> char) \<Rightarrow> st \<Rightarrow> (bool \<times> st) option outcome" where
  "end_step junk = (\<lambda>(fd, bp, i, datsz).
     bind_outcome (scan_end bp i datsz) (\<lambda>(found, i1).
     bind_outcome (more junk (i1 \<ge> datsz) fd bp i1 datsz) (\<lambda>m.
       Returns (case m of None \<Rightarrow> None | Some (fd1, bp1, d1) \<Rightarrow> Some (found, (fd1, bp1, i1, d1))))))"

partial_function (option) find_end :: "(nat \<Rightarrow> char) \<Rightarrow> st \<Rightarrow> st option outcome option" where
  "find_end junk s =
     (case end_step junk s of
        Dies m \<Rightarrow> Some (Dies m)
      | Returns None \<Rightarrow> Some (Returns None)
      | Returns (Some (found, s1)) \<Rightarrow> if found then Some (Returns (Some s1)) else find_end junk s1)"

section \<open>The answer\<close>

text \<open>The status and the request number of the IPP header, and the verdict.\<close>

definition ipp_verdict :: "int \<Rightarrow> string \<Rightarrow> nat \<Rightarrow> bool outcome" where
  "ipp_verdict jobid bp cp =
     (if length bp < cp + 8 then Dies ''buffer overrun''
      else let status = get16 (bp ! (cp + 2)) (bp ! (cp + 3));
               rid = to_int32 (2 ^ 24 * of_char (bp ! (cp + 4)) + 2 ^ 16 * of_char (bp ! (cp + 5)) + 2 ^ 8 * of_char (bp ! (cp + 6)) + of_char (bp ! (cp + 7))) in
        Returns (rid = jobid \<and> status \<le> 0x00ff))"

text \<open>From the length field on, and from the end of the status line on when the code is a success.\<close>

definition ipp_body :: "(nat \<Rightarrow> char) \<Rightarrow> int \<Rightarrow> int \<Rightarrow> st \<Rightarrow> bool outcome option" where
  "ipp_body junk jobid len s =
     (case find_end junk s of
        None \<Rightarrow> None
      | Some (Dies m) \<Rightarrow> Some (Dies m)
      | Some (Returns None) \<Rightarrow> Some (Returns False)
      | Some (Returns (Some (fd, bp, i, datsz))) \<Rightarrow>
          (case more junk (int datsz - int i < len) fd bp i datsz of
             Dies m \<Rightarrow> Some (Dies m)
           | Returns None \<Rightarrow> Some (Returns False)
           | Returns (Some (fd1, bp1, d1)) \<Rightarrow> Some (ipp_verdict jobid bp1 i)))"

definition ipp_part :: "(nat \<Rightarrow> char) \<Rightarrow> int \<Rightarrow> st \<Rightarrow> bool outcome option" where
  "ipp_part junk jobid s =
     (case find_length junk s of
        None \<Rightarrow> None
      | Some (Dies m) \<Rightarrow> Some (Dies m)
      | Some (Returns None) \<Rightarrow> Some (Returns False)
      | Some (Returns (Some ((fd, bp, i, datsz), len))) \<Rightarrow>
          (case more junk (i \<ge> datsz) fd bp i datsz of
             Dies m \<Rightarrow> Some (Dies m)
           | Returns None \<Rightarrow> Some (Returns False)
           | Returns (Some (fd1, bp1, d1)) \<Rightarrow> ipp_body junk jobid len (fd1, bp1, i, d1)))"

text \<open>The status line: nothing when there is no code, or the code and the index behind the reason.\<close>

definition status_line :: "string \<Rightarrow> (string \<times> (int \<times> nat) option) outcome" where
  "status_line bp =
     bind_outcome (skip isspace bp 8) (\<lambda>statcode.
     bind_outcome (skip isdigit bp statcode) (\<lambda>cp.
       if cp = statcode then Returns (bp, None)
       else bind_outcome (poke bp cp NUL) (\<lambda>bp1.
            bind_outcome (skip (\<lambda>c. c \<noteq> CHR 0x0D \<and> c \<noteq> NEWLINE) bp1 (cp + 1)) (\<lambda>cp1.
            bind_outcome (poke bp1 cp1 NUL) (\<lambda>bp2.
              Returns (bp2, Some (atoi (cstr (drop statcode bp2)), cp1)))))))"

partial_function (option) status_loop :: "(nat \<Rightarrow> char) \<Rightarrow> int \<Rightarrow> rdfd \<Rightarrow> string \<Rightarrow> bool outcome option" where
  "status_loop junk jobid fd bp =
     (case tread fd (length bp) of
        (ReadErr e, fd1) \<Rightarrow> Some (Returns False)
      | (Bytes bs, fd1) \<Rightarrow>
          if bs = [] then Some (Returns False)
          else (case bind_outcome (put bp 0 bs) status_line of
             Dies m \<Rightarrow> Some (Dies m)
           | Returns (bp1, None) \<Rightarrow> status_loop junk jobid fd1 bp1
           | Returns (bp1, Some (code, cp)) \<Rightarrow>
               if 100 \<le> code \<and> code \<le> 199 then status_loop junk jobid fd1 bp1
               else if \<not> (200 \<le> code \<and> code \<le> 299)
               then Some (bind_outcome (poke bp1 (length bs) NUL) (\<lambda>_. Returns False))
               else ipp_part junk jobid (fd1, bp1, cp, length bs)))"

definition printer_status :: "(nat \<Rightarrow> char) \<Rightarrow> rdfd \<Rightarrow> int \<Rightarrow> bool outcome option" where
  "printer_status junk sfd jobid = status_loop junk jobid sfd (map junk [0..<IOBUFSZ])"

section \<open>The loops on a response\<close>

lemma skip_over:
  "list_all P v \<Longrightarrow> \<not> P c \<Longrightarrow> skip P (u @ v @ c # w) (length u) = Returns (length u + length v)"
proof (induction v arbitrary: u)
  case Nil
  then show ?case by (subst skip.simps) simp
next
  case (Cons x v)
  with Cons.IH [of "u @ [x]"] show ?case by (subst skip.simps) simp
qed

lemma skip_over_at:
  "bp = u @ v @ c # w \<Longrightarrow> cp = length u \<Longrightarrow> list_all P v \<Longrightarrow> \<not> P c \<Longrightarrow> skip P bp cp = Returns (length u + length v)"
  by (simp add: skip_over)

lemma poke_at: "bp = u @ c # w \<Longrightarrow> cp = length u \<Longrightarrow> poke bp cp d = Returns (u @ d # w)"
  by (simp add: poke_def)

abbreviation CR :: char where "CR \<equiv> CHR 0x0D"

lemma status_line_code:
  assumes "bp = h @ sp @ dec n @ c # reason @ CR # rest" "length h = 8" "list_all isspace sp" "\<not> isdigit c" "c \<noteq> NUL"
    "CR \<notin> set reason" "NEWLINE \<notin> set reason" "n < 1000"
  shows "status_line bp = Returns (h @ sp @ dec n @ NUL # reason @ NUL # rest, Some (int n, length (h @ sp @ dec n @ NUL # reason)))"
proof -
  obtain d ds where d: "dec n = d # ds" by (cases "dec n") auto
  have dd: "isdigit d" "list_all isdigit (dec n)" using dec_isdigit [of _ n] d by (auto simp: list_all_iff)
  have "\<not> isspace d" using dd(1) by (auto simp: isspace_def isdigit_def)
  then have 1: "skip isspace bp 8 = Returns (length h + length sp)"
    using skip_over_at [of bp h sp d "ds @ c # reason @ CR # rest" 8 isspace] assms(1-3) d by simp
  have 2: "skip isdigit bp (length h + length sp) = Returns (length (h @ sp) + length (dec n))"
    by (rule skip_over_at [of _ _ _ c "reason @ CR # rest"]) (simp_all add: assms(1,4) dd(2))
  let ?b1 = "(h @ sp @ dec n) @ NUL # reason @ CR # rest"
  have 3: "poke bp (length (h @ sp) + length (dec n)) NUL = Returns ?b1"
    by (rule poke_at [of _ _ c]) (simp_all add: assms(1))
  have 4: "skip (\<lambda>c. c \<noteq> CR \<and> c \<noteq> NEWLINE) ?b1 (length (h @ sp) + length (dec n) + 1) = Returns (length (h @ sp @ dec n @ [NUL]) + length reason)"
    by (rule skip_over_at [of _ _ _ CR rest]) (use assms(6,7) in \<open>auto simp: list_all_iff\<close>)
  let ?b2 = "(h @ sp @ dec n @ NUL # reason) @ NUL # rest"
  have 5: "poke ?b1 (length (h @ sp @ dec n @ [NUL]) + length reason) NUL = Returns ?b2"
    by (rule poke_at [of _ _ CR]) simp_all
  have "cstr (drop (length h + length sp) ?b2) = dec n" by simp
  then have "atoi (cstr (drop (length h + length sp) ?b2)) = int n" using assms(8) by (simp add: atoi_def)
  then show ?thesis unfolding status_line_def 1 using 2 3 4 5 by simp
qed

lemma strncasecmp_mismatch:
  assumes "CR \<notin> set ps" "ps \<noteq> []" "length ps \<le> length u \<longrightarrow> map tolower (take (length ps) u) \<noteq> map tolower ps"
    "\<forall>p\<in>set ps. tolower p \<noteq> CR"
  shows "strncasecmp_eq (u @ CR # z) ps = Returns False"
  using assms
proof (induction ps arbitrary: u)
  case Nil
  then show ?case by simp
next
  case (Cons p ps)
  have cr: "tolower CR = CR" by (simp add: tolower_def)
  show ?case
  proof (cases u)
    case Nil
    then show ?thesis using Cons.prems cr by (auto dest: sym)
  next
    case u: (Cons c u1)
    show ?thesis
    proof (cases "tolower c = tolower p")
      case True
      with Cons.prems u have "ps \<noteq> []" by (cases ps) auto
      with Cons True u show ?thesis by auto
    next
      case False
      with u show ?thesis by simp
    qed
  qed
qed

lemma length_content_length [simp]: "length content_length = 15"
  by (simp add: content_length_def)

lemma content_length_chars: "CR \<notin> set content_length" "\<forall>p\<in>set content_length. tolower p \<noteq> CR" "content_length \<noteq> []"
  by (simp_all add: tolower_def char_of_def content_length_def)

lemma content_length_first: "(p @ content_length @ r) ! length p = CHR ''C''"
  by (simp add: content_length_def)

lemma strncasecmp_match: "map tolower u = map tolower ps \<Longrightarrow> strncasecmp_eq (u @ z) ps = Returns True"
proof (induction ps arbitrary: u)
  case Nil
  then show ?case by simp
next
  case (Cons p ps)
  then show ?case by (cases u) auto
qed

text \<open>The search for the length passes every position at which the name does not stand.\<close>

lemma find_length_pass:
  assumes "i < length bp" "i < datsz" "strncasecmp_eq (drop i bp) content_length = Returns False"
  shows "find_length junk (fd, bp, i, datsz) = find_length junk (fd, bp, i + 1, datsz)"
proof (cases "bp ! i = CHR ''C'' \<or> bp ! i = CHR ''c''")
  case True
  then have "skip_to_c bp i datsz = Returns i" using assms by (subst skip_to_c.simps) auto
  then have "length_step junk (fd, bp, i, datsz) = Returns (Some (Inr (fd, bp, i + 1, datsz)))"
    using assms by (simp add: length_step_def more_def)
  then show ?thesis by (subst find_length.simps) simp
next
  case False
  then have "skip_to_c bp i datsz = skip_to_c bp (i + 1) datsz" using assms by (subst skip_to_c.simps) auto
  then have "length_step junk (fd, bp, i, datsz) = length_step junk (fd, bp, i + 1, datsz)" by (simp add: length_step_def)
  then show ?thesis by (subst (1 2) find_length.simps) simp
qed

lemma find_length_skips:
  assumes "\<forall>k<length q. strncasecmp_eq (drop k q @ r) content_length = Returns False" "length (p @ q) \<le> datsz"
  shows "find_length junk (fd, p @ q @ r, length p, datsz) = find_length junk (fd, p @ q @ r, length (p @ q), datsz)"
  using assms
proof (induction q arbitrary: p)
  case Nil
  then show ?case by simp
next
  case (Cons c q)
  have "find_length junk (fd, p @ (c # q) @ r, length p, datsz) = find_length junk (fd, p @ (c # q) @ r, length p + 1, datsz)"
    using Cons.prems(1) [rule_format, of 0] Cons.prems(2) by (intro find_length_pass) auto
  moreover have "\<forall>k<length q. strncasecmp_eq (drop k q @ r) content_length = Returns False"
  proof (intro allI impI)
    fix k
    assume "k < length q"
    with Cons.prems(1) [rule_format, of "Suc k"] show "strncasecmp_eq (drop k q @ r) content_length = Returns False" by simp
  qed
  ultimately show ?case using Cons.IH [of "p @ [c]"] Cons.prems(2) by simp
qed

lemma find_length_finds:
  assumes "bp = p @ content_length @ [SPACE] @ dec n @ CR # r" "length p < datsz" "n < 2 ^ 31"
  shows "find_length junk (fd, bp, length p, datsz) =
    Some (Returns (Some ((fd, p @ content_length @ [SPACE] @ dec n @ NUL # r, length (p @ content_length @ [SPACE] @ dec n) + 1, datsz), int n)))"
proof -
  obtain d ds where d: "dec n = d # ds" by (cases "dec n") auto
  have "isdigit d" using dec_isdigit [of d n] d by simp
  then have dd: "\<not> isspace d" "list_all isdigit (dec n)" using dec_isdigit by (auto simp: list_all_iff isspace_def isdigit_def)
  have 1: "skip_to_c bp (length p) datsz = Returns (length p)"
    using assms(1) content_length_first [of p] by (subst skip_to_c.simps) simp
  have dp: "drop (length p) bp = content_length @ [SPACE] @ dec n @ CR # r" using assms(1) by simp
  have 2: "strncasecmp_eq (drop (length p) bp) content_length = Returns True"
    unfolding dp by (rule strncasecmp_match) simp
  have 3: "skip isspace bp (length p + 15) = Returns (length (p @ content_length) + length [SPACE])"
    by (rule skip_over_at [of _ _ _ d "ds @ CR # r"]) (use assms(1) d dd(1) in \<open>auto simp: isspace_def\<close>)
  have 4: "skip isdigit bp (length (p @ content_length) + length [SPACE]) = Returns (length (p @ content_length @ [SPACE]) + length (dec n))"
    by (rule skip_over_at [of _ _ _ CR r]) (use assms(1) dd(2) in \<open>auto simp: isdigit_def\<close>)
  let ?b = "(p @ content_length @ [SPACE] @ dec n) @ NUL # r"
  have 5: "poke bp (length (p @ content_length @ [SPACE]) + length (dec n)) NUL = Returns ?b"
    by (rule poke_at [of _ _ CR]) (simp_all add: assms(1))
  have "drop (length (p @ content_length) + length [SPACE]) ?b = dec n @ NUL # r" by simp
  then have 6: "atoi (cstr (drop (length (p @ content_length) + length [SPACE]) ?b)) = int n"
    using assms(3) by (simp add: atoi_def)
  have m: "more junk (length p \<ge> datsz) fd bp (length p) datsz = Returns (Some (fd, bp, datsz))" using assms(2) by (simp add: more_def)
  have "length_step junk (fd, bp, length p, datsz) =
      Returns (Some (Inl ((fd, ?b, length (p @ content_length @ [SPACE]) + length (dec n) + 1, datsz), int n)))"
    unfolding length_step_def prod.case 1 bind_outcome.simps m option.case 2 if_True 3 4 5 6 by (rule refl)
  then show ?thesis by (subst find_length.simps) simp
qed

section \<open>Lines of a header\<close>

definition header_lines :: "string list \<Rightarrow> string" where
  "header_lines ls = concat (map (\<lambda>l. l @ CRLF) ls)"

lemma header_lines_simps [simp]: "header_lines [] = []" "header_lines (l # ls) = l @ CRLF @ header_lines ls"
  by (simp_all add: header_lines_def)

definition header_line :: "string \<Rightarrow> bool" where
  "header_line l \<longleftrightarrow> l \<noteq> [] \<and> CR \<notin> set l \<and> NEWLINE \<notin> set l"

text \<open>The name of the length field stands nowhere in a line.\<close>

definition no_length :: "string \<Rightarrow> bool" where
  "no_length l \<longleftrightarrow> list_all (\<lambda>k. map tolower (take 15 (drop k l)) \<noteq> map tolower content_length) [0..<length l]"

lemma no_length_lines:
  assumes "list_all no_length ls" "k < length (header_lines ls)"
  shows "strncasecmp_eq (drop k (header_lines ls) @ z) content_length = Returns False"
  using assms
proof (induction ls arbitrary: k)
  case Nil
  then show ?case by simp
next
  case (Cons l ls)
  let ?r = "NEWLINE # header_lines ls @ z"
  consider "k < length l" | "k = length l" | "k = length l + 1" | "length l + 2 \<le> k" by linarith
  then show ?case
  proof cases
    case 1
    then have "strncasecmp_eq (drop k l @ CR # ?r) content_length = Returns False"
      using Cons.prems(1) content_length_chars by (intro strncasecmp_mismatch) (auto simp: no_length_def list_all_iff)
    with 1 show ?thesis by simp
  next
    case 2
    have "strncasecmp_eq ([] @ CR # ?r) content_length = Returns False"
      using content_length_chars by (intro strncasecmp_mismatch) auto
    with 2 show ?thesis by simp
  next
    case 3
    then show ?thesis by (simp add: content_length_def tolower_def char_of_def)
  next
    case 4
    then obtain j where "k = length l + 2 + j" using le_Suc_ex by blast
    with Cons.IH [of j] Cons.prems show ?thesis by simp
  qed
qed

section \<open>The search for the end of the header\<close>

lemma scan_end_pass:
  assumes "i + 2 < datsz" "i < length bp" "bp ! i \<noteq> NEWLINE"
  shows "scan_end bp i datsz = scan_end bp (i + 1) datsz"
  using assms by (subst scan_end.simps) simp

lemma scan_end_over:
  "NEWLINE \<notin> set u \<Longrightarrow> length (p @ u) + 1 < datsz \<or> u = [] \<Longrightarrow>
    scan_end (p @ u @ r) (length p) datsz = scan_end (p @ u @ r) (length (p @ u)) datsz"
proof (induction u arbitrary: p)
  case Nil
  then show ?case by simp
next
  case (Cons c u)
  have "scan_end (p @ (c # u) @ r) (length p) datsz = scan_end (p @ (c # u) @ r) (length p + 1) datsz"
    using Cons.prems by (intro scan_end_pass) auto
  with Cons.IH [of "p @ [c]"] Cons.prems show ?case by auto
qed

text \<open>From the end of one line to the end of the next.\<close>

lemma scan_end_line:
  assumes "header_line l" "length p + length l + 4 \<le> datsz"
  shows "scan_end (p @ NEWLINE # l @ CR # r) (length p) datsz = scan_end (p @ NEWLINE # l @ CR # r) (length (p @ NEWLINE # l @ [CR])) datsz"
proof -
  let ?b = "p @ NEWLINE # l @ CR # r"
  obtain c m where l: "l = c # m" "c \<noteq> CR" using assms(1) by (cases l) (auto simp: header_line_def)
  have "scan_end ?b (length p) datsz = scan_end ?b (length p + 1) datsz"
    using assms(2) l by (subst scan_end.simps) (simp add: nth_append)
  moreover have "NEWLINE \<notin> set (l @ [CR])" using assms(1) by (simp add: header_line_def)
  ultimately show ?thesis using scan_end_over [of "l @ [CR]" "p @ [NEWLINE]" datsz r] assms(2) by simp
qed

lemma scan_end_lines:
  assumes "list_all header_line ls" "length p + length (header_lines ls) + 2 \<le> datsz"
  shows "scan_end (p @ NEWLINE # header_lines ls @ r) (length p) datsz =
    scan_end (p @ NEWLINE # header_lines ls @ r) (length p + length (header_lines ls)) datsz"
  using assms
proof (induction ls arbitrary: p)
  case Nil
  then show ?case by simp
next
  case (Cons l ls)
  let ?p = "p @ NEWLINE # l @ [CR]"
  have "scan_end (p @ NEWLINE # l @ CR # NEWLINE # header_lines ls @ r) (length p) datsz =
      scan_end (p @ NEWLINE # l @ CR # NEWLINE # header_lines ls @ r) (length ?p) datsz"
    using Cons.prems by (intro scan_end_line) auto
  moreover have "scan_end (?p @ NEWLINE # header_lines ls @ r) (length ?p) datsz =
      scan_end (?p @ NEWLINE # header_lines ls @ r) (length ?p + length (header_lines ls)) datsz"
    using Cons.prems by (intro Cons.IH) auto
  ultimately show ?case by (simp add: add.assoc)
qed

text \<open>\<open>header_lines\<close> seen from the line end before it: the last byte is a line end again.\<close>

lemma header_lines_nl:
  obtains w where "NEWLINE # header_lines ls = w @ [NEWLINE]" "length w = length (header_lines ls)"
proof -
  have "\<exists>w. NEWLINE # header_lines ls = w @ [NEWLINE]"
  proof (induction ls)
    case (Cons l ls)
    then obtain w where "NEWLINE # header_lines ls = w @ [NEWLINE]" by blast
    then have "NEWLINE # header_lines (l # ls) = (NEWLINE # l @ CR # w) @ [NEWLINE]" by simp
    then show ?case by blast
  qed simp
  then obtain w where w: "NEWLINE # header_lines ls = w @ [NEWLINE]" by blast
  have "length w = length (header_lines ls)" using arg_cong [OF w, of length] by simp
  with w show ?thesis by (rule that)
qed

lemma find_end_found:
  assumes "list_all header_line ls" "bp = p @ NEWLINE # header_lines ls @ CRLF @ r" "length (p @ NEWLINE # header_lines ls @ CRLF) < datsz"
  shows "find_end junk (fd, bp, length p, datsz) = Some (Returns (Some (fd, bp, length (p @ NEWLINE # header_lines ls @ CRLF), datsz)))"
proof -
  obtain w where w: "NEWLINE # header_lines ls = w @ [NEWLINE]" "length w = length (header_lines ls)" by (rule header_lines_nl)
  have b: "bp = (p @ w) @ [NEWLINE, CR, NEWLINE] @ r" using assms(2) w(1) by (metis append.assoc append_Cons append_Nil)
  have "scan_end bp (length (p @ w)) datsz = Returns (True, length (p @ w) + 3)"
    using assms(3) w(2) by (subst scan_end.simps) (simp add: b nth_append)
  then have "scan_end bp (length p) datsz = Returns (True, length p + length (header_lines ls) + 3)"
    using scan_end_lines [OF assms(1), of p datsz "CRLF @ r"] assms(2,3) w(2) by simp
  then have "end_step junk (fd, bp, length p, datsz) = Returns (Some (True, (fd, bp, length p + length (header_lines ls) + 3, datsz)))"
    using assms(3) by (simp add: end_step_def more_def)
  then show ?thesis by (subst find_end.simps) simp
qed

text \<open>A search that stops inside the data comes back to the same place for ever.\<close>

definition stuck :: "st \<Rightarrow> bool" where
  "stuck = (\<lambda>(fd, bp, i, datsz). \<exists>i1. scan_end bp i datsz = Returns (False, i1) \<and> i1 < datsz)"

lemma scan_end_stops: "scan_end bp i datsz = Returns (False, i1) \<Longrightarrow> scan_end bp i1 datsz = Returns (False, i1)"
proof (induction bp i datsz rule: scan_end.induct)
  case (1 bp i datsz)
  show ?case
  proof (cases "i + 2 < datsz")
    case True
    from 1(2) True have "scan_end bp (i + 1) datsz = Returns (False, i1)"
      by (subst (asm) scan_end.simps) (simp split: if_splits)
    moreover have "\<not> i \<ge> length bp" "\<not> (bp ! i = NEWLINE \<and> i + 1 \<ge> length bp)"
      "\<not> (bp ! i = NEWLINE \<and> bp ! (i + 1) = CR \<and> i + 2 \<ge> length bp)" "\<not> (bp ! i = NEWLINE \<and> bp ! (i + 1) = CR \<and> bp ! (i + 2) = NEWLINE)"
      using 1(2) True by (subst (asm) scan_end.simps, simp split: if_splits)+
    ultimately show ?thesis using 1(1) [OF True] by blast
  next
    case False
    with 1(2) have "i1 = i" by (subst (asm) scan_end.simps) simp
    with 1(2) show ?thesis by simp
  qed
qed

lemma stuck_step: "stuck s \<Longrightarrow> \<exists>t. end_step junk s = Returns (Some (False, t)) \<and> stuck t"
  by (auto simp: stuck_def end_step_def more_def) (metis scan_end_stops)

lemma find_end_stuck: "stuck s \<Longrightarrow> find_end junk s = None"
proof (rule ccontr)
  assume s: "stuck s" "find_end junk s \<noteq> None"
  then obtain r where "find_end junk s = Some r" by blast
  then have "\<not> stuck s"
  proof (rule find_end.raw_induct [where P = "\<lambda>junk s r. \<not> stuck s", rotated])
    fix f :: "(nat \<Rightarrow> char) \<Rightarrow> st \<Rightarrow> st option outcome option" and junk s r
    assume IH: "\<And>junk s r. f junk s = Some r \<Longrightarrow> \<not> stuck s"
      and eq: "(case end_step junk s of Returns None \<Rightarrow> Some (Returns None)
        | Returns (Some (found, s1)) \<Rightarrow> if found then Some (Returns (Some s1)) else f junk s1 | Dies m \<Rightarrow> Some (Dies m)) = Some r"
    show "\<not> stuck s"
    proof
      assume "stuck s"
      then obtain t where "end_step junk s = Returns (Some (False, t))" "stuck t" using stuck_step by blast
      with eq IH [of junk t r] show False by simp
    qed
  qed
  with s show False by simp
qed

section \<open>An answer of the printer\<close>

text \<open>A response up to the line with the length: status line, other header lines, length. What follows is \<open>rest\<close>.\<close>

definition answer_head :: "nat \<Rightarrow> string \<Rightarrow> string list \<Rightarrow> nat \<Rightarrow> string" where
  "answer_head code reason ls n =
     ''HTTP/1.1'' @ [SPACE] @ dec code @ [SPACE] @ reason @ CRLF @ header_lines ls @ content_length @ [SPACE] @ dec n @ CRLF"

definition head_ok :: "nat \<Rightarrow> string \<Rightarrow> string list \<Rightarrow> nat \<Rightarrow> bool" where
  "head_ok code reason ls n \<longleftrightarrow> 200 \<le> code \<and> code < 300 \<and> CR \<notin> set reason \<and> NEWLINE \<notin> set reason \<and> list_all no_length ls \<and> n < 2 ^ 31"

lemma no_length_block:
  assumes "list_all no_length ls" "k < length (NUL # NEWLINE # header_lines ls)"
  shows "strncasecmp_eq (drop k (NUL # NEWLINE # header_lines ls) @ z) content_length = Returns False"
proof (cases k)
  case 0
  then show ?thesis by (simp add: content_length_def tolower_def char_of_def)
next
  case (Suc j)
  with assms no_length_lines [OF assms(1), of "j - 1" z] show ?thesis
    by (cases j) (auto simp: content_length_def tolower_def char_of_def)
qed

lemma status_head:
  assumes ok: "head_ok code reason ls n" and resp: "resp = answer_head code reason ls n @ rest" "length resp \<le> IOBUFSZ"
  shows "\<exists>p t. printer_status junk (Chunk resp # fd) jobid = ipp_body junk jobid (int n) (fd, p @ NEWLINE # rest @ t, length p, length resp) \<and>
    length p + 1 + length rest = length resp"
proof -
  let ?t = "drop (length resp) (map junk [0..<IOBUFSZ])"
  let ?q = "NUL # NEWLINE # header_lines ls" and ?h = "''HTTP/1.1''"
  let ?p0 = "?h @ [SPACE] @ dec code @ NUL # reason"
  let ?rest = "NEWLINE # header_lines ls @ content_length @ [SPACE] @ dec n @ CRLF @ rest @ ?t"
  let ?bp = "?h @ [SPACE] @ dec code @ SPACE # reason @ CR # ?rest"
  have bp: "put (map junk [0..<IOBUFSZ]) 0 resp = Returns ?bp"
    using resp by (simp add: put_def answer_head_def)
  have sl: "status_line ?bp = Returns (?h @ [SPACE] @ dec code @ NUL # reason @ NUL # ?rest, Some (int code, length ?p0))"
    by (rule status_line_code) (use ok in \<open>auto simp: head_ok_def isspace_def isdigit_def\<close>)
  have ne: "resp \<noteq> []" using resp by (simp add: answer_head_def)
  have 1: "printer_status junk (Chunk resp # fd) jobid = ipp_part junk jobid (fd, ?p0 @ NUL # ?rest, length ?p0, length resp)"
    unfolding printer_status_def using bp sl ne resp(2) ok by (subst status_loop.simps) (simp add: tread_def head_ok_def)
  let ?r = "content_length @ [SPACE] @ dec n @ CR # NEWLINE # rest @ ?t"
  have "length (?p0 @ ?q) < length resp" using resp(1) by (simp add: answer_head_def)
  note l = this
  have "find_length junk (fd, ?p0 @ ?q @ ?r, length ?p0, length resp) = find_length junk (fd, ?p0 @ ?q @ ?r, length (?p0 @ ?q), length resp)"
    by (rule find_length_skips) (use no_length_block ok l in \<open>auto simp: head_ok_def\<close>)
  also have "\<dots> = Some (Returns (Some ((fd, (?p0 @ ?q) @ content_length @ [SPACE] @ dec n @ NUL # NEWLINE # rest @ ?t,
      length ((?p0 @ ?q) @ content_length @ [SPACE] @ dec n) + 1, length resp), int n)))"
    by (rule find_length_finds) (use l ok in \<open>simp_all add: head_ok_def\<close>)
  finally have 2: "find_length junk (fd, ?p0 @ NUL # ?rest, length ?p0, length resp) = Some (Returns (Some ((fd,
      (?p0 @ ?q) @ content_length @ [SPACE] @ dec n @ NUL # NEWLINE # rest @ ?t, length ((?p0 @ ?q) @ content_length @ [SPACE] @ dec n) + 1, length resp), int n)))"
    by simp
  let ?p = "(?p0 @ ?q) @ content_length @ [SPACE] @ dec n @ [NUL]"
  have lp: "length ?p + 1 + length rest = length resp" using resp(1) by (simp add: answer_head_def)
  have "printer_status junk (Chunk resp # fd) jobid = ipp_body junk jobid (int n) (fd, ?p @ NEWLINE # rest @ ?t, length ?p, length resp)"
    unfolding 1 ipp_part_def 2 using lp by (simp add: more_def)
  with lp show ?thesis by blast
qed

lemma ipp_verdict_at:
  assumes "bp = p @ [v1, v2] @ be16 st @ be32 rid @ r" "st < 65536" "0 \<le> rid" "rid < 2 ^ 31"
  shows "ipp_verdict jobid bp (length p) = Returns (rid = jobid \<and> st \<le> 255)"
proof -
  have n: "bp ! (length p + k) = ([v1, v2] @ be16 st @ be32 rid @ r) ! k" for k using assms(1) by (simp add: nth_append)
  have a: "bp ! (length p + 2) = char_of (st div 256)" "bp ! (length p + 3) = char_of st"
    "bp ! (length p + 4) = char_of (rid div 2 ^ 24)" "bp ! (length p + 5) = char_of (rid div 2 ^ 16)"
    "bp ! (length p + 6) = char_of (rid div 2 ^ 8)" "bp ! (length p + 7) = char_of rid"
    unfolding n by (simp_all add: be16_def be32_def)
  have l: "\<not> length bp < length p + 8" using assms(1) by simp
  have st: "get16 (char_of (st div 256)) (char_of st) = st" by (rule get16_be16 [OF assms(2)])
  have rid: "2 ^ 24 * (rid div 2 ^ 24 mod 256) + 2 ^ 16 * (rid div 2 ^ 16 mod 256) + 2 ^ 8 * (rid div 2 ^ 8 mod 256) + rid mod 256 = rid"
    using assms(3,4) by (intro be32_value) simp_all
  show ?thesis unfolding ipp_verdict_def Let_def a of_char_of st rid using assms(3,4) l by simp
qed

definition no_end :: "string \<Rightarrow> bool" where
  "no_end s \<longleftrightarrow> list_all (\<lambda>k. take 3 (drop k s) \<noteq> [NEWLINE, CR, NEWLINE]) [0..<length s]"

lemma scan_end_not_found:
  assumes "\<forall>k. i \<le> k \<and> k + 2 < datsz \<longrightarrow> \<not> (bp ! k = NEWLINE \<and> bp ! (k + 1) = CR \<and> bp ! (k + 2) = NEWLINE)" "datsz \<le> length bp" "i < datsz"
  shows "\<exists>i1. scan_end bp i datsz = Returns (False, i1) \<and> i1 < datsz"
  using assms
proof (induction bp i datsz rule: scan_end.induct)
  case (1 bp i datsz)
  show ?case
  proof (cases "i + 2 < datsz")
    case True
    have n: "\<not> i \<ge> length bp" "\<not> (bp ! i = NEWLINE \<and> i + 1 \<ge> length bp)" "\<not> (bp ! i = NEWLINE \<and> bp ! (i + 1) = CR \<and> i + 2 \<ge> length bp)"
      "\<not> (bp ! i = NEWLINE \<and> bp ! (i + 1) = CR \<and> bp ! (i + 2) = NEWLINE)"
      using 1(2,3) True by auto
    then have "scan_end bp i datsz = scan_end bp (i + 1) datsz" using True by (subst scan_end.simps) auto
    with 1(1) [OF True n] 1(2,3) True show ?thesis by auto
  next
    case False
    with 1(4) show ?thesis by (subst scan_end.simps) simp
  qed
qed

lemma take_three:
  assumes "j + 2 < length s"
  shows "take 3 (drop j s) = [s ! j, s ! (j + 1), s ! (j + 2)]"
proof -
  have "drop j s = s ! j # s ! Suc j # s ! Suc (Suc j) # drop (Suc (Suc (Suc j))) s" using assms by (simp add: Cons_nth_drop_Suc)
  then show ?thesis by (simp add: numeral_3_eq_3)
qed

lemma no_end_stuck:
  assumes "no_end (NEWLINE # rest)"
  shows "stuck (fd, p @ NEWLINE # rest @ t, length p, length p + 1 + length rest)"
proof -
  let ?bp = "p @ NEWLINE # rest @ t" and ?s = "NEWLINE # rest"
  have "\<not> (?bp ! k = NEWLINE \<and> ?bp ! (k + 1) = CR \<and> ?bp ! (k + 2) = NEWLINE)" if "length p \<le> k" "k + 2 < length p + 1 + length rest" for k
  proof -
    obtain j where j: "k = length p + j" using \<open>length p \<le> k\<close> le_Suc_ex by blast
    have bp: "?bp = p @ ?s @ t" by simp
    have at: "?bp ! (length p + m) = ?s ! m" if "m < length ?s" for m unfolding bp using that by (simp add: nth_append del: append_Cons)
    have "take 3 (drop j ?s) = [?s ! j, ?s ! (j + 1), ?s ! (j + 2)]"
      using that(2) j by (intro take_three) simp
    moreover have "take 3 (drop j ?s) \<noteq> [NEWLINE, CR, NEWLINE]" using assms that(2) j by (auto simp: no_end_def list_all_iff)
    ultimately show ?thesis using at [of j] at [of "j + 1"] at [of "j + 2"] that(2) j by (auto simp: add.assoc)
  qed
  then show ?thesis unfolding stuck_def prod.case by (intro scan_end_not_found) auto
qed

lemma status_of_answer:
  assumes "head_ok code reason ls1 (length body)" "list_all header_line ls2" "body = [v1, v2] @ be16 st @ be32 rid @ opts"
    "st < 65536" "0 \<le> rid" "rid < 2 ^ 31"
    "length (answer_head code reason ls1 (length body) @ header_lines ls2 @ CRLF @ body) \<le> IOBUFSZ"
  shows "printer_status junk (Chunk (answer_head code reason ls1 (length body) @ header_lines ls2 @ CRLF @ body) # fd) jobid =
    Some (Returns (rid = jobid \<and> st \<le> 255))"
proof -
  let ?resp = "answer_head code reason ls1 (length body) @ header_lines ls2 @ CRLF @ body"
  obtain p t where p: "printer_status junk (Chunk ?resp # fd) jobid =
      ipp_body junk jobid (int (length body)) (fd, p @ NEWLINE # (header_lines ls2 @ CRLF @ body) @ t, length p, length ?resp)"
    "length p + 1 + length (header_lines ls2 @ CRLF @ body) = length ?resp"
    using status_head [OF assms(1) refl assms(7), of junk fd jobid] by blast
  let ?p = "p @ NEWLINE # header_lines ls2 @ CRLF"
  have e: "find_end junk (fd, p @ NEWLINE # (header_lines ls2 @ CRLF @ body) @ t, length p, length ?resp) =
      Some (Returns (Some (fd, p @ NEWLINE # (header_lines ls2 @ CRLF @ body) @ t, length ?p, length ?resp)))"
    by (rule find_end_found [OF assms(2)]) (use p(2) assms(3) in auto)
  have m: "more junk (int (length ?resp) - int (length ?p) < int (length body)) fd b i d = Returns (Some (fd, b, d))" for b i d
    using p(2) by (simp add: more_def)
  have "ipp_verdict jobid (p @ NEWLINE # (header_lines ls2 @ CRLF @ body) @ t) (length ?p) = Returns (rid = jobid \<and> st \<le> 255)"
    by (rule ipp_verdict_at [where r = "opts @ t"]) (use assms(3-6) in simp_all)
  then show ?thesis unfolding p(1) ipp_body_def e by (simp only: option.case outcome.case prod.case m)
qed

section \<open>Properties\<close>

text \<open>
  C15. The verdict on a job is right: when a success response with a length field arrives in one piece that fits the
  buffer of 8192 bytes, \<open>printer_status\<close> ends and answers yes exactly when the printer names this job and a status of the class
  of successes, whatever other header lines there are and whatever follows.
\<close>

theorem printer_status_decides:
  assumes "head_ok code reason ls1 (length body)" "list_all header_line ls2" "body = [v1, v2] @ be16 st @ be32 rid @ opts"
    "st < 65536" "0 \<le> rid" "rid < 2 ^ 31"
    "length (answer_head code reason ls1 (length body) @ header_lines ls2 @ CRLF @ body) \<le> IOBUFSZ"
  shows "printer_status junk (Chunk (answer_head code reason ls1 (length body) @ header_lines ls2 @ CRLF @ body) # fd) jobid =
    Some (Returns (rid = jobid \<and> st \<le> 255))"
  by (rule status_of_answer [OF assms])

theorem printer_status_decides_witness:
  "printer_status (\<lambda>_. NUL) [Chunk (answer_head 200 ''OK'' [''Server: cups''] 8 @ header_lines [''Date: today''] @ CRLF @ [NUL, NUL] @ be16 0 @ be32 7)] 7 =
    Some (Returns True)"
proof -
  have h: "header_line ''Date: today''" "no_length ''Server: cups''"
    by (simp_all add: header_line_def no_length_def content_length_def tolower_def char_of_def upt_conv_Cons)
  have l: "length (dec 200) \<le> 3" "length (dec 8) \<le> 1" using length_dec [of 3 200] length_dec [of 1 8] by simp_all
  from printer_status_decides [of 200 "''OK''" "[''Server: cups'']" "[NUL, NUL] @ be16 0 @ be32 7 @ []" "[''Date: today'']" NUL NUL 0 7 "[]" "\<lambda>_. NUL" "[]" 7]
  show ?thesis using h l by (simp add: head_ok_def IOBUFSZ_def answer_head_def)
qed

text \<open>
  A response whose first piece ends after the length field but before the blank line that ends the header hangs the
  printer thread for ever, whatever arrives later: the search stops two bytes before the end of the data, and more is
  read only when the end itself is reached.
\<close>

theorem printer_status_spins:
  assumes "head_ok code reason ls n" "no_end (NEWLINE # rest)" "length (answer_head code reason ls n @ rest) \<le> IOBUFSZ"
  shows "printer_status junk (Chunk (answer_head code reason ls n @ rest) # fd) jobid = None"
proof -
  let ?resp = "answer_head code reason ls n @ rest"
  obtain p t where p: "printer_status junk (Chunk ?resp # fd) jobid = ipp_body junk jobid (int n) (fd, p @ NEWLINE # rest @ t, length p, length ?resp)"
    "length p + 1 + length rest = length ?resp"
    using status_head [OF assms(1) refl assms(3), of junk fd jobid] by blast
  show ?thesis unfolding p(1) ipp_body_def p(2) [symmetric]
    using find_end_stuck [OF no_end_stuck [OF assms(2)], of junk fd p t] by simp
qed

theorem printer_status_spins_witness:
  "\<forall>fd. printer_status (\<lambda>_. NUL) (Chunk (answer_head 200 ''OK'' [] 8 @ ''Date: '') # fd) 7 = None"
proof
  fix fd
  have "length (dec 200) \<le> 3" "length (dec 8) \<le> 1" using length_dec [of 3 200] length_dec [of 1 8] by simp_all
  with printer_status_spins [of 200 "''OK''" "[]" 8 "''Date: ''" "\<lambda>_. NUL" fd 7]
  show "printer_status (\<lambda>_. NUL) (Chunk (answer_head 200 ''OK'' [] 8 @ ''Date: '') # fd) 7 = None"
    by (simp add: head_ok_def no_end_def IOBUFSZ_def answer_head_def upt_conv_Cons)
qed

text \<open>
  When more of the header is read, the count of the data is wrong: the offset is counted twice, because \<open>readmore\<close>
  returns the end of the data and the caller adds it to the size.
\<close>

theorem readmore_counts_twice:
  assumes "bs \<noteq> []" "length bs \<le> length bp - datsz" "datsz < length bp"
  shows "\<exists>bp1. more junk True (Chunk bs # fd) bp datsz datsz = Returns (Some (fd, bp1, 2 * datsz + length bs)) \<and>
    take (datsz + length bs) bp1 = take datsz bp @ bs"
  using assms by (auto simp: more_def readmore_def tread_def put_def)

end
