(* ===== verification/Print_System.thy ===== *)
theory Print_System
  imports Print_Jobs
begin

text \<open>
  The threads of the printer daemon around the list of jobs: client threads add jobs and then signal the condition variable, the
  printer thread waits for a job, takes the first, and when it is done either frees it or puts it back to try again
  (\<open>add_job\<close> and \<open>printer_thread\<close> of \<open>extra_lib/apue.3e/printer/printd.c\<close>). What runs under \<open>joblock\<close> is one event. The histories \<open>ps_added\<close>
  and \<open>ps_done\<close> are not part of the code.
\<close>

datatype ppoint = PTest | PAsleep | PBusy nat

record psys =
  ps_q :: printq
  ps_due :: nat
  ps_pc :: ppoint
  ps_added :: "(int \<times> printreq) list"
  ps_done :: "(int \<times> printreq) list"

datatype pevent = PAdd nat printreq int | PSignal | PSpurious | PTake | PDone | PDefer

text \<open>
  \<open>PAdd\<close> is \<open>add_job\<close> up to the release of the lock, with the cell that \<open>malloc\<close> gives; its signal comes later. \<open>PTake\<close> is one
  round of the loop that waits. \<open>PDone\<close> and \<open>PDefer\<close> are the ends of the round of \<open>printer_thread\<close>.
\<close>

fun psys_step :: "psys \<Rightarrow> pevent \<Rightarrow> psys option" where
  "psys_step s (PAdd a r n) =
     (if pq_heap (ps_q s) a \<noteq> None then None
      else case add_job (Some a) r n (ps_q s) of
             Dies m \<Rightarrow> None
           | Returns q \<Rightarrow> Some (s\<lparr>ps_q := q, ps_due := ps_due s + 1, ps_added := ps_added s @ [(n, r)]\<rparr>))"
| "psys_step s PSignal =
     (if ps_due s = 0 then None
      else Some (s\<lparr>ps_due := ps_due s - 1, ps_pc := (if ps_pc s = PAsleep then PTest else ps_pc s)\<rparr>))"
| "psys_step s PSpurious = (if ps_pc s = PAsleep then Some (s\<lparr>ps_pc := PTest\<rparr>) else None)"
| "psys_step s PTake =
     (if ps_pc s \<noteq> PTest then None
      else case jobhead (ps_q s) of
             None \<Rightarrow> Some (s\<lparr>ps_pc := PAsleep\<rparr>)
           | Some jp \<Rightarrow> (case remove_job jp (ps_q s) of
                Dies m \<Rightarrow> None
              | Returns q \<Rightarrow> Some (s\<lparr>ps_q := q, ps_pc := PBusy jp\<rparr>)))"
| "psys_step s PDone =
     (case ps_pc s of
        PBusy jp \<Rightarrow> Some (s\<lparr>ps_q := (ps_q s)\<lparr>pq_heap := (pq_heap (ps_q s))(jp := None)\<rparr>, ps_pc := PTest,
                          ps_done := ps_done s @ [the (pq_item (ps_q s) jp)]\<rparr>)
      | _ \<Rightarrow> None)"
| "psys_step s PDefer =
     (case ps_pc s of
        PBusy jp \<Rightarrow> (case replace_job jp (ps_q s) of
            Dies m \<Rightarrow> None
          | Returns q \<Rightarrow> Some (s\<lparr>ps_q := q, ps_pc := PTest\<rparr>))
      | _ \<Rightarrow> None)"

definition psys_start :: psys where
  "psys_start = \<lparr>ps_q = \<lparr>pq_heap = (\<lambda>_. None), jobhead = None, jobtail = None\<rparr>, ps_due = 0, ps_pc = PTest, ps_added = [], ps_done = []\<rparr>"

text \<open>The job in the hands of the printer thread.\<close>

fun in_hand :: "ppoint \<Rightarrow> nat list" where
  "in_hand (PBusy jp) = [jp]"
| "in_hand _ = []"

definition psys_rep :: "psys \<Rightarrow> nat list \<Rightarrow> bool" where
  "psys_rep s as \<longleftrightarrow> pq_rep (ps_q s) as \<and> distinct (in_hand (ps_pc s) @ as) \<and> set (in_hand (ps_pc s)) \<subseteq> dom (pq_heap (ps_q s)) \<and>
     map Some (ps_added s) = map Some (ps_done s) @ map (pq_item (ps_q s)) (in_hand (ps_pc s) @ as) \<and>
     (ps_pc s = PAsleep \<longrightarrow> length as \<le> ps_due s)"

definition psys_inv :: "psys \<Rightarrow> bool" where
  "psys_inv s \<longleftrightarrow> (\<exists>as. psys_rep s as)"

lemma psys_start_rep: "psys_rep psys_start []"
  by (simp add: psys_rep_def psys_start_def pq_rep_def dchain_def)

lemma psys_rep_cells: "psys_rep s as \<Longrightarrow> set (in_hand (ps_pc s) @ as) \<subseteq> dom (pq_heap (ps_q s))"
  by (auto simp: psys_rep_def pq_rep_def)

lemma jobhead_rep: "pq_rep q as \<Longrightarrow> jobhead q = cut_ptr as"
  by (auto simp: pq_rep_def dest: dchain_ends)

text \<open>Each event, with what it does to the list of cells.\<close>

lemma psys_add:
  assumes "psys_rep s as" "pq_heap (ps_q s) a = None"
  shows "\<exists>q. add_job (Some a) r n (ps_q s) = Returns q \<and>
    psys_rep (s\<lparr>ps_q := q, ps_due := ps_due s + 1, ps_added := ps_added s @ [(n, r)]\<rparr>) (as @ [a])"
proof -
  obtain q where q: "add_job (Some a) r n (ps_q s) = Returns q" "pq_rep q (as @ [a])" "pq_item q = (pq_item (ps_q s))(a \<mapsto> (n, r))"
    using add_job_rep [of "ps_q s" as a r n] assms by (auto simp: psys_rep_def)
  have d: "dom (pq_heap q) = insert a (dom (pq_heap (ps_q s)))" using arg_cong [OF q(3), of dom] by simp
  have a: "a \<notin> set (in_hand (ps_pc s) @ as)" using psys_rep_cells [OF assms(1)] assms(2) by auto
  then have "map (pq_item q) (in_hand (ps_pc s) @ as) = map (pq_item (ps_q s)) (in_hand (ps_pc s) @ as)" using q(3) by auto
  then have "psys_rep (s\<lparr>ps_q := q, ps_due := ps_due s + 1, ps_added := ps_added s @ [(n, r)]\<rparr>) (as @ [a])"
    using assms(1) q(2,3) d a by (auto simp: psys_rep_def)
  with q(1) show ?thesis by blast
qed

lemma psys_take:
  assumes "psys_rep s (jp # as)" "ps_pc s = PTest"
  shows "\<exists>q. remove_job jp (ps_q s) = Returns q \<and> psys_rep (s\<lparr>ps_q := q, ps_pc := PBusy jp\<rparr>) as"
proof -
  obtain q where q: "remove_job jp (ps_q s) = Returns q" "pq_rep q as" "pq_item q = pq_item (ps_q s)"
    using remove_job_rep [of "ps_q s" "[]" jp as] assms by (auto simp: psys_rep_def)
  have "dom (pq_heap q) = dom (pq_heap (ps_q s))" using arg_cong [OF q(3), of dom] by simp
  then have "psys_rep (s\<lparr>ps_q := q, ps_pc := PBusy jp\<rparr>) as"
    using assms q(2,3) psys_rep_cells [OF assms(1)] by (auto simp: psys_rep_def)
  with q(1) show ?thesis by blast
qed

lemma psys_defer:
  assumes "psys_rep s as" "ps_pc s = PBusy jp"
  shows "\<exists>q. replace_job jp (ps_q s) = Returns q \<and> psys_rep (s\<lparr>ps_q := q, ps_pc := PTest\<rparr>) (jp # as)"
proof -
  obtain q where q: "replace_job jp (ps_q s) = Returns q" "pq_rep q (jp # as)" "pq_item q = pq_item (ps_q s)"
    using replace_job_rep [of "ps_q s" as jp] assms by (auto simp: psys_rep_def)
  have "psys_rep (s\<lparr>ps_q := q, ps_pc := PTest\<rparr>) (jp # as)"
    using assms q(2,3) by (auto simp: psys_rep_def)
  with q(1) show ?thesis by blast
qed

lemma psys_done:
  assumes "psys_rep s as" "ps_pc s = PBusy jp"
  shows "psys_rep (s\<lparr>ps_q := (ps_q s)\<lparr>pq_heap := (pq_heap (ps_q s))(jp := None)\<rparr>, ps_pc := PTest,
    ps_done := ps_done s @ [the (pq_item (ps_q s) jp)]\<rparr>) as"
proof -
  have jp: "jp \<notin> set as" "jp \<in> dom (pq_item (ps_q s))" using assms by (auto simp: psys_rep_def)
  have "map (pq_item ((ps_q s)\<lparr>pq_heap := (pq_heap (ps_q s))(jp := None)\<rparr>)) as = map (pq_item (ps_q s)) as"
    using jp(1) by (auto simp: pq_item_def)
  moreover have "Some (the (pq_item (ps_q s) jp)) = pq_item (ps_q s) jp" by (metis jp(2) domD option.sel)
  ultimately show ?thesis using assms jp(1) pq_rep_free [of "ps_q s" as jp] by (auto simp: psys_rep_def)
qed

lemma psys_step_inv: "psys_inv s \<Longrightarrow> psys_step s e = Some t \<Longrightarrow> psys_inv t"
proof -
  assume "psys_inv s" and e: "psys_step s e = Some t"
  then obtain as where as: "psys_rep s as" by (auto simp: psys_inv_def)
  show ?thesis
  proof (cases e)
    case (PAdd a r n)
    with e psys_add [OF as, of a r n] show ?thesis by (auto simp: psys_inv_def split: if_splits)
  next
    case PSignal
    with e as have "psys_rep t as" by (cases "ps_pc s") (auto simp: psys_rep_def split: if_splits)
    then show ?thesis by (auto simp: psys_inv_def)
  next
    case PSpurious
    with e as have "psys_rep t as" by (auto simp: psys_rep_def split: if_splits)
    then show ?thesis by (auto simp: psys_inv_def)
  next
    case PTake
    have h: "jobhead (ps_q s) = cut_ptr as" using as jobhead_rep by (auto simp: psys_rep_def)
    show ?thesis
    proof (cases as)
      case Nil
      with h e PTake as have "psys_rep t []" by (auto simp: psys_rep_def split: if_splits)
      then show ?thesis by (auto simp: psys_inv_def)
    next
      case (Cons jp bs)
      with h e PTake psys_take [of s jp bs] as show ?thesis by (auto simp: psys_inv_def split: if_splits)
    qed
  next
    case PDone
    with e psys_done [OF as] show ?thesis by (auto simp: psys_inv_def split: ppoint.splits)
  next
    case PDefer
    with e psys_defer [OF as] show ?thesis by (auto simp: psys_inv_def split: ppoint.splits)
  qed
qed

interpretation psys: event_invariant psys_step psys_inv
  by unfold_locales (rule psys_step_inv)

section \<open>Properties\<close>



text \<open>
  C30. No wake-up is lost: as soon as the clients have sent their signals, the printer thread sleeps only when there is no job, and
  when it is awake and looks for a job it gets the first one.
\<close>

theorem print_no_lost_wakeup:
  assumes "run_events psys_step psys_start es = Some s" "ps_due s = 0" "jobhead (ps_q s) = Some jp"
  shows "ps_pc s \<noteq> PAsleep \<and> (ps_pc s = PTest \<longrightarrow> (\<exists>t. psys_step s PTake = Some t \<and> ps_pc t = PBusy jp))"
proof -
  obtain as where as: "psys_rep s as" using psys.run_Inv [OF _ assms(1)] psys_start_rep by (auto simp: psys_inv_def)
  then have h: "jobhead (ps_q s) = cut_ptr as" using jobhead_rep by (auto simp: psys_rep_def)
  then obtain bs where bs: "as = jp # bs" using assms(3) by (cases as) auto
  have "ps_pc s \<noteq> PAsleep" using as assms(2) bs by (auto simp: psys_rep_def)
  moreover have "\<exists>t. psys_step s PTake = Some t \<and> ps_pc t = PBusy jp" if "ps_pc s = PTest"
    using psys_take [OF as [unfolded bs] that] h bs that by auto
  ultimately show ?thesis by blast
qed

theorem print_no_lost_wakeup_witness:
  "\<exists>s. run_events psys_step psys_start [PTake, PAdd 1 undefined 11, PSignal] = Some s \<and> ps_pc s \<noteq> PAsleep"
proof -
  have "\<exists>s. run_events psys_step psys_start [PTake, PAdd 1 undefined 11, PSignal] = Some s \<and> ps_due s = 0 \<and> jobhead (ps_q s) = Some 1"
    by (simp add: psys_start_def add_job_def add_job_link_def)
  then obtain s where s: "run_events psys_step psys_start [PTake, PAdd 1 undefined 11, PSignal] = Some s" "ps_due s = 0" "jobhead (ps_q s) = Some 1"
    by blast
  from print_no_lost_wakeup [OF s] s(1) show ?thesis by blast
qed

end
