(* ===== verification/Print_Daemon.thy ===== *)
theory Print_Daemon
  imports Print_Spool Print_Status Print_System
begin

text \<open>
  One round of the thread that talks to the printer (\<open>printer_thread\<close> of \<open>extra_lib/apue.3e/printer/printd.c\<close>), from taking a job to the
  end, and the thread that handles signals. The results of the system calls are in the record \<open>penv\<close>. The list of jobs, the headers and
  the answer are those of \<open>Print_Jobs\<close>, \<open>Print_Ipp\<close> and \<open>Print_Status\<close>.
\<close>

section \<open>Configuration and signals\<close>

record pconf =
  pc_reread :: bool
  pc_name :: string

text \<open>The result of \<open>get_printaddr\<close>: nothing, or the canonical name of the printer, which may be missing.\<close>

definition init_printer :: "string option option \<Rightarrow> string outcome" where
  "init_printer addr =
     (case addr of None \<Rightarrow> Dies ''exit(1)'' | Some None \<Rightarrow> Returns ''printer'' | Some (Some nm) \<Rightarrow> Returns nm)"

datatype signo = SIGHUP | SIGTERM | OtherSignal

text \<open>One round of \<open>signal_thread\<close>: it goes on with the configuration, or the process exits after the threads have been cancelled.\<close>

definition signal_thread :: "signo \<Rightarrow> workerq \<Rightarrow> pconf \<Rightarrow> pconf + nat list outcome option" where
  "signal_thread sig w c =
     (case sig of SIGHUP \<Rightarrow> Inl (c\<lparr>pc_reread := True\<rparr>) | SIGTERM \<Rightarrow> Inr (kill_workers w) | OtherSignal \<Rightarrow> Inr (kill_workers w))"

section \<open>Sending a job\<close>

record penv =
  pe_seek :: bool
  pe_nw :: int
  pe_addr :: "string option option"
  pe_open :: bool
  pe_size :: "nat option"
  pe_connect :: "nat \<Rightarrow> int \<times> bool"
  pe_ibuf :: string
  pe_hbuf :: string
  pe_writev :: wr_event
  pe_bs :: wr_event
  pe_file :: rdfd
  pe_writes :: "wr_event list"
  pe_answer :: rdfd
  pe_junk :: "nat \<Rightarrow> char"

abbreviation BS :: char where "BS \<equiv> CHR 0x08"

text \<open>The loop that copies the file: whether all of it was sent, and the bytes on the connection. \<open>None\<close> is a write that blocks.\<close>

function send_data :: "rdfd \<Rightarrow> wr_event list \<Rightarrow> string \<Rightarrow> (bool \<times> string) option" where
  "send_data fd es out =
     (case sys_read 8192 fd of
        (ReadErr e, fd1) \<Rightarrow> Some (False, out)
      | (Bytes bs, fd1) \<Rightarrow>
          if bs = [] then Some (True, out)
          else (case apue_writen es bs out of
             None \<Rightarrow> None
           | Some (nw, out1, es1) \<Rightarrow> if nw \<noteq> int (length bs) then Some (False, out1) else send_data fd1 es1 out1))"
  by pat_completeness auto
termination
  by (relation "measure (\<lambda>(fd, es, out). fd_size fd)") (auto dest: sys_read_size(3) [OF sym])

declare send_data.simps [simp del]

text \<open>
  From the headers to the answer: whether the printer took the job, and the bytes on the connection.
\<close>

definition print_job :: "penv \<Rightarrow> string \<Rightarrow> nat \<Rightarrow> int \<Rightarrow> printreq \<Rightarrow> (bool \<times> string) outcome option" where
  "print_job pe printer_name st_size jobid req =
     (case ipp_header (pe_ibuf pe) printer_name jobid req of
        Dies m \<Rightarrow> Some (Dies m)
      | Returns (ibuf, ilen) \<Rightarrow>
          (case http_header (pe_hbuf pe) printer_name (int (st_size + ilen + snd (doc_format req))) of
             Dies m \<Rightarrow> Some (Dies m)
           | Returns (hbuf, hlen) \<Rightarrow>
               (let iov = take hlen hbuf @ take ilen ibuf in
                case pe_writev pe of
                  WrErr e \<Rightarrow> Some (Returns (False, []))
                | Accept k \<Rightarrow>
                    if k < hlen + ilen then Some (Returns (False, take k iov))
                    else if req_flags req AND 1 \<noteq> 0 \<and> (case pe_bs pe of WrErr e \<Rightarrow> True | Accept b \<Rightarrow> b = 0) then Some (Returns (False, iov))
                    else (case send_data (pe_file pe) (pe_writes pe) (iov @ (if req_flags req AND 1 \<noteq> 0 then [BS] else [])) of
                       None \<Rightarrow> None
                     | Some (False, out) \<Rightarrow> Some (Returns (False, out))
                     | Some (True, out) \<Rightarrow>
                         map_option (\<lambda>r. bind_outcome r (\<lambda>ok. Returns (ok, out))) (printer_status (pe_junk pe) (pe_answer pe) jobid)))))"

section \<open>One round\<close>

text \<open>What the round is about: the state, the configuration and the bytes sent.\<close>

definition finish_job :: "nat \<Rightarrow> int \<Rightarrow> printd \<Rightarrow> printd" where
  "finish_job jp jobid s =
     s\<lparr>pd_fs := (pd_fs s)(data_name jobid := None, reqs_name jobid := None),
       pd_q := (pd_q s)\<lparr>pq_heap := (pq_heap (pd_q s))(jp := None)\<rparr>\<rparr>"

definition drop_job :: "nat \<Rightarrow> printd \<Rightarrow> printd" where
  "drop_job jp s = s\<lparr>pd_q := (pd_q s)\<lparr>pq_heap := (pq_heap (pd_q s))(jp := None)\<rparr>\<rparr>"

definition defer_job :: "nat \<Rightarrow> printd \<Rightarrow> printd outcome" where
  "defer_job jp s = bind_outcome (replace_job jp (pd_q s)) (\<lambda>q. Returns (s\<lparr>pd_q := q\<rparr>))"

definition printer_thread :: "penv \<Rightarrow> printd \<Rightarrow> pconf \<Rightarrow> (printd \<times> pconf \<times> string) outcome option" where
  "printer_thread pe s c =
     (case jobhead (pd_q s) of
        None \<Rightarrow> Some (Returns (s, c, []))
      | Some jp \<Rightarrow>
          (case bind_outcome (remove_job jp (pd_q s)) (\<lambda>q.
                bind_outcome (load (pq_heap q) (Some jp)) (\<lambda>j.
                bind_outcome (update_jobno (pe_seek pe) (pe_nw pe) (pd_nextjob s) (pd_jobfile s)) (\<lambda>f.
                bind_outcome (if pc_reread c then bind_outcome (init_printer (pe_addr pe)) (\<lambda>nm. Returns \<lparr>pc_reread = False, pc_name = nm\<rparr>)
                              else Returns c) (\<lambda>c1.
                  Returns (j, s\<lparr>pd_q := q, pd_jobfile := f\<rparr>, c1))))) of
             Dies m \<Rightarrow> Some (Dies m)
           | Returns (j, s1, c1) \<Rightarrow>
               if \<not> pe_open pe then Some (Returns (drop_job jp s1, c1, []))
               else (case pe_size pe of
                  None \<Rightarrow> Some (Returns (drop_job jp s1, c1, []))
                | Some st_size \<Rightarrow>
                    if fst (connect_retry (pe_connect pe)) < 0
                    then Some (bind_outcome (defer_job jp s1) (\<lambda>s2. Returns (s2, c1, [])))
                    else map_option (\<lambda>r. bind_outcome r (\<lambda>(ok, out).
                           if ok then Returns (finish_job jp (pj_jobid j) s1, c1, out)
                           else bind_outcome (defer_job jp s1) (\<lambda>s2. Returns (s2, c1, out))))
                         (print_job pe (pc_name c1) st_size (pj_jobid j) (pj_req j)))))"

section \<open>Lemmas\<close>

lemma defer_job_rep:
  assumes "pq_rep (pd_q s) as" "jp \<in> dom (pq_heap (pd_q s)) - set as"
  shows "\<exists>t. defer_job jp s = Returns t \<and> pq_rep (pd_q t) (jp # as) \<and> pq_item (pd_q t) = pq_item (pd_q s) \<and> pd_fs t = pd_fs s"
  using replace_job_rep [OF assms(1), of jp] assms(2) by (auto simp: defer_job_def)

lemma print_job_ok:
  "print_job pe pn n jobid req = Some (Returns (True, out)) \<Longrightarrow> printer_status (pe_junk pe) (pe_answer pe) jobid = Some (Returns True)"
  by (auto simp: print_job_def Let_def split: outcome.splits wr_event.splits if_splits option.splits bool.splits prod.splits)

lemma send_data_all:
  assumes "quiet fd" "takes (length (stream fd)) es"
  shows "send_data fd es out = Some (True, out @ stream fd)"
  using assms
proof (induction "length (stream fd)" arbitrary: fd es out rule: less_induct)
  case less
  show ?case
  proof (cases "stream fd = []")
    case True
    then have "fd = []" using less.prems(1) sys_read_one(2) by blast
    then show ?thesis by (subst send_data.simps) simp
  next
    case False
    obtain bs es0 fd1 where t: "take 8192 bs \<noteq> []" "quiet fd1" "tread (fd @ []) 8192 = (Bytes (take 8192 bs), fd1 @ [])"
      "stream fd = take 8192 bs @ stream fd1"
      using tread_chunk [OF less.prems(1) False, of 8192 "[]"] by (metis zero_less_numeral)
    obtain es1 where w: "apue_writen es (take 8192 bs) out = Some (int (length (take 8192 bs)), out @ take 8192 bs, es1)"
      "takes (length (stream fd1)) es1"
      using apue_writen_all [of "take 8192 bs" "length (stream fd1)" es out] less.prems(2) t(4) by auto
    have "send_data fd es out = send_data fd1 es1 (out @ take 8192 bs)"
      using t(1,3) w(1) by (subst send_data.simps) (simp add: tread_def)
    moreover have "length (stream fd1) < length (stream fd)" using t(1,4) by simp
    ultimately show ?thesis using less.hyps [OF _ t(2) w(2), of "out @ take 8192 bs"] t(4) by simp
  qed
qed

text \<open>The first job is taken out of the list and its cell read.\<close>

lemma take_first_job:
  assumes "pq_rep q (a # as)" "pq_item q a = Some (n, r)"
  obtains q1 j where "jobhead q = Some a" "remove_job a q = Returns q1" "pq_rep q1 as" "pq_item q1 = pq_item q" "a \<notin> set as"
    "pq_heap q1 a = Some j" "pj_jobid j = n" "pj_req j = r"
proof -
  obtain q1 where q1: "remove_job a q = Returns q1" "pq_rep q1 as" "pq_item q1 = pq_item q"
    using remove_job_rep [of q "[]" a as] assms(1) by auto
  have "pq_item q1 a = Some (n, r)" using assms(2) q1(3) by simp
  then obtain j where j: "pq_heap q1 a = Some j" "pj_jobid j = n" "pj_req j = r" by (auto simp: pq_item_def)
  have "a \<notin> set as" using pq_rep_cells [OF assms(1)] by simp
  with that [OF _ q1 _ j] jobhead_rep [OF assms(1)] show ?thesis by simp
qed

lemma drop_job_rep:
  assumes "pq_rep (pd_q s) as" "a \<notin> set as"
  shows "pq_rep (pd_q (drop_job a s)) as" "pd_fs (drop_job a s) = pd_fs s" "pq_heap (pd_q (drop_job a s)) a = None"
    "pq_rep (pd_q (finish_job a n s)) as" "pd_fs (finish_job a n s) = (pd_fs s)(data_name n := None, reqs_name n := None)"
    "pq_heap (pd_q (finish_job a n s)) a = None"
  using pq_rep_free [OF assms] by (simp_all add: drop_job_def finish_job_def)

text \<open>A round in which every call succeeds and the printer confirms the job.\<close>

definition round_ok :: "penv \<Rightarrow> string \<Rightarrow> int \<Rightarrow> bool" where
  "round_ok pe content n \<longleftrightarrow> pe_seek pe \<and> 0 \<le> pe_nw pe \<and> pe_open pe \<and> pe_size pe = Some (length content) \<and>
     0 \<le> fst (connect_retry (pe_connect pe)) \<and> length (pe_ibuf pe) = IBUFSZ \<and> length (pe_hbuf pe) = HBUFSZ \<and>
     (\<exists>k\<ge>1024. pe_writev pe = Accept k) \<and> (\<exists>k>0. pe_bs pe = Accept k) \<and> quiet (pe_file pe) \<and> stream (pe_file pe) = content \<and>
     takes (length content) (pe_writes pe) \<and> length content < 2 ^ 62 \<and> printer_status (pe_junk pe) (pe_answer pe) n = Some (Returns True)"

definition request_body :: "string \<Rightarrow> int \<Rightarrow> printreq \<Rightarrow> string \<Rightarrow> string" where
  "request_body pn n r content = ipp_bytes pn n r @ (if req_flags r AND 1 \<noteq> 0 then [BS] else []) @ content"

lemma print_job_sends:
  assumes "round_ok pe content n" "length pn \<le> 52" "NUL \<in> set (req_jobnm r)" "length (ipp_bytes pn n r) \<le> IBUFSZ"
  shows "print_job pe pn (length content) n r =
    Some (Returns (True, http_bytes pn (int (length (request_body pn n r content))) @ request_body pn n r content))"
proof -
  let ?ib = "ipp_bytes pn n r" and ?clen = "int (length content + length (ipp_bytes pn n r) + snd (doc_format r))"
  have cl: "?clen = int (length (request_body pn n r content))" by (simp add: request_body_def doc_format_def)
  obtain ibuf where i: "ipp_header (pe_ibuf pe) pn n r = Returns (ibuf, length ?ib)" "take (length ?ib) ibuf = ?ib"
    using ipp_header_fits [OF _ assms(2,3,4)] assms(1) by (auto simp: round_ok_def)
  have "snd (doc_format r) \<le> 1" by (simp add: doc_format_def)
  then have "?clen < 10 ^ 19" using assms(1,4) by (simp add: round_ok_def IBUFSZ_def)
  then obtain hbuf where h: "http_header (pe_hbuf pe) pn ?clen = Returns (hbuf, length (http_bytes pn ?clen))"
    "take (length (http_bytes pn ?clen)) hbuf = http_bytes pn ?clen" "length (http_bytes pn ?clen) \<le> HBUFSZ"
    using http_header_fits [of "pe_hbuf pe" pn ?clen] http_bytes_bound [of pn ?clen] assms(1,2) by (auto simp: round_ok_def)
  obtain k where k: "pe_writev pe = Accept k" "\<not> k < length (http_bytes pn ?clen) + length ?ib"
    using assms(1,4) h(3) by (auto simp: round_ok_def IBUFSZ_def HBUFSZ_def)
  obtain b where b: "pe_bs pe = Accept b" "b \<noteq> 0" using assms(1) by (auto simp: round_ok_def)
  have sd: "send_data (pe_file pe) (pe_writes pe) out = Some (True, out @ content)" for out
    using send_data_all [of "pe_file pe" "pe_writes pe" out] assms(1) by (auto simp: round_ok_def)
  have st: "printer_status (pe_junk pe) (pe_answer pe) n = Some (Returns True)" using assms(1) by (simp add: round_ok_def)
  show ?thesis
    unfolding cl [symmetric] print_job_def i(1) outcome.case prod.case h(1) Let_def h(2) i(2) k(1) wr_event.case b(1) sd st
    using k(2) b(2) by (simp add: request_body_def)
qed

text \<open>A daemon with one job, and an environment for the witnesses.\<close>

definition one_job :: "printreq \<Rightarrow> printd" where
  "one_job r = \<lparr>pd_q = \<lparr>pq_heap = (\<lambda>_. None)(1 \<mapsto> \<lparr>pj_next = None, pj_prev = None, pj_jobid = 7, pj_req = r\<rparr>), jobhead = Some 1, jobtail = Some 1\<rparr>,
     pd_nextjob = 8, pd_jobfile = [], pd_fs = (\<lambda>_. Some []), pd_workers = \<lparr>wk_heap = (\<lambda>_. None), wk_workers = None, wk_closed = []\<rparr>\<rparr>"

definition good_env :: penv where
  "good_env = \<lparr>pe_seek = True, pe_nw = 1, pe_addr = None, pe_open = True, pe_size = Some 2, pe_connect = (\<lambda>_. (3, True)),
     pe_ibuf = replicate 512 NUL, pe_hbuf = replicate 512 NUL, pe_writev = Accept 1024, pe_bs = Accept 1, pe_file = [Chunk ''hi''],
     pe_writes = [Accept 1, Accept 1],
     pe_answer = [Chunk (answer_head 200 ''OK'' [] 8 @ header_lines [] @ CRLF @ [NUL, NUL] @ be16 0 @ be32 7)], pe_junk = (\<lambda>_. NUL)\<rparr>"

definition small_request :: printreq where
  "small_request = \<lparr>req_size = 2, req_flags = 0, req_usernm = [CHR ''u'', NUL], req_jobnm = [CHR ''j'', NUL]\<rparr>"

lemma one_job_rep: "pq_rep (pd_q (one_job r)) [1]" "pq_item (pd_q (one_job r)) 1 = Some (7, r)"
  by (simp_all add: one_job_def pq_rep_def dchain_def pq_item_def link_def)

lemma good_env_answer: "printer_status (pe_junk good_env) (pe_answer good_env) 7 = Some (Returns True)"
proof -
  have l: "length (dec 200) \<le> 3" "length (dec 8) \<le> 1" using length_dec [of 3 200] length_dec [of 1 8] by simp_all
  from status_of_answer [of 200 "''OK''" "[]" "[NUL, NUL] @ be16 0 @ be32 7 @ []" "[]" NUL NUL 0 7 "[]" "\<lambda>_. NUL" "[]" 7]
  show ?thesis using l by (simp add: good_env_def head_ok_def IOBUFSZ_def answer_head_def)
qed

lemma good_env_ok: "round_ok good_env ''hi'' 7"
proof -
  have "fst (connect_retry (\<lambda>_. (3, True))) = 3" unfolding connect_retry_def by (subst connect_loop.simps) (simp add: MAXSLEEP_def)
  then show ?thesis using good_env_answer
    unfolding round_ok_def by (simp add: good_env_def IBUFSZ_def HBUFSZ_def takes_def)
qed

section \<open>Properties\<close>

text \<open>
  C12. A job is not lost: after a round of the printer thread, whatever calls fail, the job either is again the first of the queue, with
  its files untouched, or has been given up because its data file could not be opened, or its files are gone and the printer
  has confirmed this job. The other jobs keep their places.
\<close>

theorem printer_thread_keeps_jobs:
  assumes "pq_rep (pd_q s) (a # as)" "pq_item (pd_q s) a = Some (n, r)" "printer_thread pe s c = Some (Returns (t, c1, out))"
  shows "pq_rep (pd_q t) (a # as) \<and> pq_item (pd_q t) a = Some (n, r) \<and> pd_fs t = pd_fs s \<or>
    pq_rep (pd_q t) as \<and> pq_heap (pd_q t) a = None \<and>
      (pd_fs t = pd_fs s \<and> (pe_open pe \<longrightarrow> pe_size pe = None) \<or>
       pd_fs t = (pd_fs s)(data_name n := None, reqs_name n := None) \<and> printer_status (pe_junk pe) (pe_answer pe) n = Some (Returns True))"
proof -
  obtain q1 j where q1: "jobhead (pd_q s) = Some a" "remove_job a (pd_q s) = Returns q1" "pq_rep q1 as" "pq_item q1 = pq_item (pd_q s)"
    and a: "a \<notin> set as" and j: "pq_heap q1 a = Some j" "pj_jobid j = n" "pj_req j = r"
    by (rule take_first_job [OF assms(1,2)])
  from assms(3) q1(1,2) j(1) obtain f c2 where
    m: "(if \<not> pe_open pe then Some (Returns (drop_job a (s\<lparr>pd_q := q1, pd_jobfile := f\<rparr>), c2, []))
         else (case pe_size pe of
            None \<Rightarrow> Some (Returns (drop_job a (s\<lparr>pd_q := q1, pd_jobfile := f\<rparr>), c2, []))
          | Some st_size \<Rightarrow>
              if fst (connect_retry (pe_connect pe)) < 0
              then Some (bind_outcome (defer_job a (s\<lparr>pd_q := q1, pd_jobfile := f\<rparr>)) (\<lambda>s2. Returns (s2, c2, [])))
              else map_option (\<lambda>r. bind_outcome r (\<lambda>(ok, out).
                     if ok then Returns (finish_job a (pj_jobid j) (s\<lparr>pd_q := q1, pd_jobfile := f\<rparr>), c2, out)
                     else bind_outcome (defer_job a (s\<lparr>pd_q := q1, pd_jobfile := f\<rparr>)) (\<lambda>s2. Returns (s2, c2, out))))
                   (print_job pe (pc_name c2) st_size (pj_jobid j) (pj_req j)))) = Some (Returns (t, c1, out))"
    unfolding printer_thread_def by (auto split: outcome.splits simp: bind_outcome_assoc)
  let ?s = "s\<lparr>pd_q := q1, pd_jobfile := f\<rparr>"
  have rep: "pq_rep (pd_q ?s) as" "a \<in> dom (pq_heap (pd_q ?s)) - set as" using q1(3) j(1) a by auto
  obtain u where u: "defer_job a ?s = Returns u" "pq_rep (pd_q u) (a # as)" "pq_item (pd_q u) = pq_item (pd_q s)" "pd_fs u = pd_fs s"
    using defer_job_rep [OF rep] q1(4) by auto
  note d = drop_job_rep [OF rep(1) a]
  show ?thesis using m u d assms(2) j(2) print_job_ok [of pe _ _ n r]
    by (auto split: if_splits option.splits simp: j(3))
qed

theorem printer_thread_keeps_jobs_witness:
  "\<exists>t c1 out. printer_thread (good_env\<lparr>pe_connect := (\<lambda>_. (- 1, False))\<rparr>) (one_job small_request) \<lparr>pc_reread = False, pc_name = ''lp''\<rparr> =
      Some (Returns (t, c1, out)) \<and> pq_rep (pd_q t) [1]"
proof -
  let ?pe = "good_env\<lparr>pe_connect := (\<lambda>_. (- 1, False))\<rparr>" and ?c = "\<lparr>pc_reread = False, pc_name = ''lp''\<rparr>"
  have cr: "fst (connect_retry (\<lambda>_. (- 1, False))) = - 1" unfolding connect_retry_def by (subst connect_loop.simps) (simp add: MAXSLEEP_def)
  then obtain t where t: "printer_thread ?pe (one_job small_request) ?c = Some (Returns (t, ?c, []))" "pd_fs t = pd_fs (one_job small_request)"
    "pq_heap (pd_q t) 1 \<noteq> None"
    by (simp add: printer_thread_def good_env_def one_job_def remove_job_def replace_job_def update_jobno_def defer_job_def)
  from printer_thread_keeps_jobs [OF one_job_rep t(1)] t(3) have "pq_rep (pd_q t) [1]" by auto
  with t(1) show ?thesis by blast
qed

text \<open>
  C11. A successful round prints the job: the printer receives an HTTP request whose length field is the number of the bytes that
  follow the header, and these are the IPP header that names the job, a backspace before plain text, and the whole file; then the
  job leaves the queue and both its files are removed.
\<close>

theorem printer_thread_prints:
  assumes "pq_rep (pd_q s) (a # as)" "pq_item (pd_q s) a = Some (n, r)" "\<not> pc_reread c" "round_ok pe content n"
    "length (pc_name c) \<le> 52" "NUL \<in> set (req_jobnm r)" "length (ipp_bytes (pc_name c) n r) \<le> IBUFSZ"
  shows "\<exists>t body. printer_thread pe s c = Some (Returns (t, c, http_bytes (pc_name c) (int (length body)) @ body)) \<and>
    body = ipp_bytes (pc_name c) n r @ (if req_flags r AND 1 \<noteq> 0 then [BS] else []) @ content \<and>
    pq_rep (pd_q t) as \<and> pd_fs t = (pd_fs s)(data_name n := None, reqs_name n := None)"
proof -
  obtain q1 j where q1: "jobhead (pd_q s) = Some a" "remove_job a (pd_q s) = Returns q1" "pq_rep q1 as" "pq_item q1 = pq_item (pd_q s)"
    and a: "a \<notin> set as" and j: "pq_heap q1 a = Some j" "pj_jobid j = n" "pj_req j = r"
    by (rule take_first_job [OF assms(1,2)])
  obtain f where f: "update_jobno (pe_seek pe) (pe_nw pe) (pd_nextjob s) (pd_jobfile s) = Returns f"
    using assms(4) by (auto simp: round_ok_def update_jobno_def)
  let ?s = "s\<lparr>pd_q := q1, pd_jobfile := f\<rparr>" and ?b = "request_body (pc_name c) n r content"
  have "printer_thread pe s c = Some (Returns (finish_job a n ?s, c, http_bytes (pc_name c) (int (length ?b)) @ ?b))"
    using print_job_sends [OF assms(4-7)] assms(3,4) q1(1,2) j f by (simp add: printer_thread_def round_ok_def)
  moreover have "pq_rep (pd_q (finish_job a n ?s)) as" "pd_fs (finish_job a n ?s) = (pd_fs s)(data_name n := None, reqs_name n := None)"
    using drop_job_rep(4,5) [of ?s as a n] q1(3) a by simp_all
  ultimately show ?thesis by (intro exI [of _ "finish_job a n ?s"] exI [of _ ?b]) (simp add: request_body_def)
qed

theorem printer_thread_prints_witness:
  "\<exists>t body. printer_thread good_env (one_job small_request) \<lparr>pc_reread = False, pc_name = []\<rparr> =
      Some (Returns (t, \<lparr>pc_reread = False, pc_name = []\<rparr>, http_bytes [] (int (length body)) @ body)) \<and>
    pq_rep (pd_q t) [] \<and> pd_fs t (data_name 7) = None"
proof -
  let ?c = "\<lparr>pc_reread = False, pc_name = []\<rparr>"
  have l: "length (ipp_bytes (pc_name ?c) 7 small_request) \<le> IBUFSZ"
    by (simp add: length_ipp_bytes IBUFSZ_def user_text_def cstr_def doc_format_def small_request_def)
  have n: "NUL \<in> set (req_jobnm small_request)" by (simp add: small_request_def)
  have c: "\<not> pc_reread ?c" "length (pc_name ?c) \<le> 52" by simp_all
  from printer_thread_prints [OF one_job_rep c(1) good_env_ok c(2) n l] obtain t body where
    "printer_thread good_env (one_job small_request) ?c = Some (Returns (t, ?c, http_bytes (pc_name ?c) (int (length body)) @ body))"
    "pq_rep (pd_q t) []" "pd_fs t = (pd_fs (one_job small_request))(data_name 7 := None, reqs_name 7 := None)" by blast
  then show ?thesis by (intro exI [of _ t] exI [of _ body]) simp
qed

end
