(* ===== verification/Print_Main.thy ===== *)
theory Print_Main
  imports Print_Daemon
begin

text \<open>
  The main functions of the print command and of the printer daemon (\<open>extra_lib/apue.3e/printer/print.c\<close>, \<open>printd.c\<close>) and the
  server socket of \<open>extra_lib/apue.3e/sockets/initsrv2.c\<close>. The resolver and the results of the system calls are parameters.
\<close>

section \<open>The print command\<close>

text \<open>\<open>getopt\<close> of the C library for the option string \<open>t\<close>: whether there was a wrong option, whether \<open>-t\<close> was given, and the other arguments.\<close>

function print_getopt :: "string \<Rightarrow> string list \<Rightarrow> bool \<times> bool \<times> string list" where
  "print_getopt (c # cs) as =
     (let (err, t, rest) = print_getopt cs as in if c = CHR ''t'' then (err, True, rest) else (True, t, rest))"
| "print_getopt [] [] = (False, False, [])"
| "print_getopt [] (a # as) =
     (if a = ''--'' then (False, False, as)
      else if 2 \<le> length a \<and> hd a = CHR ''-'' then print_getopt (tl a) as
      else let (err, t, rest) = print_getopt [] as in (err, t, a # rest))"
  by pat_completeness auto
termination
  by (relation "measure (\<lambda>(cs, as). length cs + sum_list (map (\<lambda>a. length a + 1) as))") auto

text \<open>The addresses are tried in turn; \<open>conn\<close> says what \<open>socket\<close> and \<open>connect\<close> do for an address.\<close>

fun try_addrs :: "('a \<Rightarrow> nat \<Rightarrow> int \<times> bool) \<Rightarrow> 'a list \<Rightarrow> ('a \<times> int) option" where
  "try_addrs conn [] = None"
| "try_addrs conn (aip # ais) =
     (let sfd = fst (connect_retry (conn aip)) in if sfd < 0 then try_addrs conn ais else Some (aip, sfd))"

datatype file_state = CannotOpen | CannotStat | NotRegular | Regular nat

text \<open>The result is the call of \<open>submit_file\<close>: the address and socket, the name and size of the file, and the option.\<close>

definition print_main ::
  "(string \<Rightarrow> string \<Rightarrow> 'a list option) \<Rightarrow> ('a \<Rightarrow> nat \<Rightarrow> int \<times> bool) \<Rightarrow> (string \<Rightarrow> file_state) \<Rightarrow> string option \<Rightarrow> string list \<Rightarrow>
    ('a \<times> int \<times> string \<times> nat \<times> bool) outcome" where
  "print_main getaddrlist conn files cfg argv =
     (case print_getopt [] (tl argv) of
        (False, t, [fname]) \<Rightarrow>
          (case files fname of
             CannotOpen \<Rightarrow> Dies ''print: can't open''
           | CannotStat \<Rightarrow> Dies ''print: can't stat''
           | NotRegular \<Rightarrow> Dies ''print: must be a regular file''
           | Regular st_size \<Rightarrow>
               bind_outcome (get_printserver cfg) (\<lambda>host.
                 case host of
                   None \<Rightarrow> Dies ''print: no print server defined''
                 | Some h \<Rightarrow>
                     (case getaddrlist h ''print'' of
                        None \<Rightarrow> Dies ''print: getaddrinfo error''
                      | Some ailist \<Rightarrow>
                          (case try_addrs conn ailist of
                             None \<Rightarrow> Dies ''print: can't contact''
                           | Some (aip, sfd) \<Rightarrow> Returns (aip, sfd, fname, st_size, t)))))
      | _ \<Rightarrow> Dies ''usage: print [-t] filename'')"

section \<open>The server socket\<close>

text \<open>\<open>initserver\<close>: the results of the four calls; the value returned and the descriptors closed.\<close>

definition initserver :: "int \<Rightarrow> bool \<Rightarrow> bool \<Rightarrow> bool \<Rightarrow> bool \<Rightarrow> int \<times> int list" where
  "initserver fd sockopt bound stream_socket listening =
     (if fd < 0 then (- 1, [])
      else if \<not> sockopt then (- 1, [fd])
      else if \<not> bound then (- 1, [fd])
      else if stream_socket \<and> \<not> listening then (- 1, [fd])
      else (fd, []))"

section \<open>The daemon\<close>

text \<open>
  What the start of the daemon meets: the first of the calls before the lookup of addresses that fails (\<open>sigaction\<close>, \<open>pthread_sigmask\<close>, \<open>malloc\<close>,
  \<open>gethostname\<close>), if one does; the descriptors of \<open>initserver\<close> for the addresses of the host (\<open>None\<close> when they cannot be looked
  up), the entry of the user \<open>lp\<close>, whether the change of identity succeeds, the job file with its lock, the printer, the
  creation of the two threads, and the spool directory with the files that can be read.
\<close>

record denv =
  de_setup :: "string option"
  de_fds :: "int list option"
  de_uid :: "nat option"
  de_setids :: bool
  de_locked :: bool
  de_readable :: bool
  de_stack :: string
  de_addr :: "string option option"
  de_threads :: bool
  de_dir :: "string list option"
  de_reads :: "string \<Rightarrow> bool"
  de_mems :: "nat option list"

definition printd_main :: "denv \<Rightarrow> nat \<Rightarrow> printd \<Rightarrow> (printd \<times> pconf \<times> int list) outcome" where
  "printd_main de argc s =
     (if argc \<noteq> 1 then Dies ''usage: printd''
      else if de_setup de \<noteq> None then Dies (the (de_setup de))
      else case de_fds de of
        None \<Rightarrow> Dies ''getaddrinfo error''
      | Some fds \<Rightarrow>
          let rendezvous = filter (\<lambda>fd. 0 \<le> fd) fds in
          if rendezvous = [] then Dies ''service not enabled''
          else case de_uid de of
            None \<Rightarrow> Dies ''can't find user lp''
          | Some uid \<Rightarrow>
              if uid = 0 then Dies ''user lp is privileged''
              else if \<not> de_setids de then Dies ''can't change IDs to user lp''
              else bind_outcome (init_request (de_locked de) (de_readable de) (de_stack de) (pd_jobfile s)) (\<lambda>nextjob.
                   bind_outcome (init_printer (de_addr de)) (\<lambda>nm.
                     if \<not> de_threads de then Dies ''can't create thread''
                     else bind_outcome (build_qonstart (de_reads de) (de_dir de) (de_mems de) (s\<lparr>pd_nextjob := nextjob\<rparr>)) (\<lambda>t.
                       Returns (t, \<lparr>pc_reread = False, pc_name = nm\<rparr>, rendezvous)))))"

text \<open>
  One round of the loop that accepts connections: \<open>sel\<close> is the result of \<open>select\<close>, \<open>rset\<close> the descriptors that are ready, and \<open>accepted\<close> what
  \<open>accept\<close> returns for each. The result are the arguments of the client threads that are created, in order; a failed \<open>accept\<close> is
  logged, and its thread is created all the same.
\<close>

definition printd_round :: "int \<Rightarrow> (nat \<Rightarrow> bool) \<Rightarrow> (nat \<Rightarrow> int) \<Rightarrow> nat \<Rightarrow> int list outcome" where
  "printd_round sel rset accepted maxfd =
     (if sel < 0 then Dies ''select failed'' else Returns (map accepted (filter rset [0..<maxfd + 1])))"

section \<open>Properties\<close>

lemma try_addrs_first:
  "list_all (\<lambda>x. fst (connect_retry (conn x)) < 0) xs \<Longrightarrow> 0 \<le> fst (connect_retry (conn a)) \<Longrightarrow>
    try_addrs conn (xs @ a # ys) = Some (a, fst (connect_retry (conn a)))"
  by (induction xs) (auto simp: Let_def)

text \<open>
  The print command contacts the first address of the server that answers, and asks for the file it was given.
\<close>

theorem print_main_contacts_first:
  assumes "print_getopt [] (tl argv) = (False, t, [fname])" "files fname = Regular sz"
    "list_all (\<lambda>(k, v). word_ok 15 k \<and> word_ok 490 v) kvs" "map_of kvs ''printserver'' = Some host"
    "getaddrlist host ''print'' = Some (xs @ a # ys)" "list_all (\<lambda>x. fst (connect_retry (conn x)) < 0) xs" "0 \<le> fst (connect_retry (conn a))"
  shows "print_main getaddrlist conn files (Some (concat (map config_line kvs))) argv = Returns (a, fst (connect_retry (conn a)), fname, sz, t)"
  using assms(1,2,4,5) scan_loop_config [OF assms(3)] try_addrs_first [OF assms(6,7)]
  by (simp add: print_main_def get_printserver_def scan_configfile_def)

theorem print_main_contacts_first_witness:
  "print_main (\<lambda>h s. Some [h]) (\<lambda>_ _. (3, True)) (\<lambda>_. Regular 2) (Some (concat (map config_line [(''printserver'', ''blade'')]))) [''print'', ''f'', ''-t''] =
    Returns (''blade'', 3, ''f'', 2, True)"
proof -
  have c: "fst (connect_retry (\<lambda>_. (3, True))) = 3" unfolding connect_retry_def by (subst connect_loop.simps) (simp add: MAXSLEEP_def)
  from print_main_contacts_first [where argv = "[''print'', ''f'', ''-t'']" and t = True and fname = "''f''" and files = "\<lambda>_. Regular 2" and sz = 2
      and kvs = "[(''printserver'', ''blade'')]" and host = "''blade''" and getaddrlist = "\<lambda>h s. Some [h]" and xs = "[]" and a = "''blade''"
      and ys = "[]" and conn = "\<lambda>_ _. (3, True)"]
  show ?thesis by (simp add: c word_ok_def isspace_def)
qed

text \<open>A server socket that cannot be set up is closed.\<close>

theorem initserver_no_leak: "fst (initserver fd so bd st ls) = - 1 \<Longrightarrow> 0 \<le> fd \<Longrightarrow> snd (initserver fd so bd st ls) = [fd]"
  by (auto simp: initserver_def split: if_splits)

text \<open>A connection that cannot be accepted still gets a thread, with the descriptor -1.\<close>

lemma failed_accept_served:
  assumes "0 \<le> sel" "rset i" "i \<le> maxfd" "accepted i = - 1"
  shows "\<exists>ts. printd_round sel rset accepted maxfd = Returns ts \<and> - 1 \<in> set ts"
proof -
  have "accepted i \<in> set (map accepted (filter rset [0..<maxfd + 1]))" using assms(2,3) by (auto simp del: upt_Suc)
  then show ?thesis using assms(1,4) by (auto simp: printd_round_def)
qed

text \<open>
  C32. A daemon takes up the work of its predecessor: it starts with the job number that was written last and with the spooled jobs in
  its queue, but not as a second daemon, and not with the rights of the superuser.
\<close>

theorem printd_main_resumes:
  assumes "de_setup de = None" "de_reads de = (\<lambda>_. True)" "de_fds de = Some fds" "\<exists>fd\<in>set fds. 0 \<le> fd" "de_setids de" "de_readable de" "de_addr de = Some (Some nm)" "de_threads de"
    "de_dir de = Some (''.'' # ''..'' # map (\<lambda>(n, r). int_text n) jobs)" "de_mems de = map Some as" "length as = length jobs" "distinct as"
    "pd_q s = \<lparr>pq_heap = (\<lambda>_. None), jobhead = None, jobtail = None\<rparr>" "pd_jobfile s = int_text m" "1 \<le> m" "m \<le> jobno_max"
    "list_all (\<lambda>(n, r). 1 \<le> n \<and> n \<le> jobno_max \<and> req_wf r \<and> pd_fs s (reqs_name n) = Some (req_bytes r)) jobs"
  shows "if de_locked de \<and> (\<exists>uid>0. de_uid de = Some uid)
    then \<exists>t. printd_main de 1 s = Returns (t, \<lparr>pc_reread = False, pc_name = nm\<rparr>, filter (\<lambda>fd. 0 \<le> fd) fds) \<and> pd_nextjob t = m \<and>
      pq_rep (pd_q t) as \<and> map (pq_item (pd_q t)) as = map Some jobs \<and> pd_fs t = pd_fs s
    else \<exists>msg. printd_main de 1 s = Dies msg"
proof -
  have fd: "filter (\<lambda>fd. 0 \<le> fd) fds \<noteq> []" using assms(4) by (auto simp: filter_empty_conv)
  have ir: "init_request True True (de_stack de) (pd_jobfile s) = Returns m" using init_request_reads [OF assms(15,16)] assms(14) by simp
  have rep: "pq_rep (pd_q (s\<lparr>pd_nextjob := m\<rparr>)) []" using assms(13) by (simp add: pq_rep_def dchain_def)
  obtain t where t: "build_loop (\<lambda>_. True) (map (\<lambda>(n, r). int_text n) jobs) (map Some as) (s\<lparr>pd_nextjob := m\<rparr>) = Returns t"
    "pq_rep (pd_q t) as" "map (pq_item (pd_q t)) as = map Some jobs" "pd_fs t = pd_fs s"
    using build_loop_recovers [OF rep assms(12) _ assms(11)] assms(13,17) by auto
  have nj: "build_loop rd es ms u = Returns v \<Longrightarrow> pd_nextjob v = pd_nextjob u" for rd es ms u v
    by (induction rd es ms u rule: build_loop.induct) (auto simp: Let_def split: if_splits option.splits list.splits)
  note d = printd_main_def init_printer_def build_qonstart_def
  show ?thesis
  proof (cases "de_locked de \<and> (\<exists>uid>0. de_uid de = Some uid)")
    case True
    then obtain uid where "de_locked de" "uid \<noteq> 0" "de_uid de = Some uid" by auto
    with True show ?thesis using assms(1-3,5-10) fd ir t nj [OF t(1)] by (simp add: d)
  next
    case False
    have "de_locked de \<Longrightarrow> de_uid de \<noteq> None \<Longrightarrow> de_uid de = Some 0" using False by auto
    then have "\<exists>msg. printd_main de 1 s = Dies msg"
      using assms(1-3,5-7) fd by (cases "de_locked de"; cases "de_uid de") (auto simp: d init_request_def)
    with False show ?thesis by (simp only: if_False)
  qed
qed

theorem printd_main_resumes_witness:
  "\<exists>de s t. printd_main de 1 s = Returns (t, \<lparr>pc_reread = False, pc_name = ''lp''\<rparr>, [4]) \<and> pd_nextjob t = 8 \<and> pq_item (pd_q t) 3 = Some (7, submit_header (\<lambda>_. NUL) None ''f'' 2 True)"
proof -
  let ?r = "submit_header (\<lambda>_. NUL) None ''f'' 2 True"
  let ?s = "\<lparr>pd_q = \<lparr>pq_heap = (\<lambda>_. None), jobhead = None, jobtail = None\<rparr>, pd_nextjob = 0, pd_jobfile = int_text 8,
    pd_fs = (\<lambda>_. None)(reqs_name 7 \<mapsto> req_bytes ?r), pd_workers = \<lparr>wk_heap = (\<lambda>_. None), wk_workers = None, wk_closed = []\<rparr>\<rparr>"
  let ?de = "\<lparr>de_setup = None, de_fds = Some [- 1, 4], de_uid = Some 9, de_setids = True, de_locked = True, de_readable = True, de_stack = [], de_addr = Some (Some ''lp''),
    de_threads = True, de_dir = Some [''.'', ''..'', int_text 7], de_reads = (\<lambda>_. True), de_mems = [Some 3]\<rparr>"
  have wf: "req_wf ?r" by (rule submit_header_wf)
  obtain t where "printd_main ?de 1 ?s = Returns (t, \<lparr>pc_reread = False, pc_name = ''lp''\<rparr>, [4])" "pd_nextjob t = 8" "pq_item (pd_q t) 3 = Some (7, ?r)"
    using printd_main_resumes [of ?de "[- 1, 4]" "''lp''" "[(7, ?r)]" "[3]" ?s 8] wf by auto
  then show ?thesis by blast
qed

end
